(* ===== verification/Prelude.thy ===== *)
theory Prelude
  imports Main "HOL-Library.Word" "HOL-Library.Monad_Syntax"
begin

text \<open>
  Shared vocabulary of the development: the machine integer types of the 32-bit target
  (\<^verbatim>\<open>lib/stdint.h\<close>), the kernel's \<^verbatim>\<open>ASSERT\<close> (\<^verbatim>\<open>lib/debug.h\<close>) as a step of
  the option monad, \<^verbatim>\<open>size_t\<close> arithmetic with its wrap-around, the rounding macros of
  \<^verbatim>\<open>lib/round.h\<close>, little-endian encoding of 32-bit words, and generic list lemmas.

  Conventions used everywhere. A kernel operation has a result in \<^typ>\<open>'a option\<close>:
  \<^const>\<open>None\<close> is a kernel panic (a failed \<^verbatim>\<open>ASSERT\<close>, \<^verbatim>\<open>PANIC\<close>,
  \<^verbatim>\<open>NOT_REACHED\<close>) or a loop that does not return; \<^const>\<open>Some\<close> carries the new state and
  the C return value. Pointers and \<^verbatim>\<open>size_t\<close> values are \<^typ>\<open>nat\<close>; the null pointer is 0.
\<close>

unbundle bit_operations_syntax

section \<open>Machine types\<close>

type_synonym u8 = "8 word"
type_synonym u16 = "16 word"
type_synonym u32 = "32 word"
type_synonym u64 = "64 word"
type_synonym ptr = nat

abbreviation (input) NULL :: ptr where
  "NULL \<equiv> 0"

text \<open>\<open>SIZE_MAX + 1\<close>: values of \<^verbatim>\<open>size_t\<close> and \<^verbatim>\<open>uint32_t\<close> kept as \<^typ>\<open>nat\<close> stay below it.\<close>

abbreviation (input) two32 :: nat where
  "two32 \<equiv> 4294967296"

section \<open>Assertions\<close>

definition ASSERT :: "bool \<Rightarrow> unit option" where
  "ASSERT c = (if c then Some () else None)"

section \<open>Arithmetic on size_t\<close>

definition add32 :: "nat \<Rightarrow> nat \<Rightarrow> nat" where
  "add32 a b = (a + b) mod two32"

definition sub32 :: "nat \<Rightarrow> nat \<Rightarrow> nat" where
  "sub32 a b = (a + (two32 - b mod two32)) mod two32"

definition mul32 :: "nat \<Rightarrow> nat \<Rightarrow> nat" where
  "mul32 a b = (a * b) mod two32"

definition ROUND_UP :: "nat \<Rightarrow> nat \<Rightarrow> nat" where
  "ROUND_UP x step = mul32 (sub32 (add32 x step) 1 div step) step"

definition DIV_ROUND_UP :: "nat \<Rightarrow> nat \<Rightarrow> nat" where
  "DIV_ROUND_UP x step = sub32 (add32 x step) 1 div step"

definition ROUND_DOWN :: "nat \<Rightarrow> nat \<Rightarrow> nat" where
  "ROUND_DOWN x step = mul32 (x div step) step"

section \<open>Little-endian words\<close>

definition le32 :: "u32 \<Rightarrow> u8 list" where
  "le32 w = [ucast w, ucast (drop_bit 8 w), ucast (drop_bit 16 w), ucast (drop_bit 24 w)]"

definition of_le32 :: "u8 list \<Rightarrow> u32" where
  "of_le32 bs = word_of_nat (unat (bs ! 0) + 256 * unat (bs ! 1) + 65536 * unat (bs ! 2)
     + 16777216 * unat (bs ! 3))"

text \<open>The decimal digits of a number, as \<^verbatim>\<open>printf\<close> prints them.\<close>

fun dec_digits :: "nat \<Rightarrow> u8 list" where
  "dec_digits n = (if n < 10 then [word_of_nat (48 + n)] else dec_digits (n div 10) @ [word_of_nat (48 + n mod 10)])"

declare dec_digits.simps [simp del]

section \<open>Shared lemmas\<close>

named_theorems kdefs \<open>definitions of the primitive kernel operations\<close>

lemma ASSERT_True [simp]: "ASSERT True = Some ()"
  by (simp add: ASSERT_def)

lemma ASSERT_False [simp]: "ASSERT False = None"
  by (simp add: ASSERT_def)

lemma ASSERT_eq_Some [simp]: "ASSERT c = Some u \<longleftrightarrow> c"
  by (simp add: ASSERT_def)

lemma ASSERT_bind_eq_Some [simp]: "ASSERT c \<bind> f = Some r \<longleftrightarrow> c \<and> f () = Some r"
  by (simp add: ASSERT_def)

lemma add32_id [simp]: "a + b < two32 \<Longrightarrow> add32 a b = a + b"
  by (simp add: add32_def)

lemma add32_less [simp]: "add32 a b < two32"
  by (simp add: add32_def)

lemma sub32_id [simp]:
  assumes "b \<le> a" "a < two32"
  shows "sub32 a b = a - b"
proof -
  have b: "b mod two32 = b" using assms by simp
  have eq: "a + (two32 - b) = (a - b) + two32" using assms by simp
  show ?thesis using assms by (simp only: sub32_def b eq mod_add_self2) simp
qed

lemma mul32_id [simp]: "a * b < two32 \<Longrightarrow> mul32 a b = a * b"
  by (simp add: mul32_def)

lemma DIV_ROUND_UP_eq:
  assumes "0 < step" "x + step < two32"
  shows "DIV_ROUND_UP x step = (x + step - 1) div step"
  using assms by (simp add: DIV_ROUND_UP_def)

lemma DIV_ROUND_UP_ge:
  assumes "0 < step" "x + step < two32"
  shows "x \<le> DIV_ROUND_UP x step * step"
proof -
  have "x + step - 1 < (x + step - 1) div step * step + step"
    using assms(1) by (metis add.commute dividend_less_div_times)
  then show ?thesis using assms by (simp add: DIV_ROUND_UP_eq)
qed

lemma DIV_ROUND_UP_less:
  assumes "0 < step" "x + step < two32"
  shows "DIV_ROUND_UP x step * step < x + step"
proof -
  have "(x + step - 1) div step * step \<le> x + step - 1"
    by (rule div_times_less_eq_dividend)
  moreover have "x + step - 1 < x + step" using assms(1) by simp
  ultimately show ?thesis using assms by (simp only: DIV_ROUND_UP_eq)
qed

lemma DIV_ROUND_UP_mono_index:
  assumes "0 < step" "x + step < two32" "i < x"
  shows "i div step < DIV_ROUND_UP x step"
proof -
  have "i < DIV_ROUND_UP x step * step"
    using DIV_ROUND_UP_ge [OF assms(1,2)] assms(3) by simp
  then show ?thesis by (simp add: less_mult_imp_div_less)
qed

lemma all_ge_Suc: "(\<forall>k \<ge> i. P k) \<longleftrightarrow> P i \<and> (\<forall>k \<ge> Suc i. P k)"
  using not_less_eq_eq antisym by (metis Suc_leD order_refl)

lemma ex_ge_Suc: "(\<exists>k \<ge> i. P k) \<longleftrightarrow> P i \<or> (\<exists>k \<ge> Suc i. P k)"
  using all_ge_Suc [of i "\<lambda>k. \<not> P k"] by blast

lemma length_le32 [simp]: "length (le32 w) = 4"
  by (simp add: le32_def)

lemma unat_less_two32: "unat (w :: u32) < two32"
  using unsigned_less [of w] by simp

lemma unat_byte_less [simp]: "unat (b :: u8) < 256"
  using unsigned_less [of b] by simp

lemma unat_ucast_byte: "unat (ucast (drop_bit n w) :: u8) = unat (w :: u32) div 2 ^ n mod 256"
proof -
  have "unat (ucast (drop_bit n w) :: u8) = take_bit 8 (drop_bit n (unat w))"
    by (simp add: unsigned_ucast_eq unat_drop_bit_eq)
  then show ?thesis by (simp add: take_bit_eq_mod drop_bit_eq_div)
qed

lemma split_bytes32:
  assumes "(n :: nat) < two32"
  shows "n mod 256 + 256 * (n div 256 mod 256)
     + 65536 * (n div 65536 mod 256) + 16777216 * (n div 16777216 mod 256) = n"
proof -
  have 1: "n = n mod 256 + 256 * (n div 256)" by simp
  have 2: "n div 256 = n div 256 mod 256 + 256 * (n div 65536)"
    using mod_mult_div_eq [of "n div 256" 256] by (simp add: div_mult2_eq [of n 256 256, simplified])
  have 3: "n div 65536 = n div 65536 mod 256 + 256 * (n div 16777216)"
    using mod_mult_div_eq [of "n div 65536" 256] by (simp add: div_mult2_eq [of n 65536 256, simplified])
  have 4: "n div 16777216 mod 256 = n div 16777216"
    using assms by (simp add: less_mult_imp_div_less)
  show ?thesis using 1 2 3 4 by linarith
qed

lemma of_le32_le32 [simp]: "of_le32 (le32 w @ bs) = w"
proof -
  have b: "unat (ucast w :: u8) = unat w mod 256"
      "unat (ucast (drop_bit 8 w) :: u8) = unat w div 256 mod 256"
      "unat (ucast (drop_bit 16 w) :: u8) = unat w div 65536 mod 256"
      "unat (ucast (drop_bit 24 w) :: u8) = unat w div 16777216 mod 256"
    using unat_ucast_byte [of 0 w] unat_ucast_byte [of 8 w] unat_ucast_byte [of 16 w]
      unat_ucast_byte [of 24 w] by simp_all
  have "of_le32 (le32 w @ bs) = word_of_nat (unat (ucast w :: u8)
      + 256 * unat (ucast (drop_bit 8 w) :: u8) + 65536 * unat (ucast (drop_bit 16 w) :: u8)
      + 16777216 * unat (ucast (drop_bit 24 w) :: u8))"
    by (simp only: of_le32_def le32_def) (simp add: numeral_2_eq_2 numeral_3_eq_3)
  also have "\<dots> = word_of_nat (unat w)"
    by (simp only: b split_bytes32 [OF unat_less_two32])
  finally show ?thesis by simp
qed

end
