(* ===== verification/Interfaces.thy ===== *)
theory Interfaces
  imports Prelude
begin

text \<open>
  The contracts through which components use one another, as locales. \<open>fifo\<close> is the queue
  discipline that the scheduler, the semaphores and the interrupt queues rely on;
  \<open>region_alloc\<close> is the contract of an allocator of contiguous numbered units, which page
  pools and the free-sector map obtain from the kernel bitmap; \<open>elem_table\<close> is a set of elements
  searched up to an equivalence, the contract of the hash table; \<open>sector_store\<close> is the contract of a
  block device on which the file system rests. The lemmas that clients need
  are proved once, inside the locales, and reach the code through the interpretations in the
  theories of the providers.
\<close>

section \<open>Queues\<close>

primrec push_all :: "('s \<Rightarrow> 'a \<Rightarrow> 's option) \<Rightarrow> 's \<Rightarrow> 'a list \<Rightarrow> 's option" where
  "push_all push s [] = Some s"
| "push_all push s (x # xs) = do { s \<leftarrow> push s x; push_all push s xs }"

primrec pop_n :: "('s \<Rightarrow> ('s \<times> 'a) option) \<Rightarrow> nat \<Rightarrow> 's \<Rightarrow> ('s \<times> 'a list) option" where
  "pop_n pop 0 s = Some (s, [])"
| "pop_n pop (Suc n) s = do { (s, x) \<leftarrow> pop s; (s, xs) \<leftarrow> pop_n pop n s; Some (s, x # xs) }"

text \<open>\<open>room xs x\<close>: a queue that holds \<open>xs\<close> can take \<open>x\<close>.\<close>

locale fifo =
  fixes repr :: "'s \<Rightarrow> 'a list \<Rightarrow> bool"
    and room :: "'a list \<Rightarrow> 'a \<Rightarrow> bool"
    and push :: "'s \<Rightarrow> 'a \<Rightarrow> 's option"
    and pop :: "'s \<Rightarrow> ('s \<times> 'a) option"
  assumes push_law: "repr s xs \<Longrightarrow> room xs x \<Longrightarrow> \<exists>s'. push s x = Some s' \<and> repr s' (xs @ [x])"
    and pop_law: "repr s (x # xs) \<Longrightarrow> \<exists>s'. pop s = Some (s', x) \<and> repr s' xs"
begin

lemma push_all_law:
  assumes "repr s xs" "\<And>ys z zs'. zs = ys @ z # zs' \<Longrightarrow> room (xs @ ys) z"
  shows "\<exists>s'. push_all push s zs = Some s' \<and> repr s' (xs @ zs)"
  using assms
proof (induction zs arbitrary: s xs)
  case Nil
  then show ?case by simp
next
  case (Cons z zs)
  obtain s1 where s1: "push s z = Some s1" "repr s1 (xs @ [z])"
    using push_law [OF Cons.prems(1)] Cons.prems(2) [of "[]" z zs] by auto
  have "room ((xs @ [z]) @ ys) y" if "zs = ys @ y # zs'" for ys y zs'
    using Cons.prems(2) [of "z # ys" y zs'] that by simp
  from Cons.IH [OF s1(2) this] show ?case using s1(1) by simp
qed

lemma pop_n_law: "repr s (xs @ ys) \<Longrightarrow> \<exists>s'. pop_n pop (length xs) s = Some (s', xs) \<and> repr s' ys"
proof (induction xs arbitrary: s)
  case Nil
  then show ?case by simp
next
  case (Cons x xs)
  then obtain s1 where s1: "pop s = Some (s1, x)" "repr s1 (xs @ ys)"
    using pop_law [of s x "xs @ ys"] by auto
  with Cons.IH [OF s1(2)] show ?case by auto
qed

lemma first_in_first_out:
  assumes "repr s xs" "\<And>ys z zs'. zs = ys @ z # zs' \<Longrightarrow> room (xs @ ys) z"
  shows "\<exists>s1 s2. push_all push s zs = Some s1 \<and> pop_n pop (length (xs @ zs)) s1 = Some (s2, xs @ zs)
    \<and> repr s2 []"
  using push_all_law [OF assms] pop_n_law [of _ "xs @ zs" "[]"] by fastforce

end

section \<open>Allocators of contiguous units\<close>

definition free_run :: "nat \<Rightarrow> (nat \<Rightarrow> bool) \<Rightarrow> nat \<Rightarrow> nat \<Rightarrow> bool" where
  "free_run sz used i n \<longleftrightarrow> i + n \<le> sz \<and> (\<forall>j. i \<le> j \<and> j < i + n \<longrightarrow> \<not> used j)"

locale region_alloc =
  fixes ok :: "'s \<Rightarrow> bool"
    and cap :: "'s \<Rightarrow> nat"
    and used :: "'s \<Rightarrow> nat \<Rightarrow> bool"
    and alloc :: "'s \<Rightarrow> nat \<Rightarrow> ('s \<times> nat option) option"
    and release :: "'s \<Rightarrow> nat \<Rightarrow> nat \<Rightarrow> 's option"
  assumes alloc_total: "ok s \<Longrightarrow> \<exists>s' r. alloc s n = Some (s', r)"
    and alloc_inv: "ok s \<Longrightarrow> alloc s n = Some (s', r) \<Longrightarrow> ok s' \<and> cap s' = cap s"
    and alloc_None: "ok s \<Longrightarrow> alloc s n = Some (s', None) \<Longrightarrow>
      s' = s \<and> (\<nexists>i. free_run (cap s) (used s) i n)"
    and alloc_Some: "ok s \<Longrightarrow> alloc s n = Some (s', Some i) \<Longrightarrow>
      free_run (cap s) (used s) i n \<and> (\<forall>j. used s' j \<longleftrightarrow> used s j \<or> i \<le> j \<and> j < i + n)"
    and release_law: "ok s \<Longrightarrow> i + n \<le> cap s \<Longrightarrow> \<forall>j. i \<le> j \<and> j < i + n \<longrightarrow> used s j \<Longrightarrow>
      \<exists>s'. release s i n = Some s' \<and> ok s' \<and> cap s' = cap s
        \<and> (\<forall>j. used s' j \<longleftrightarrow> used s j \<and> \<not> (i \<le> j \<and> j < i + n))"
begin

lemma alloc_succeeds:
  assumes "ok s" "free_run (cap s) (used s) i n"
  shows "\<exists>s' k. alloc s n = Some (s', Some k)"
proof -
  obtain s' r where a: "alloc s n = Some (s', r)" using alloc_total [OF assms(1)] by blast
  then show ?thesis using alloc_None [OF assms(1)] assms(2) by (cases r) blast+
qed

lemma alloc_disjoint:
  assumes "ok s" "alloc s n = Some (s1, Some i)" "alloc s1 m = Some (s2, Some j)"
  shows "{i..<i + n} \<inter> {j..<j + m} = {}"
proof -
  have "ok s1" using alloc_inv [OF assms(1,2)] by blast
  then have "\<forall>k. j \<le> k \<and> k < j + m \<longrightarrow> \<not> used s1 k"
    using alloc_Some [OF _ assms(3)] by (simp add: free_run_def)
  moreover have "\<forall>k. i \<le> k \<and> k < i + n \<longrightarrow> used s1 k" using alloc_Some [OF assms(1,2)] by blast
  ultimately show ?thesis by fastforce
qed

lemma alloc_release:
  assumes "ok s" "alloc s n = Some (s1, Some i)"
  shows "\<exists>s2. release s1 i n = Some s2 \<and> ok s2 \<and> cap s2 = cap s \<and> used s2 = used s"
proof -
  have f: "free_run (cap s) (used s) i n" "\<forall>j. used s1 j \<longleftrightarrow> used s j \<or> i \<le> j \<and> j < i + n"
    using alloc_Some [OF assms] by blast+
  have s1: "ok s1" "cap s1 = cap s" using alloc_inv [OF assms] by blast+
  obtain s2 where s2: "release s1 i n = Some s2" "ok s2" "cap s2 = cap s1"
      "\<forall>j. used s2 j \<longleftrightarrow> used s1 j \<and> \<not> (i \<le> j \<and> j < i + n)"
    using release_law [OF s1(1), of i n] f s1(2) by (auto simp: free_run_def)
  then have "used s2 = used s" using f by (auto simp: free_run_def)
  then show ?thesis using s2 s1(2) by auto
qed

lemma alloc_release_alloc:
  assumes "ok s" "alloc s n = Some (s1, Some i)"
  shows "\<exists>s2 s3 k. release s1 i n = Some s2 \<and> alloc s2 n = Some (s3, Some k)"
proof -
  obtain s2 where s2: "release s1 i n = Some s2" "ok s2" "cap s2 = cap s" "used s2 = used s"
    using alloc_release [OF assms] by blast
  have "free_run (cap s2) (used s2) i n" using alloc_Some [OF assms] s2(3,4) by simp
  then show ?thesis using alloc_succeeds [OF s2(2)] s2(1) by blast
qed

end

section \<open>Tables\<close>

text \<open>
  \<open>same s\<close>: equality of elements as the table \<open>s\<close> sees it; \<open>room s\<close>: the table can take one more.
\<close>

locale elem_table =
  fixes ok :: "'s \<Rightarrow> bool"
    and room :: "'s \<Rightarrow> bool"
    and elems :: "'s \<Rightarrow> 'e set"
    and same :: "'s \<Rightarrow> 'e \<Rightarrow> 'e \<Rightarrow> bool"
    and find :: "'s \<Rightarrow> 'e \<Rightarrow> 'e option"
    and put :: "'s \<Rightarrow> 'e \<Rightarrow> ('s \<times> 'e option) option"
    and del :: "'s \<Rightarrow> 'e \<Rightarrow> ('s \<times> 'e option) option"
  assumes same_refl: "ok s \<Longrightarrow> same s x x"
    and same_sym: "ok s \<Longrightarrow> same s x y \<Longrightarrow> same s y x"
    and same_trans: "ok s \<Longrightarrow> same s x y \<Longrightarrow> same s y z \<Longrightarrow> same s x z"
    and unique: "ok s \<Longrightarrow> x \<in> elems s \<Longrightarrow> y \<in> elems s \<Longrightarrow> same s x y \<Longrightarrow> x = y"
    and find_Some: "ok s \<Longrightarrow> find s e = Some x \<Longrightarrow> x \<in> elems s \<and> same s x e"
    and find_None: "ok s \<Longrightarrow> find s e = None \<Longrightarrow> x \<in> elems s \<Longrightarrow> \<not> same s x e"
    and put_law: "ok s \<Longrightarrow> room s \<Longrightarrow> e \<notin> elems s \<Longrightarrow> \<exists>s'. put s e = Some (s', find s e) \<and> ok s' \<and> same s' = same s
      \<and> elems s' = (if find s e = None then insert e (elems s) else elems s)"
    and del_law: "ok s \<Longrightarrow> \<exists>s'. del s e = Some (s', find s e) \<and> ok s' \<and> same s' = same s
      \<and> elems s' = (case find s e of None \<Rightarrow> elems s | Some x \<Rightarrow> elems s - {x})"
begin

lemma find_iff: "ok s \<Longrightarrow> find s e = Some x \<longleftrightarrow> x \<in> elems s \<and> same s x e"
proof
  assume s: "ok s" "x \<in> elems s \<and> same s x e"
  then obtain y where y: "find s e = Some y" using find_None by (cases "find s e") auto
  then have "y \<in> elems s" "same s y e" using find_Some [OF s(1)] by auto
  then have "y = x" using s unique [of s y x] same_trans [of s y e x] same_sym [of s x e] by blast
  then show "find s e = Some x" using y by simp
qed (rule find_Some)

text \<open>After an insertion the key is found; other keys are found as before.\<close>

lemma find_after_put:
  assumes "ok s" "room s" "e \<notin> elems s"
  shows "\<exists>s'. put s e = Some (s', find s e) \<and> ok s' \<and> find s' e = Some (case find s e of None \<Rightarrow> e | Some x \<Rightarrow> x)
    \<and> (\<forall>k. \<not> same s e k \<longrightarrow> find s' k = find s k)"
proof -
  obtain s' where s': "put s e = Some (s', find s e)" "ok s'" "same s' = same s"
      "elems s' = (if find s e = None then insert e (elems s) else elems s)"
    using put_law [OF assms] by blast
  have "find s' e = Some (case find s e of None \<Rightarrow> e | Some x \<Rightarrow> x)"
    unfolding find_iff [OF s'(2)] s'(3,4) using find_Some [OF assms(1), of e] same_refl [OF assms(1), of e]
    by (cases "find s e") auto
  moreover have "find s' k = find s k" if "\<not> same s e k" for k
  proof -
    have "find s' k = Some x \<longleftrightarrow> find s k = Some x" for x
      unfolding find_iff [OF s'(2)] find_iff [OF assms(1)] s'(3,4) using that by auto
    then show ?thesis by (metis not_None_eq)
  qed
  ultimately show ?thesis using s' by blast
qed

text \<open>After a deletion the key is not found; other keys are found as before.\<close>

lemma find_after_del:
  assumes "ok s"
  shows "\<exists>s'. del s e = Some (s', find s e) \<and> ok s' \<and> find s' e = None \<and> (\<forall>k. \<not> same s e k \<longrightarrow> find s' k = find s k)"
proof -
  obtain s' where s': "del s e = Some (s', find s e)" "ok s'" "same s' = same s"
      "elems s' = (case find s e of None \<Rightarrow> elems s | Some x \<Rightarrow> elems s - {x})"
    using del_law [OF assms] by blast
  have iff: "find s' k = Some x \<longleftrightarrow> find s k = Some x \<and> find s e \<noteq> Some x" for k x
    unfolding find_iff [OF s'(2)] find_iff [OF assms(1), of k] s'(3,4) by (cases "find s e") auto
  have "find s' e = None" using iff [of e] by (metis not_None_eq)
  moreover have "find s' k = find s k" if "\<not> same s e k" for k
  proof -
    have "find s k = Some x \<Longrightarrow> find s e \<noteq> Some x" for x
      using that find_Some [OF assms, of k x] find_Some [OF assms, of e x] same_sym [OF assms] same_trans [OF assms] by blast
    then show ?thesis using iff [of k] by (metis not_None_eq)
  qed
  ultimately show ?thesis using s' by blast
qed

end

section \<open>Sector stores\<close>

text \<open>Writing the same contents to \<open>n\<close> sectors in order.\<close>

primrec fill_sectors :: "('s \<Rightarrow> nat \<Rightarrow> u8 list \<Rightarrow> 's option) \<Rightarrow> 's \<Rightarrow> nat \<Rightarrow> nat \<Rightarrow> u8 list \<Rightarrow> 's option" where
  "fill_sectors wr s i 0 d = Some s"
| "fill_sectors wr s i (Suc n) d = do { s \<leftarrow> wr s i d; fill_sectors wr s (Suc i) n d }"

locale sector_store =
  fixes ok :: "'s \<Rightarrow> bool"
    and cap :: "'s \<Rightarrow> nat"
    and sec :: "'s \<Rightarrow> nat \<Rightarrow> u8 list"
    and rd :: "'s \<Rightarrow> nat \<Rightarrow> ('s \<times> u8 list) option"
    and wr :: "'s \<Rightarrow> nat \<Rightarrow> u8 list \<Rightarrow> 's option"
  assumes sec_len: "ok s \<Longrightarrow> length (sec s i) = 512"
    and rd_law: "ok s \<Longrightarrow> i < cap s \<Longrightarrow> \<exists>s'. rd s i = Some (s', sec s i) \<and> ok s' \<and> cap s' = cap s \<and> sec s' = sec s"
    and wr_law: "ok s \<Longrightarrow> i < cap s \<Longrightarrow> length d = 512 \<Longrightarrow>
      \<exists>s'. wr s i d = Some s' \<and> ok s' \<and> cap s' = cap s \<and> sec s' = (sec s)(i := d)"
begin

lemma read_after_write:
  assumes "ok s" "i < cap s" "j < cap s" "length d = 512"
  shows "\<exists>s1 s2. wr s i d = Some s1 \<and> rd s1 j = Some (s2, if j = i then d else sec s j) \<and> ok s2"
proof -
  obtain s1 where s1: "wr s i d = Some s1" "ok s1" "cap s1 = cap s" "sec s1 = (sec s)(i := d)"
    using wr_law [OF assms(1,2,4)] by blast
  then show ?thesis using rd_law [OF s1(2), of j] assms(3) by auto
qed

lemma fill_law:
  assumes "ok s" "i + n \<le> cap s" "length d = 512"
  shows "\<exists>s'. fill_sectors wr s i n d = Some s' \<and> ok s' \<and> cap s' = cap s
    \<and> sec s' = (\<lambda>j. if i \<le> j \<and> j < i + n then d else sec s j)"
  using assms
proof (induction n arbitrary: s i)
  case (Suc n)
  obtain s1 where s1: "wr s i d = Some s1" "ok s1" "cap s1 = cap s" "sec s1 = (sec s)(i := d)"
    using wr_law [OF Suc.prems(1) _ Suc.prems(3), of i] Suc.prems(2) by auto
  obtain s' where s': "fill_sectors wr s1 (Suc i) n d = Some s'" "ok s'" "cap s' = cap s"
      "sec s' = (\<lambda>j. if Suc i \<le> j \<and> j < Suc i + n then d else sec s1 j)"
    using Suc.IH [OF s1(2) _ Suc.prems(3), of "Suc i"] Suc.prems(2) s1(3) by auto
  then show ?case using s1 by (auto simp: fun_eq_iff)
qed (auto simp: fun_eq_iff)

end

end
