(* ===== verification/KList.thy ===== *)
theory KList
  imports Interfaces "HOL-Library.Multiset"
begin

text \<open>
  The kernel's doubly linked lists (\<^verbatim>\<open>lib/kernel/list.c\<close>, \<^verbatim>\<open>list.h\<close>), modelled at the
  level of the pointers they manipulate. A heap maps the address of every
  \<^verbatim>\<open>struct list_elem\<close> to its two links; a \<^verbatim>\<open>struct list\<close> is the pair of addresses of its
  embedded head and tail elements (the head is the first member, so the address of the list is
  the address of its head). Comparison functions read the structure a list element is
  embedded in, never the links, so \<^verbatim>\<open>less (a, b, aux)\<close> is a predicate on addresses.

  The abstraction \<open>dll h l xs\<close> says that the heap holds list \<open>l\<close> with the interior elements
  \<open>xs\<close>; every operation is shown to implement the corresponding operation on \<open>xs\<close>.
\<close>

section \<open>Data\<close>

record list_elem =
  e_prev :: ptr
  e_next :: ptr

record klist =
  l_head :: ptr
  l_tail :: ptr

type_synonym lheap = "ptr \<Rightarrow> list_elem"
type_synonym less_func = "ptr \<Rightarrow> ptr \<Rightarrow> bool"

definition set_prev :: "lheap \<Rightarrow> ptr \<Rightarrow> ptr \<Rightarrow> lheap" where
  "set_prev h p v = h(p := (h p)\<lparr>e_prev := v\<rparr>)"

definition set_next :: "lheap \<Rightarrow> ptr \<Rightarrow> ptr \<Rightarrow> lheap" where
  "set_next h p v = h(p := (h p)\<lparr>e_next := v\<rparr>)"

section \<open>Operations\<close>

definition is_head :: "lheap \<Rightarrow> ptr \<Rightarrow> bool" where
  "is_head h elem \<longleftrightarrow> elem \<noteq> NULL \<and> e_prev (h elem) = NULL \<and> e_next (h elem) \<noteq> NULL"

definition is_interior :: "lheap \<Rightarrow> ptr \<Rightarrow> bool" where
  "is_interior h elem \<longleftrightarrow> elem \<noteq> NULL \<and> e_prev (h elem) \<noteq> NULL \<and> e_next (h elem) \<noteq> NULL"

definition is_tail :: "lheap \<Rightarrow> ptr \<Rightarrow> bool" where
  "is_tail h elem \<longleftrightarrow> elem \<noteq> NULL \<and> e_prev (h elem) \<noteq> NULL \<and> e_next (h elem) = NULL"

definition list_init :: "lheap \<Rightarrow> klist \<Rightarrow> lheap option" where
  "list_init h l = do {
     ASSERT (l_head l \<noteq> NULL);
     let h = set_prev h (l_head l) NULL;
     let h = set_next h (l_head l) (l_tail l);
     let h = set_prev h (l_tail l) (l_head l);
     let h = set_next h (l_tail l) NULL;
     Some h
   }"

definition list_begin :: "lheap \<Rightarrow> klist \<Rightarrow> ptr option" where
  "list_begin h l = do {
     ASSERT (l_head l \<noteq> NULL);
     Some (e_next (h (l_head l)))
   }"

definition list_next :: "lheap \<Rightarrow> ptr \<Rightarrow> ptr option" where
  "list_next h elem = do {
     ASSERT (is_head h elem \<or> is_interior h elem);
     Some (e_next (h elem))
   }"

definition list_end :: "klist \<Rightarrow> ptr option" where
  "list_end l = do {
     ASSERT (l_head l \<noteq> NULL);
     Some (l_tail l)
   }"

definition list_rbegin :: "lheap \<Rightarrow> klist \<Rightarrow> ptr option" where
  "list_rbegin h l = do {
     ASSERT (l_head l \<noteq> NULL);
     Some (e_prev (h (l_tail l)))
   }"

definition list_prev :: "lheap \<Rightarrow> ptr \<Rightarrow> ptr option" where
  "list_prev h elem = do {
     ASSERT (is_interior h elem \<or> is_tail h elem);
     Some (e_prev (h elem))
   }"

definition list_rend :: "klist \<Rightarrow> ptr option" where
  "list_rend l = do {
     ASSERT (l_head l \<noteq> NULL);
     Some (l_head l)
   }"

definition list_head :: "klist \<Rightarrow> ptr option" where
  "list_head l = do {
     ASSERT (l_head l \<noteq> NULL);
     Some (l_head l)
   }"

definition list_tail :: "klist \<Rightarrow> ptr option" where
  "list_tail l = do {
     ASSERT (l_head l \<noteq> NULL);
     Some (l_tail l)
   }"

definition list_insert :: "lheap \<Rightarrow> ptr \<Rightarrow> ptr \<Rightarrow> lheap option" where
  "list_insert h before elem = do {
     ASSERT (is_interior h before \<or> is_tail h before);
     ASSERT (elem \<noteq> NULL);
     let h = set_prev h elem (e_prev (h before));
     let h = set_next h elem before;
     let h = set_next h (e_prev (h before)) elem;
     let h = set_prev h before elem;
     Some h
   }"

definition list_splice :: "lheap \<Rightarrow> ptr \<Rightarrow> ptr \<Rightarrow> ptr \<Rightarrow> lheap option" where
  "list_splice h before first last0 = do {
     ASSERT (is_interior h before \<or> is_tail h before);
     if first = last0 then Some h
     else do {
       lst \<leftarrow> list_prev h last0;
       ASSERT (is_interior h first);
       ASSERT (is_interior h lst);
       let h = set_next h (e_prev (h first)) (e_next (h lst));
       let h = set_prev h (e_next (h lst)) (e_prev (h first));
       let h = set_prev h first (e_prev (h before));
       let h = set_next h lst before;
       let h = set_next h (e_prev (h before)) first;
       let h = set_prev h before lst;
       Some h
     }
   }"

definition list_push_front :: "lheap \<Rightarrow> klist \<Rightarrow> ptr \<Rightarrow> lheap option" where
  "list_push_front h l elem = do {
     b \<leftarrow> list_begin h l;
     list_insert h b elem
   }"

definition list_push_back :: "lheap \<Rightarrow> klist \<Rightarrow> ptr \<Rightarrow> lheap option" where
  "list_push_back h l elem = do {
     e \<leftarrow> list_end l;
     list_insert h e elem
   }"

definition list_remove :: "lheap \<Rightarrow> ptr \<Rightarrow> (lheap \<times> ptr) option" where
  "list_remove h elem = do {
     ASSERT (is_interior h elem);
     let h = set_next h (e_prev (h elem)) (e_next (h elem));
     let h = set_prev h (e_next (h elem)) (e_prev (h elem));
     Some (h, e_next (h elem))
   }"

definition list_empty :: "lheap \<Rightarrow> klist \<Rightarrow> bool option" where
  "list_empty h l = do {
     b \<leftarrow> list_begin h l;
     e \<leftarrow> list_end l;
     Some (b = e)
   }"

definition list_front :: "lheap \<Rightarrow> klist \<Rightarrow> ptr option" where
  "list_front h l = do {
     em \<leftarrow> list_empty h l;
     ASSERT (\<not> em);
     Some (e_next (h (l_head l)))
   }"

definition list_back :: "lheap \<Rightarrow> klist \<Rightarrow> ptr option" where
  "list_back h l = do {
     em \<leftarrow> list_empty h l;
     ASSERT (\<not> em);
     Some (e_prev (h (l_tail l)))
   }"

definition list_pop_front :: "lheap \<Rightarrow> klist \<Rightarrow> (lheap \<times> ptr) option" where
  "list_pop_front h l = do {
     front \<leftarrow> list_front h l;
     (h, _) \<leftarrow> list_remove h front;
     Some (h, front)
   }"

definition list_pop_back :: "lheap \<Rightarrow> klist \<Rightarrow> (lheap \<times> ptr) option" where
  "list_pop_back h l = do {
     back \<leftarrow> list_back h l;
     (h, _) \<leftarrow> list_remove h back;
     Some (h, back)
   }"

partial_function (option) list_size_loop :: "lheap \<Rightarrow> klist \<Rightarrow> ptr \<Rightarrow> nat \<Rightarrow> nat option" where
  "list_size_loop h l e cnt = do {
     end' \<leftarrow> list_end l;
     if e \<noteq> end' then do {
       e' \<leftarrow> list_next h e;
       list_size_loop h l e' (Suc cnt)
     } else Some cnt
   }"

definition list_size :: "lheap \<Rightarrow> klist \<Rightarrow> nat option" where
  "list_size h l = do {
     b \<leftarrow> list_begin h l;
     list_size_loop h l b 0
   }"

definition swap_links :: "lheap \<Rightarrow> ptr \<Rightarrow> lheap" where
  "swap_links h e = h(e := \<lparr>e_prev = e_next (h e), e_next = e_prev (h e)\<rparr>)"

partial_function (option) list_reverse_loop :: "lheap \<Rightarrow> klist \<Rightarrow> ptr \<Rightarrow> lheap option" where
  "list_reverse_loop h l e = do {
     end' \<leftarrow> list_end l;
     if e \<noteq> end' then do {
       let h = swap_links h e;
       list_reverse_loop h l (e_prev (h e))
     } else Some h
   }"

text \<open>
  The two closing \<^verbatim>\<open>swap\<close> calls of \<^verbatim>\<open>list_reverse\<close> exchange \<^verbatim>\<open>head.next\<close> with
  \<^verbatim>\<open>tail.prev\<close>, and then the \<^verbatim>\<open>prev\<close> link of the new first element with the
  \<^verbatim>\<open>next\<close> link of the new last element.
\<close>

definition list_reverse :: "lheap \<Rightarrow> klist \<Rightarrow> lheap option" where
  "list_reverse h l = do {
     em \<leftarrow> list_empty h l;
     if \<not> em then do {
       b \<leftarrow> list_begin h l;
       h \<leftarrow> list_reverse_loop h l b;
       let t = e_next (h (l_head l));
       let h = set_next h (l_head l) (e_prev (h (l_tail l)));
       let h = set_prev h (l_tail l) t;
       let a = e_next (h (l_head l));
       let z = e_prev (h (l_tail l));
       let t = e_prev (h a);
       let h = set_prev h a (e_next (h z));
       let h = set_next h z t;
       Some h
     } else Some h
   }"

partial_function (option) is_sorted_loop :: "lheap \<Rightarrow> ptr \<Rightarrow> ptr \<Rightarrow> less_func \<Rightarrow> bool option" where
  "is_sorted_loop h a b lt = do {
     a \<leftarrow> list_next h a;
     if a \<noteq> b then do {
       p \<leftarrow> list_prev h a;
       if lt a p then Some False else is_sorted_loop h a b lt
     } else Some True
   }"

definition is_sorted :: "lheap \<Rightarrow> ptr \<Rightarrow> ptr \<Rightarrow> less_func \<Rightarrow> bool option" where
  "is_sorted h a b lt = (if a \<noteq> b then is_sorted_loop h a b lt else Some True)"

partial_function (option) find_end_of_run_loop ::
    "lheap \<Rightarrow> ptr \<Rightarrow> ptr \<Rightarrow> less_func \<Rightarrow> ptr option" where
  "find_end_of_run_loop h a b lt = do {
     a \<leftarrow> list_next h a;
     if a \<noteq> b then do {
       p \<leftarrow> list_prev h a;
       if \<not> lt a p then find_end_of_run_loop h a b lt else Some a
     } else Some a
   }"

definition find_end_of_run :: "lheap \<Rightarrow> ptr \<Rightarrow> ptr \<Rightarrow> less_func \<Rightarrow> ptr option" where
  "find_end_of_run h a b lt = do {
     ASSERT (a \<noteq> NULL);
     ASSERT (b \<noteq> NULL);
     ASSERT (a \<noteq> b);
     find_end_of_run_loop h a b lt
   }"

partial_function (option) inplace_merge_loop ::
    "lheap \<Rightarrow> ptr \<Rightarrow> ptr \<Rightarrow> ptr \<Rightarrow> less_func \<Rightarrow> lheap option" where
  "inplace_merge_loop h a0 a1b0 b1 lt =
     (if a0 \<noteq> a1b0 \<and> a1b0 \<noteq> b1 then
        if \<not> lt a1b0 a0 then do {
          a0 \<leftarrow> list_next h a0;
          inplace_merge_loop h a0 a1b0 b1 lt
        } else do {
          a1b0 \<leftarrow> list_next h a1b0;
          p \<leftarrow> list_prev h a1b0;
          h \<leftarrow> list_splice h a0 p a1b0;
          inplace_merge_loop h a0 a1b0 b1 lt
        }
      else Some h)"

definition inplace_merge :: "lheap \<Rightarrow> ptr \<Rightarrow> ptr \<Rightarrow> ptr \<Rightarrow> less_func \<Rightarrow> lheap option" where
  "inplace_merge h a0 a1b0 b1 lt = do {
     ASSERT (a0 \<noteq> NULL);
     ASSERT (a1b0 \<noteq> NULL);
     ASSERT (b1 \<noteq> NULL);
     s1 \<leftarrow> is_sorted h a0 a1b0 lt;
     ASSERT s1;
     s2 \<leftarrow> is_sorted h a1b0 b1 lt;
     ASSERT s2;
     inplace_merge_loop h a0 a1b0 b1 lt
   }"

text \<open>One pass of the outer loop of \<^verbatim>\<open>list_sort\<close>: the inner \<^verbatim>\<open>for\<close> over pairs of runs.\<close>

partial_function (option) list_sort_pass ::
    "lheap \<Rightarrow> klist \<Rightarrow> ptr \<Rightarrow> nat \<Rightarrow> less_func \<Rightarrow> (lheap \<times> nat) option" where
  "list_sort_pass h l a0 output_run_cnt lt = do {
     end' \<leftarrow> list_end l;
     if a0 \<noteq> end' then do {
       let output_run_cnt = Suc output_run_cnt;
       a1b0 \<leftarrow> find_end_of_run h a0 end' lt;
       if a1b0 = end' then Some (h, output_run_cnt)
       else do {
         b1 \<leftarrow> find_end_of_run h a1b0 end' lt;
         h \<leftarrow> inplace_merge h a0 a1b0 b1 lt;
         list_sort_pass h l b1 output_run_cnt lt
       }
     } else Some (h, output_run_cnt)
   }"

partial_function (option) list_sort_loop :: "lheap \<Rightarrow> klist \<Rightarrow> less_func \<Rightarrow> lheap option" where
  "list_sort_loop h l lt = do {
     b \<leftarrow> list_begin h l;
     (h, output_run_cnt) \<leftarrow> list_sort_pass h l b 0 lt;
     if output_run_cnt > 1 then list_sort_loop h l lt else Some h
   }"

definition list_sort :: "lheap \<Rightarrow> klist \<Rightarrow> less_func \<Rightarrow> lheap option" where
  "list_sort h l lt = do {
     ASSERT (l_head l \<noteq> NULL);
     h \<leftarrow> list_sort_loop h l lt;
     b \<leftarrow> list_begin h l;
     e \<leftarrow> list_end l;
     s \<leftarrow> is_sorted h b e lt;
     ASSERT s;
     Some h
   }"

partial_function (option) insert_ordered_pos ::
    "lheap \<Rightarrow> klist \<Rightarrow> ptr \<Rightarrow> ptr \<Rightarrow> less_func \<Rightarrow> ptr option" where
  "insert_ordered_pos h l e elem lt = do {
     end' \<leftarrow> list_end l;
     if e \<noteq> end' then
       if lt elem e then Some e
       else do {
         e \<leftarrow> list_next h e;
         insert_ordered_pos h l e elem lt
       }
     else Some e
   }"

definition list_insert_ordered :: "lheap \<Rightarrow> klist \<Rightarrow> ptr \<Rightarrow> less_func \<Rightarrow> lheap option" where
  "list_insert_ordered h l elem lt = do {
     ASSERT (l_head l \<noteq> NULL);
     ASSERT (elem \<noteq> NULL);
     b \<leftarrow> list_begin h l;
     e \<leftarrow> insert_ordered_pos h l b elem lt;
     list_insert h e elem
   }"

partial_function (option) list_unique_loop ::
    "lheap \<Rightarrow> klist \<Rightarrow> klist option \<Rightarrow> ptr \<Rightarrow> less_func \<Rightarrow> lheap option" where
  "list_unique_loop h l duplicates elem lt = do {
     nxt \<leftarrow> list_next h elem;
     end' \<leftarrow> list_end l;
     if nxt \<noteq> end' then
       if \<not> lt elem nxt \<and> \<not> lt nxt elem then do {
         (h, _) \<leftarrow> list_remove h nxt;
         h \<leftarrow> (case duplicates of None \<Rightarrow> Some h | Some d \<Rightarrow> list_push_back h d nxt);
         list_unique_loop h l duplicates elem lt
       } else list_unique_loop h l duplicates nxt lt
     else Some h
   }"

definition list_unique :: "lheap \<Rightarrow> klist \<Rightarrow> klist option \<Rightarrow> less_func \<Rightarrow> lheap option" where
  "list_unique h l duplicates lt = do {
     ASSERT (l_head l \<noteq> NULL);
     em \<leftarrow> list_empty h l;
     if em then Some h
     else do {
       elem \<leftarrow> list_begin h l;
       list_unique_loop h l duplicates elem lt
     }
   }"

partial_function (option) list_max_loop ::
    "lheap \<Rightarrow> klist \<Rightarrow> ptr \<Rightarrow> ptr \<Rightarrow> less_func \<Rightarrow> ptr option" where
  "list_max_loop h l mx e lt = do {
     end' \<leftarrow> list_end l;
     if e \<noteq> end' then do {
       e' \<leftarrow> list_next h e;
       list_max_loop h l (if lt mx e then e else mx) e' lt
     } else Some mx
   }"

definition list_max :: "lheap \<Rightarrow> klist \<Rightarrow> less_func \<Rightarrow> ptr option" where
  "list_max h l lt = do {
     mx \<leftarrow> list_begin h l;
     end' \<leftarrow> list_end l;
     if mx \<noteq> end' then do {
       e \<leftarrow> list_next h mx;
       list_max_loop h l mx e lt
     } else Some mx
   }"

partial_function (option) list_min_loop ::
    "lheap \<Rightarrow> klist \<Rightarrow> ptr \<Rightarrow> ptr \<Rightarrow> less_func \<Rightarrow> ptr option" where
  "list_min_loop h l mn e lt = do {
     end' \<leftarrow> list_end l;
     if e \<noteq> end' then do {
       e' \<leftarrow> list_next h e;
       list_min_loop h l (if lt e mn then e else mn) e' lt
     } else Some mn
   }"

definition list_min :: "lheap \<Rightarrow> klist \<Rightarrow> less_func \<Rightarrow> ptr option" where
  "list_min h l lt = do {
     mn \<leftarrow> list_begin h l;
     end' \<leftarrow> list_end l;
     if mn \<noteq> end' then do {
       e \<leftarrow> list_next h mn;
       list_min_loop h l mn e lt
     } else Some mn
   }"

section \<open>The list abstraction\<close>

text \<open>
  \<open>row h ns\<close>: the nodes \<open>ns\<close>, headers included, are linked both ways in this order, are
  pairwise different and not null, and the outer links are null.
\<close>

definition links :: "lheap \<Rightarrow> ptr \<Rightarrow> ptr \<Rightarrow> bool" where
  "links h a b \<longleftrightarrow> e_next (h a) = b \<and> e_prev (h b) = a"

definition row :: "lheap \<Rightarrow> ptr list \<Rightarrow> bool" where
  "row h ns \<longleftrightarrow> successively (links h) ns \<and> distinct ns \<and> NULL \<notin> set ns
     \<and> e_prev (h (hd ns)) = NULL \<and> e_next (h (last ns)) = NULL"

definition dll :: "lheap \<Rightarrow> klist \<Rightarrow> ptr list \<Rightarrow> bool" where
  "dll h l xs \<longleftrightarrow> row h (l_head l # xs @ [l_tail l])"

lemma e_next_set_next [simp]: "e_next (set_next h p v q) = (if q = p then v else e_next (h q))"
  by (simp add: set_next_def)

lemma e_prev_set_next [simp]: "e_prev (set_next h p v q) = e_prev (h q)"
  by (simp add: set_next_def)

lemma e_prev_set_prev [simp]: "e_prev (set_prev h p v q) = (if q = p then v else e_prev (h q))"
  by (simp add: set_prev_def)

lemma e_next_set_prev [simp]: "e_next (set_prev h p v q) = e_next (h q)"
  by (simp add: set_prev_def)

lemma set_next_other: "q \<noteq> p \<Longrightarrow> set_next h p v q = h q"
  by (simp add: set_next_def)

lemma set_prev_other: "q \<noteq> p \<Longrightarrow> set_prev h p v q = h q"
  by (simp add: set_prev_def)

lemmas set_links_other = set_next_other set_prev_other

text \<open>A chain depends on the next links of all but its last node and the previous links of all
  but its first.\<close>

lemma chain_cong:
  assumes "successively (links h) ns"
    and "\<And>x. x \<in> set (butlast ns) \<Longrightarrow> e_next (h' x) = e_next (h x)"
    and "\<And>x. x \<in> set (tl ns) \<Longrightarrow> e_prev (h' x) = e_prev (h x)"
  shows "successively (links h') ns"
  using assms
proof (induction ns rule: induct_list012)
  case (3 x y zs)
  have "successively (links h') (y # zs)"
    using "3.prems" by (intro "3.IH"(2)) auto
  moreover have "links h' x y"
    using "3.prems" by (auto simp: links_def)
  ultimately show ?case by simp
qed simp_all

lemma row_append:
  assumes "U \<noteq> []" "V \<noteq> []"
  shows "row h (U @ V) \<longleftrightarrow> successively (links h) U \<and> successively (links h) V
    \<and> e_next (h (last U)) = hd V \<and> e_prev (h (hd V)) = last U
    \<and> distinct U \<and> distinct V \<and> set U \<inter> set V = {} \<and> NULL \<notin> set U \<and> NULL \<notin> set V
    \<and> e_prev (h (hd U)) = NULL \<and> e_next (h (last V)) = NULL"
  using assms by (auto simp: row_def successively_append_iff links_def)

lemma row_nonnull: "row h ns \<Longrightarrow> x \<in> set ns \<Longrightarrow> x \<noteq> NULL"
  unfolding row_def by metis

lemma row_frame:
  assumes "row h ns" "ns \<noteq> []" and "\<And>x. x \<in> set ns \<Longrightarrow> h' x = h x"
  shows "row h' ns"
proof -
  have m: "hd ns \<in> set ns" "last ns \<in> set ns" using assms(2) by simp_all
  have "successively (links h') ns"
  proof (rule chain_cong [of h])
    show "successively (links h) ns" using assms(1) by (simp add: row_def)
    show "e_next (h' x) = e_next (h x)" if "x \<in> set (butlast ns)" for x
      using assms(3) [OF in_set_butlastD [OF that]] by simp
    show "e_prev (h' x) = e_prev (h x)" if "x \<in> set (tl ns)" for x
      using assms(3) [OF list.set_sel(2) [OF assms(2) that]] by simp
  qed
  then show ?thesis using assms m by (simp add: row_def)
qed

lemma not_last_butlast: "distinct U \<Longrightarrow> x \<in> set (butlast U) \<Longrightarrow> x \<noteq> last U"
  by (metis append_butlast_last_id butlast.simps(1) distinct_append disjoint_iff empty_iff
      empty_set list.set_intros(1))

lemma not_hd_tl: "distinct V \<Longrightarrow> x \<in> set (tl V) \<Longrightarrow> x \<noteq> hd V"
  by (cases V) auto

lemma row_before:
  assumes "row h (U @ V)" "U \<noteq> []" "V \<noteq> []"
  shows "is_interior h (hd V) \<or> is_tail h (hd V)"
proof -
  have "last U \<in> set U" "hd V \<in> set V" using assms(2,3) by simp_all
  then have "last U \<noteq> NULL" "hd V \<noteq> NULL"
    using row_nonnull [OF assms(1)] by simp_all
  then show ?thesis using assms by (auto simp: row_append is_interior_def is_tail_def)
qed

lemma row_after:
  assumes "row h (U @ V)" "U \<noteq> []" "V \<noteq> []"
  shows "is_head h (last U) \<or> is_interior h (last U)"
proof -
  have "last U \<in> set U" "hd V \<in> set V" using assms(2,3) by simp_all
  then have "last U \<noteq> NULL" "hd V \<noteq> NULL"
    using row_nonnull [OF assms(1)] by simp_all
  then show ?thesis using assms by (auto simp: row_append is_interior_def is_head_def)
qed

lemma row_interior:
  assumes "row h (U @ e # V)" "U \<noteq> []" "V \<noteq> []"
  shows "is_interior h e" "e_prev (h e) = last U" "e_next (h e) = hd V"
proof -
  have 1: "row h (U @ (e # V))" "row h ((U @ [e]) @ V)" using assms by simp_all
  show p: "e_prev (h e) = last U" using 1(1) assms by (simp add: row_append)
  show n: "e_next (h e) = hd V" using row_append [of "U @ [e]" V h] 1(2) assms(3) by simp
  have "last U \<in> set U" "hd V \<in> set V" using assms(2,3) by simp_all
  then have "last U \<noteq> NULL" "hd V \<noteq> NULL" "e \<noteq> NULL"
    using row_nonnull [OF assms(1)] by simp_all
  then show "is_interior h e" by (simp add: is_interior_def p n)
qed

section \<open>Insertion and removal\<close>

lemma list_insert_row:
  assumes row: "row h (U @ V)" and ne: "U \<noteq> []" "V \<noteq> []"
    and e: "e \<notin> set (U @ V)" "e \<noteq> NULL"
  shows "\<exists>h'. list_insert h (hd V) e = Some h' \<and> row h' (U @ e # V)
    \<and> (\<forall>p. p \<noteq> last U \<and> p \<noteq> hd V \<and> p \<noteq> e \<longrightarrow> h' p = h p)"
proof -
  let ?h' = "set_prev (set_next (set_next (set_prev h e (e_prev (h (hd V)))) e (hd V))
      (e_prev (h (hd V))) e) (hd V) e"
  have mem: "last U \<in> set U" "hd V \<in> set V" "hd U \<in> set U" "last V \<in> set V" using ne by simp_all
  have r: "successively (links h) U" "successively (links h) V"
      "e_next (h (last U)) = hd V" "e_prev (h (hd V)) = last U"
      "distinct U" "distinct V" "set U \<inter> set V = {}" "NULL \<notin> set U" "NULL \<notin> set V"
      "e_prev (h (hd U)) = NULL" "e_next (h (last V)) = NULL"
    using row ne by (simp_all add: row_append)
  have d: "hd V \<noteq> e" "last U \<noteq> e" "last U \<noteq> hd V" "hd U \<noteq> e" "last V \<noteq> e" "hd U \<noteq> hd V" "last V \<noteq> last U"
    using mem e r(7) by auto
  have "list_insert h (hd V) e = Some ?h'"
    using row_before [OF row ne] d e by (auto simp: list_insert_def Let_def)
  moreover have "row ?h' (U @ e # V)"
  proof -
    have "successively (links ?h') U"
      using r(1)
    proof (rule chain_cong)
      fix x assume x: "x \<in> set (butlast U)"
      then have "x \<in> set U" by (rule in_set_butlastD)
      then have "x \<noteq> e" using e by auto
      then show "e_next (?h' x) = e_next (h x)"
        using not_last_butlast [OF r(5) x] r(4) d by simp
    next
      fix x assume "x \<in> set (tl U)"
      then have "x \<in> set U" using ne(1) by (cases U) auto
      then show "e_prev (?h' x) = e_prev (h x)" using e mem r(7) by auto
    qed
    moreover have "successively (links ?h') (e # V)"
    proof -
      have "successively (links ?h') V"
        using r(2)
      proof (rule chain_cong)
        fix x assume "x \<in> set (butlast V)"
        then have "x \<in> set V" by (rule in_set_butlastD)
        then show "e_next (?h' x) = e_next (h x)" using e mem r(4,7) d by auto
      next
        fix x assume x: "x \<in> set (tl V)"
        then have "x \<in> set V" using ne(2) by (cases V) auto
        then show "e_prev (?h' x) = e_prev (h x)"
          using not_hd_tl [OF r(6) x] e by auto
      qed
      moreover have "links ?h' e (hd V)"
        unfolding links_def using d r(4) by simp
      ultimately show ?thesis by (simp only: successively_Cons) simp
    qed
    ultimately show ?thesis
      using r e ne mem d by (subst row_append) auto
  qed
  moreover have "\<forall>p. p \<noteq> last U \<and> p \<noteq> hd V \<and> p \<noteq> e \<longrightarrow> ?h' p = h p"
    using r(4) by (simp add: set_links_other)
  ultimately show ?thesis by blast
qed

lemma list_remove_row:
  assumes row: "row h (U @ e # V)" and ne: "U \<noteq> []" "V \<noteq> []"
  shows "\<exists>h'. list_remove h e = Some (h', hd V) \<and> row h' (U @ V)
    \<and> (\<forall>p. p \<noteq> last U \<and> p \<noteq> hd V \<longrightarrow> h' p = h p)"
proof -
  let ?h' = "set_prev (set_next h (last U) (hd V)) (hd V) (last U)"
  note i = row_interior [OF row ne]
  have mem: "last U \<in> set U" "hd V \<in> set V" "hd U \<in> set U" "last V \<in> set V" using ne by simp_all
  have d0: "distinct (U @ e # V)" "NULL \<notin> set (U @ e # V)" using row by (simp_all add: row_def)
  then have d: "last U \<noteq> e" "hd V \<noteq> e" "last U \<noteq> hd V" "hd U \<noteq> hd V" "last V \<noteq> last U"
    using mem by auto
  have s: "successively (links h) U" "successively (links h) V"
    using row ne by (auto simp: row_def successively_append_iff successively_Cons)
  have o: "e_prev (h (hd U)) = NULL" "e_next (h (last V)) = NULL"
    using row ne by (auto simp: row_def)
  have "list_remove h e = Some (?h', hd V)"
    using i d by (simp add: list_remove_def Let_def)
  moreover have "row ?h' (U @ V)"
  proof -
    have "successively (links ?h') U"
      using s(1)
    proof (rule chain_cong)
      fix x assume x: "x \<in> set (butlast U)"
      have "distinct U" using d0 by simp
      from not_last_butlast [OF this x] show "e_next (?h' x) = e_next (h x)" by simp
    next
      fix x assume "x \<in> set (tl U)"
      then have "x \<in> set U" using ne(1) by (cases U) auto
      then show "e_prev (?h' x) = e_prev (h x)" using d0 mem by auto
    qed
    moreover have "successively (links ?h') V"
      using s(2)
    proof (rule chain_cong)
      fix x assume "x \<in> set (butlast V)"
      then have "x \<in> set V" by (rule in_set_butlastD)
      then show "e_next (?h' x) = e_next (h x)" using d0 mem by auto
    next
      fix x assume x: "x \<in> set (tl V)"
      have "distinct V" using d0 by simp
      from not_hd_tl [OF this x] show "e_prev (?h' x) = e_prev (h x)" by simp
    qed
    ultimately show ?thesis
      using d0 ne mem d o by (subst row_append) auto
  qed
  moreover have "\<forall>p. p \<noteq> last U \<and> p \<noteq> hd V \<longrightarrow> ?h' p = h p"
    by (simp add: set_links_other)
  ultimately show ?thesis by blast
qed

section \<open>Operations on the abstraction\<close>

abbreviation nodes :: "klist \<Rightarrow> ptr list \<Rightarrow> ptr set" where
  "nodes l xs \<equiv> set (l_head l # xs @ [l_tail l])"

lemma dll_split: "dll h l (xs @ ys) \<longleftrightarrow> row h ((l_head l # xs) @ (ys @ [l_tail l]))"
  by (simp add: dll_def)

lemma dll_head_nonnull [simp]: "dll h l xs \<Longrightarrow> 0 < l_head l"
  using row_nonnull unfolding dll_def by fastforce

lemma dll_nonnull: "dll h l xs \<Longrightarrow> x \<in> nodes l xs \<Longrightarrow> x \<noteq> NULL"
  unfolding dll_def by (rule row_nonnull)

lemma dll_distinct: "dll h l xs \<Longrightarrow> distinct (l_head l # xs @ [l_tail l])"
  by (simp add: dll_def row_def)

lemma dll_frame:
  "dll h l xs \<Longrightarrow> (\<And>p. p \<in> nodes l xs \<Longrightarrow> h' p = h p) \<Longrightarrow> dll h' l xs"
  unfolding dll_def by (rule row_frame) simp_all

lemma list_next_row: "row h (U @ V) \<Longrightarrow> U \<noteq> [] \<Longrightarrow> V \<noteq> [] \<Longrightarrow> list_next h (last U) = Some (hd V)"
  using row_after [of h U V] by (simp add: list_next_def row_append)

lemma list_prev_row: "row h (U @ V) \<Longrightarrow> U \<noteq> [] \<Longrightarrow> V \<noteq> [] \<Longrightarrow> list_prev h (hd V) = Some (last U)"
  using row_before [of h U V] by (simp add: list_prev_def row_append)

lemma list_begin_dll: "dll h l xs \<Longrightarrow> list_begin h l = Some (hd (xs @ [l_tail l]))"
  using row_append [of "[l_head l]" "xs @ [l_tail l]" h]
  by (simp add: list_begin_def dll_def [of h l xs])

lemma list_end_dll [simp]: "dll h l xs \<Longrightarrow> list_end l = Some (l_tail l)"
  by (simp add: list_end_def)

lemma list_next_dll: "dll h l (xs @ e # ys) \<Longrightarrow> list_next h e = Some (hd (ys @ [l_tail l]))"
  using list_next_row [of h "l_head l # xs @ [e]" "ys @ [l_tail l]"] by (simp add: dll_def)

lemma list_prev_dll: "dll h l (xs @ ys) \<Longrightarrow> list_prev h (hd (ys @ [l_tail l])) = Some (last (l_head l # xs))"
  unfolding dll_split by (rule list_prev_row) simp_all

lemma list_rbegin_dll: "dll h l xs \<Longrightarrow> list_rbegin h l = Some (last (l_head l # xs))"
  using row_append [of "l_head l # xs" "[l_tail l]" h]
  by (simp add: list_rbegin_def dll_def [of h l xs])

lemma list_empty_dll: "dll h l xs \<Longrightarrow> list_empty h l = Some (xs = [])"
  by (cases xs) (auto simp: list_empty_def list_begin_dll dest: dll_distinct)

lemma list_front_dll: "dll h l (x # xs) \<Longrightarrow> list_front h l = Some x"
  using list_begin_dll [of h l "x # xs"] by (simp add: list_front_def list_empty_dll list_begin_def)

lemma list_back_dll: "dll h l (xs @ [x]) \<Longrightarrow> list_back h l = Some x"
  using list_rbegin_dll [of h l "xs @ [x]"] by (simp add: list_back_def list_empty_dll list_rbegin_def)

lemma list_init_dll:
  assumes "l_head l \<noteq> NULL" "l_tail l \<noteq> NULL" "l_head l \<noteq> l_tail l"
  shows "\<exists>h'. list_init h l = Some h' \<and> dll h' l []
    \<and> (\<forall>p. p \<notin> nodes l [] \<longrightarrow> h' p = h p)"
  using assms by (auto simp: list_init_def dll_def row_def links_def set_links_other)

lemma list_insert_dll:
  assumes "dll h l (xs @ ys)" "e \<notin> nodes l (xs @ ys)" "e \<noteq> NULL"
  shows "\<exists>h'. list_insert h (hd (ys @ [l_tail l])) e = Some h' \<and> dll h' l (xs @ e # ys)
    \<and> (\<forall>p. p \<notin> insert e (nodes l (xs @ ys)) \<longrightarrow> h' p = h p)"
proof -
  let ?U = "l_head l # xs" and ?V = "ys @ [l_tail l]"
  have r: "row h (?U @ ?V)" using assms(1) by (simp add: dll_split)
  have f: "e \<notin> set (?U @ ?V)" using assms(2) by simp
  have m: "last ?U \<in> nodes l (xs @ ys)" "hd ?V \<in> nodes l (xs @ ys)"
    using last_in_set [of ?U] hd_in_set [of ?V] by auto
  obtain h' where h': "list_insert h (hd ?V) e = Some h'" "row h' (?U @ e # ?V)"
      "\<forall>p. p \<noteq> last ?U \<and> p \<noteq> hd ?V \<and> p \<noteq> e \<longrightarrow> h' p = h p"
    using list_insert_row [OF r _ _ f assms(3)] by auto
  have "\<forall>p. p \<notin> insert e (nodes l (xs @ ys)) \<longrightarrow> h' p = h p"
    using h'(3) m by (metis insert_iff)
  with h'(1,2) show ?thesis by (auto simp: dll_def)
qed

lemma list_push_back_dll:
  assumes "dll h l xs" "e \<notin> nodes l xs" "e \<noteq> NULL"
  shows "\<exists>h'. list_push_back h l e = Some h' \<and> dll h' l (xs @ [e])
    \<and> (\<forall>p. p \<notin> insert e (nodes l xs) \<longrightarrow> h' p = h p)"
  using list_insert_dll [of h l xs "[]" e] assms by (simp add: list_push_back_def)

lemma list_push_front_dll:
  assumes "dll h l xs" "e \<notin> nodes l xs" "e \<noteq> NULL"
  shows "\<exists>h'. list_push_front h l e = Some h' \<and> dll h' l (e # xs)
    \<and> (\<forall>p. p \<notin> insert e (nodes l xs) \<longrightarrow> h' p = h p)"
  using list_insert_dll [of h l "[]" xs e] assms by (simp add: list_push_front_def list_begin_dll)

lemma list_remove_dll:
  assumes "dll h l (xs @ e # ys)"
  shows "\<exists>h'. list_remove h e = Some (h', hd (ys @ [l_tail l])) \<and> dll h' l (xs @ ys)
    \<and> (\<forall>p. p \<notin> nodes l (xs @ ys) \<longrightarrow> h' p = h p)"
proof -
  let ?U = "l_head l # xs" and ?V = "ys @ [l_tail l]"
  have r: "row h (?U @ e # ?V)" using assms by (simp add: dll_def)
  have m: "last ?U \<in> nodes l (xs @ ys)" "hd ?V \<in> nodes l (xs @ ys)"
    using last_in_set [of ?U] hd_in_set [of ?V] by auto
  obtain h' where h': "list_remove h e = Some (h', hd ?V)" "row h' (?U @ ?V)"
      "\<forall>p. p \<noteq> last ?U \<and> p \<noteq> hd ?V \<longrightarrow> h' p = h p"
    using list_remove_row [OF r] by auto
  have "\<forall>p. p \<notin> nodes l (xs @ ys) \<longrightarrow> h' p = h p"
    using h'(3) m by metis
  with h'(1,2) show ?thesis by (auto simp: dll_def)
qed

lemma list_pop_front_dll:
  assumes "dll h l (x # xs)"
  shows "\<exists>h'. list_pop_front h l = Some (h', x) \<and> dll h' l xs
    \<and> (\<forall>p. p \<notin> nodes l xs \<longrightarrow> h' p = h p)"
  using list_remove_dll [of h l "[]" x xs] assms by (auto simp: list_pop_front_def list_front_dll)

lemma list_pop_back_dll:
  assumes "dll h l (xs @ [x])"
  shows "\<exists>h'. list_pop_back h l = Some (h', x) \<and> dll h' l xs
    \<and> (\<forall>p. p \<notin> nodes l xs \<longrightarrow> h' p = h p)"
  using list_remove_dll [of h l xs x "[]"] assms by (auto simp: list_pop_back_def list_back_dll)

text \<open>Popping an empty list is a kernel panic, not a wild access.\<close>

lemma list_pop_front_empty: "dll h l [] \<Longrightarrow> list_pop_front h l = None"
  by (simp add: list_pop_front_def list_front_def list_empty_dll)

lemma list_pop_back_empty: "dll h l [] \<Longrightarrow> list_pop_back h l = None"
  by (simp add: list_pop_back_def list_back_def list_empty_dll)

lemma dll_tail_notin: "dll h l (xs @ e # ys) \<Longrightarrow> e \<noteq> l_tail l"
  by (auto dest: dll_distinct)

lemma list_size_loop_dll:
  "dll h l (xs @ ys) \<Longrightarrow> list_size_loop h l (hd (ys @ [l_tail l])) n = Some (n + length ys)"
proof (induction ys arbitrary: xs n)
  case Nil
  then show ?case by (subst list_size_loop.simps) simp
next
  case (Cons y ys)
  have "list_size_loop h l (hd (ys @ [l_tail l])) (Suc n) = Some (Suc n + length ys)"
    using Cons.IH [of "xs @ [y]"] Cons.prems by simp
  then show ?case
    using Cons.prems dll_tail_notin [OF Cons.prems]
    by (subst list_size_loop.simps) (simp add: list_next_dll)
qed

lemma list_size_dll: "dll h l xs \<Longrightarrow> list_size h l = Some (length xs)"
  using list_size_loop_dll [of h l "[]" xs 0] by (simp add: list_size_def list_begin_dll)

section \<open>A list used as a queue\<close>

interpretation klq: fifo "\<lambda>h. dll h l" "\<lambda>xs x. x \<noteq> NULL \<and> x \<notin> nodes l xs"
    "\<lambda>h. list_push_back h l" "\<lambda>h. list_pop_front h l" for l
proof
  fix h xs x assume "dll h l xs" "x \<noteq> NULL \<and> x \<notin> nodes l xs"
  then show "\<exists>h'. list_push_back h l x = Some h' \<and> dll h' l (xs @ [x])"
    using list_push_back_dll by blast
next
  fix h xs x assume "dll h l (x # xs)"
  then show "\<exists>h'. list_pop_front h l = Some (h', x) \<and> dll h' l xs"
    using list_pop_front_dll by blast
qed

text \<open>
  C10. A kernel list is a first-in first-out queue: when a list holds the elements \<open>xs\<close> and the
  distinct elements \<open>zs\<close>, none of them null, in the list or a sentinel, are appended with
  \<^verbatim>\<open>list_push_back\<close>, then popping as many times with \<^verbatim>\<open>list_pop_front\<close> returns exactly
  \<open>xs @ zs\<close> in that order, no operation panics, and the list is empty afterwards.
\<close>

theorem list_queue_order:
  assumes "dll h l xs" "distinct zs" "NULL \<notin> set zs" "set zs \<inter> nodes l xs = {}"
  shows "\<exists>h1 h2. push_all (\<lambda>h. list_push_back h l) h zs = Some h1
    \<and> pop_n (\<lambda>h. list_pop_front h l) (length (xs @ zs)) h1 = Some (h2, xs @ zs) \<and> dll h2 l []"
  by (rule klq.first_in_first_out [OF assms(1)]) (use assms(2-) in auto)

theorem list_queue_order_witness:
  "\<exists>h1 h2. push_all (\<lambda>h. list_push_back h \<lparr>l_head = 1, l_tail = 2\<rparr>)
       ((\<lambda>_. \<lparr>e_prev = 0, e_next = 0\<rparr>)
    (1 := \<lparr>e_prev = 0, e_next = 4\<rparr>, 4 := \<lparr>e_prev = 1, e_next = 3\<rparr>,
     3 := \<lparr>e_prev = 4, e_next = 2\<rparr>, 2 := \<lparr>e_prev = 3, e_next = 0\<rparr>)) [5, 6] = Some h1
     \<and> pop_n (\<lambda>h. list_pop_front h \<lparr>l_head = 1, l_tail = 2\<rparr>) (length ([4, 3] @ [5, 6 :: nat])) h1
       = Some (h2, [4, 3] @ [5, 6]) \<and> dll h2 \<lparr>l_head = 1, l_tail = 2\<rparr> []"
  by (rule list_queue_order) (simp_all add: dll_def row_def links_def)

end
