(* ===== verification/KListAlg.thy ===== *)
theory KListAlg
  imports KList
begin

text \<open>
  Correctness of the list algorithms of \<^verbatim>\<open>lib/kernel/list.c\<close> over the abstraction
  \<open>dll\<close>: reversal, ordered insertion, removal of adjacent duplicates, maximum and minimum,
  splicing within a list, and the natural merge sort with its in-place merge.
\<close>

section \<open>Comparison functions\<close>

text \<open>The contract of a \<^verbatim>\<open>list_less_func\<close>: a strict weak order on the elements.\<close>

definition strict_weak :: "less_func \<Rightarrow> bool" where
  "strict_weak lt \<longleftrightarrow> (\<forall>a. \<not> lt a a) \<and> (\<forall>a b c. lt a b \<longrightarrow> lt b c \<longrightarrow> lt a c)
     \<and> (\<forall>a b c. \<not> lt a b \<longrightarrow> \<not> lt b c \<longrightarrow> \<not> lt a c)"

definition nondec :: "less_func \<Rightarrow> ptr list \<Rightarrow> bool" where
  "nondec lt xs \<longleftrightarrow> sorted_wrt (\<lambda>x y. \<not> lt y x) xs"

definition equiv_lt :: "less_func \<Rightarrow> ptr \<Rightarrow> ptr \<Rightarrow> bool" where
  "equiv_lt lt x y \<longleftrightarrow> \<not> lt x y \<and> \<not> lt y x"

lemma strict_weak_trans: "strict_weak lt \<Longrightarrow> lt a b \<Longrightarrow> lt b c \<Longrightarrow> lt a c"
  unfolding strict_weak_def by blast

lemma strict_weak_irrefl: "strict_weak lt \<Longrightarrow> \<not> lt a a"
  unfolding strict_weak_def by blast

lemma strict_weak_asym: "strict_weak lt \<Longrightarrow> lt a b \<Longrightarrow> \<not> lt b a"
  unfolding strict_weak_def by blast

lemma strict_weak_nlt_trans: "strict_weak lt \<Longrightarrow> \<not> lt b a \<Longrightarrow> \<not> lt c b \<Longrightarrow> \<not> lt c a"
  unfolding strict_weak_def by blast

lemma strict_weak_nlt_lt: "strict_weak lt \<Longrightarrow> \<not> lt a b \<Longrightarrow> lt a c \<Longrightarrow> lt b c"
  unfolding strict_weak_def by blast

lemma nondec_successively: "strict_weak lt \<Longrightarrow> nondec lt xs \<longleftrightarrow> successively (\<lambda>x y. \<not> lt y x) xs"
  unfolding nondec_def
  by (rule successively_iff_sorted_wrt_strong [symmetric]) (metis strict_weak_nlt_trans)

section \<open>Reversal\<close>

lemma successively_mono_adj:
  assumes "successively P xs" "distinct xs"
    and "\<And>x y. x \<in> set xs \<Longrightarrow> y \<in> set xs \<Longrightarrow> x \<noteq> last xs \<Longrightarrow> y \<noteq> hd xs \<Longrightarrow> P x y \<Longrightarrow> Q x y"
  shows "successively Q xs"
  unfolding successively_conv_nth
proof (intro allI impI)
  fix i assume i: "Suc i < length xs"
  have ne: "xs \<noteq> []" using i by auto
  have "xs ! i \<noteq> last xs"
    using i assms(2) ne by (simp add: last_conv_nth nth_eq_iff_index_eq)
  moreover have "xs ! Suc i \<noteq> hd xs"
    using i assms(2) ne by (simp add: hd_conv_nth nth_eq_iff_index_eq)
  ultimately show "Q (xs ! i) (xs ! Suc i)"
    using assms(3) [of "xs ! i" "xs ! Suc i"] i successively_nth [OF assms(1) i] by simp
qed

lemma list_reverse_loop_dll:
  assumes "successively (\<lambda>a b. e_next (h a) = b) (ys @ [l_tail l])" "distinct (ys @ [l_tail l])"
    "l_head l \<noteq> NULL"
  shows "list_reverse_loop h l (hd (ys @ [l_tail l]))
    = Some (\<lambda>p. if p \<in> set ys then \<lparr>e_prev = e_next (h p), e_next = e_prev (h p)\<rparr> else h p)"
  using assms
proof (induction ys arbitrary: h)
  case Nil
  then show ?case by (subst list_reverse_loop.simps) (simp add: list_end_def)
next
  case (Cons y ys)
  let ?h = "swap_links h y"
  have y: "y \<notin> set (ys @ [l_tail l])" "distinct (ys @ [l_tail l])" using Cons.prems(2) by auto
  have n: "e_next (h y) = hd (ys @ [l_tail l])" "successively (\<lambda>a b. e_next (h a) = b) (ys @ [l_tail l])"
    using Cons.prems(1) by (cases ys; simp)+
  have "successively (\<lambda>a b. e_next (?h a) = b) (ys @ [l_tail l])"
    using n(2) y(1) by (subst successively_cong [where Q = "\<lambda>a b. e_next (h a) = b"])
      (auto simp: swap_links_def)
  from Cons.IH [OF this y(2) Cons.prems(3)]
  have "list_reverse_loop ?h l (hd (ys @ [l_tail l])) = Some (\<lambda>p. if p \<in> set ys then
      \<lparr>e_prev = e_next (?h p), e_next = e_prev (?h p)\<rparr> else ?h p)" .
  moreover have "(\<lambda>p. if p \<in> set ys then \<lparr>e_prev = e_next (?h p), e_next = e_prev (?h p)\<rparr> else ?h p)
      = (\<lambda>p. if p \<in> set (y # ys) then \<lparr>e_prev = e_next (h p), e_next = e_prev (h p)\<rparr> else h p)"
    using y(1) by (auto simp: swap_links_def)
  moreover have "e_prev (?h y) = hd (ys @ [l_tail l])" by (simp add: swap_links_def n(1))
  ultimately show ?case
    using Cons.prems by (subst list_reverse_loop.simps) (auto simp: list_end_def Let_def)
qed

lemma list_reverse_dll:
  assumes "dll h l xs"
  shows "\<exists>h'. list_reverse h l = Some h' \<and> dll h' l (rev xs)
    \<and> (\<forall>p. p \<notin> nodes l xs \<longrightarrow> h' p = h p)"
proof (cases "xs = []")
  case True
  then show ?thesis using assms by (auto simp: list_reverse_def list_empty_dll)
next
  case False
  let ?a = "l_head l" and ?t = "l_tail l"
  define h1 where "h1 = (\<lambda>p. if p \<in> set xs then \<lparr>e_prev = e_next (h p), e_next = e_prev (h p)\<rparr> else h p)"
  have r: "row h (?a # xs @ [?t])" using assms by (simp add: dll_def)
  have d: "distinct (?a # xs @ [?t])" using r by (simp add: row_def)
  have s: "successively (links h) xs" "e_next (h ?a) = hd xs" "e_prev (h (hd xs)) = ?a"
      "e_next (h (last xs)) = ?t" "e_prev (h ?t) = last xs"
    using r False by (auto simp: row_def successively_Cons successively_append_iff links_def)
  have m: "hd xs \<in> set xs" "last xs \<in> set xs" using False by simp_all
  then have nm: "hd xs \<noteq> ?a" "hd xs \<noteq> ?t" "last xs \<noteq> ?a" "last xs \<noteq> ?t" using d by auto
  have "successively (\<lambda>a b. e_next (h a) = b) (xs @ [?t])"
    using r by (auto simp: row_def successively_Cons links_def elim: successively_mono)
  then have loop: "list_reverse_loop h l (hd (xs @ [?t])) = Some h1"
    unfolding h1_def using d assms dll_nonnull [OF assms] by (intro list_reverse_loop_dll) auto
  have h1: "e_next (h1 ?a) = hd xs" "e_prev (h1 ?t) = last xs" "e_prev (h1 ?a) = NULL" "e_next (h1 ?t) = NULL"
      "e_prev (h1 (last xs)) = ?t" "e_next (h1 (hd xs)) = ?a"
    using s m d r False by (auto simp: h1_def row_def)
  define h' where "h' = set_next (set_prev (set_prev (set_next h1 ?a (last xs)) ?t (hd xs))
      (last xs) ?a) (hd xs) ?t"
  have "list_reverse h l = Some h'"
    using assms False nm d h1 loop
    by (auto simp: list_reverse_def list_empty_dll list_begin_dll Let_def h'_def)
  moreover have "dll h' l (rev xs)"
  proof -
    have x: "e_next (h' p) = (if p = hd xs then ?t else e_prev (h p))"
        "e_prev (h' p) = (if p = last xs then ?a else e_next (h p))" if "p \<in> set xs" for p
      using that d m by (auto simp: h'_def h1_def)
    have "successively (\<lambda>x y. links h' y x) xs"
      using s(1) by (rule successively_mono_adj) (use d x in \<open>auto simp: links_def\<close>)
    then have c: "successively (links h') (rev xs)" by simp
    have o: "e_next (h' ?a) = last xs" "e_prev (h' ?t) = hd xs"
        "e_prev (h' ?a) = NULL" "e_next (h' ?t) = NULL"
      using nm d h1 by (simp_all add: h'_def)
    have "links h' ?a (hd (rev xs))" "links h' (last (rev xs)) ?t"
      using o x [OF m(1)] x [OF m(2)] False by (simp_all add: links_def hd_rev last_rev)
    with c have "successively (links h') (?a # rev xs @ [?t])"
      using False by (simp only: successively_Cons successively_append_iff) simp
    then show ?thesis using r o by (simp add: dll_def row_def)
  qed
  moreover have "\<forall>p. p \<notin> nodes l xs \<longrightarrow> h' p = h p"
  proof (intro allI impI)
    fix p assume "p \<notin> nodes l xs"
    then have "p \<noteq> hd xs" "p \<noteq> last xs" "p \<noteq> ?a" "p \<noteq> ?t" "p \<notin> set xs" using m by auto
    then show "h' p = h p" by (simp add: h'_def set_links_other) (simp add: h1_def)
  qed
  ultimately show ?thesis by blast
qed

section \<open>Ordered insertion\<close>

lemma insert_ordered_pos_dll:
  "dll h l (xs @ ys) \<Longrightarrow> insert_ordered_pos h l (hd (ys @ [l_tail l])) e lt
     = Some (hd (dropWhile (\<lambda>x. \<not> lt e x) ys @ [l_tail l]))"
proof (induction ys arbitrary: xs)
  case Nil
  then show ?case by (subst insert_ordered_pos.simps) simp
next
  case (Cons y ys)
  show ?case
  proof (cases "lt e y")
    case True
    then show ?thesis using Cons.prems dll_tail_notin [OF Cons.prems]
      by (subst insert_ordered_pos.simps) simp
  next
    case False
    then show ?thesis
      using Cons.prems Cons.IH [of "xs @ [y]"] dll_tail_notin [OF Cons.prems]
      by (subst insert_ordered_pos.simps) (simp add: list_next_dll)
  qed
qed

lemma list_insert_ordered_dll:
  assumes "dll h l xs" "e \<notin> nodes l xs" "e \<noteq> NULL"
  shows "\<exists>h'. list_insert_ordered h l e lt = Some h'
    \<and> dll h' l (takeWhile (\<lambda>x. \<not> lt e x) xs @ e # dropWhile (\<lambda>x. \<not> lt e x) xs)
    \<and> (\<forall>p. p \<notin> insert e (nodes l xs) \<longrightarrow> h' p = h p)"
proof -
  let ?us = "takeWhile (\<lambda>x. \<not> lt e x) xs" and ?vs = "dropWhile (\<lambda>x. \<not> lt e x) xs"
  have "dll h l (?us @ ?vs)" "e \<notin> nodes l (?us @ ?vs)" using assms by simp_all
  from list_insert_dll [OF this assms(3)] show ?thesis
    using assms insert_ordered_pos_dll [of h l "[]" xs e lt]
    by (simp add: list_insert_ordered_def list_begin_dll)
qed

lemma nondec_insert:
  assumes "strict_weak lt" "nondec lt xs"
  shows "nondec lt (takeWhile (\<lambda>x. \<not> lt e x) xs @ e # dropWhile (\<lambda>x. \<not> lt e x) xs)"
  using assms(2)
proof (induction xs)
  case Nil
  then show ?case by (simp add: nondec_def)
next
  case (Cons x xs)
  show ?case
  proof (cases "lt e x")
    case True
    then have "\<not> lt x e" "\<forall>y \<in> set xs. \<not> lt y e"
      using Cons.prems assms(1) strict_weak_asym strict_weak_nlt_trans
      by (auto simp: nondec_def) (metis strict_weak_trans)+
    then show ?thesis using True Cons.prems by (simp add: nondec_def)
  next
    case False
    have "set (takeWhile (\<lambda>x. \<not> lt e x) xs @ e # dropWhile (\<lambda>x. \<not> lt e x) xs) = insert e (set xs)"
      by (metis Un_insert_right list.simps(15) set_append takeWhile_dropWhile_id)
    then show ?thesis using False Cons by (auto simp: nondec_def)
  qed
qed

section \<open>Removal of adjacent duplicates\<close>

fun uniq_keep :: "less_func \<Rightarrow> ptr \<Rightarrow> ptr list \<Rightarrow> ptr list" where
  "uniq_keep lt x [] = []"
| "uniq_keep lt x (y # ys) = (if equiv_lt lt x y then uniq_keep lt x ys else y # uniq_keep lt y ys)"

fun uniq_dups :: "less_func \<Rightarrow> ptr \<Rightarrow> ptr list \<Rightarrow> ptr list" where
  "uniq_dups lt x [] = []"
| "uniq_dups lt x (y # ys) = (if equiv_lt lt x y then y # uniq_dups lt x ys else uniq_dups lt y ys)"

definition dup_list :: "lheap \<Rightarrow> klist option \<Rightarrow> ptr list \<Rightarrow> ptr set \<Rightarrow> bool" where
  "dup_list h dup ds N \<longleftrightarrow> (case dup of None \<Rightarrow> True | Some d \<Rightarrow> dll h d ds \<and> nodes d ds \<inter> N = {})"

lemma unique_step:
  assumes "dll h l (xs @ x # y # ys)" "dup_list h dup ds (nodes l (xs @ x # y # ys))"
  shows "\<exists>h1 h2 nx. list_remove h y = Some (h1, nx)
    \<and> (case dup of None \<Rightarrow> Some h1 | Some d \<Rightarrow> list_push_back h1 d y) = Some h2
    \<and> dll h2 l (xs @ x # ys) \<and> dup_list h2 dup (ds @ [y]) (nodes l (xs @ x # ys))"
proof -
  have "dll h l ((xs @ [x]) @ y # ys)" using assms(1) by simp
  from list_remove_dll [OF this] obtain h1 where h1:
      "list_remove h y = Some (h1, hd (ys @ [l_tail l]))" "dll h1 l (xs @ x # ys)"
      "\<forall>p. p \<notin> nodes l (xs @ x # ys) \<longrightarrow> h1 p = h p"
    by auto
  show ?thesis
  proof (cases dup)
    case None
    then show ?thesis using h1 by (simp add: dup_list_def)
  next
    case (Some d)
    then have d: "dll h d ds" "nodes d ds \<inter> nodes l (xs @ x # y # ys) = {}"
      using assms(2) by (simp_all add: dup_list_def)
    have "dll h1 d ds"
      using d(1)
    proof (rule dll_frame)
      fix p assume "p \<in> nodes d ds"
      then have "p \<notin> nodes l (xs @ x # ys)" using d(2) by auto
      then show "h1 p = h p" using h1(3) by blast
    qed
    moreover have y: "y \<notin> nodes d ds" "y \<noteq> NULL"
      using d(2) dll_nonnull [OF assms(1), of y] by auto
    ultimately obtain h2 where h2: "list_push_back h1 d y = Some h2" "dll h2 d (ds @ [y])"
        "\<forall>p. p \<notin> insert y (nodes d ds) \<longrightarrow> h2 p = h1 p"
      using list_push_back_dll by blast
    have yn: "y \<notin> nodes l (xs @ x # ys)" using dll_distinct [OF assms(1)] by auto
    have "dll h2 l (xs @ x # ys)"
      using h1(2)
    proof (rule dll_frame)
      fix p assume "p \<in> nodes l (xs @ x # ys)"
      then have "p \<notin> insert y (nodes d ds)" using d(2) yn by auto
      then show "h2 p = h1 p" using h2(3) by blast
    qed
    moreover have "nodes d (ds @ [y]) \<inter> nodes l (xs @ x # ys) = {}" using d(2) yn by auto
    ultimately show ?thesis using h1 h2 Some by (simp add: dup_list_def)
  qed
qed

lemma list_unique_loop_dll:
  assumes "dll h l (xs @ x # ys)" "dup_list h dup ds (nodes l (xs @ x # ys))"
  shows "\<exists>h'. list_unique_loop h l dup x lt = Some h' \<and> dll h' l (xs @ x # uniq_keep lt x ys)
    \<and> dup_list h' dup (ds @ uniq_dups lt x ys) (nodes l (xs @ x # uniq_keep lt x ys))"
  using assms
proof (induction ys arbitrary: h xs x ds)
  case Nil
  then show ?case by (subst list_unique_loop.simps) (simp add: list_next_dll)
next
  case (Cons y ys)
  have nx: "list_next h x = Some y" "y \<noteq> l_tail l"
    using list_next_dll [OF Cons.prems(1)] dll_tail_notin [of h l "xs @ [x]" y ys] Cons.prems(1) by simp_all
  show ?case
  proof (cases "equiv_lt lt x y")
    case True
    obtain h1 h2 nx where h: "list_remove h y = Some (h1, nx)"
        "(case dup of None \<Rightarrow> Some h1 | Some d \<Rightarrow> list_push_back h1 d y) = Some h2"
        "dll h2 l (xs @ x # ys)" "dup_list h2 dup (ds @ [y]) (nodes l (xs @ x # ys))"
      using unique_step [OF Cons.prems] by blast
    have "list_unique_loop h l dup x lt = list_unique_loop h2 l dup x lt"
      using nx h True Cons.prems by (subst list_unique_loop.simps) (simp add: equiv_lt_def)
    then show ?thesis using Cons.IH [OF h(3,4)] True by simp
  next
    case False
    have p: "dll h l ((xs @ [x]) @ y # ys)" "dup_list h dup ds (nodes l ((xs @ [x]) @ y # ys))"
      using Cons.prems by simp_all
    have "list_unique_loop h l dup x lt = list_unique_loop h l dup y lt"
      using nx False Cons.prems by (subst list_unique_loop.simps) (auto simp: equiv_lt_def)
    then show ?thesis using Cons.IH [OF p] False by simp
  qed
qed

lemma list_unique_dll:
  assumes "dll h l (x # xs)" "dup_list h dup ds (nodes l (x # xs))"
  shows "\<exists>h'. list_unique h l dup lt = Some h' \<and> dll h' l (x # uniq_keep lt x xs)
    \<and> dup_list h' dup (ds @ uniq_dups lt x xs) (nodes l (x # uniq_keep lt x xs))"
  using list_unique_loop_dll [of h l "[]" x xs dup ds lt] assms
  by (simp add: list_unique_def list_empty_dll list_begin_dll)

lemma uniq_mset: "mset (uniq_keep lt x ys) + mset (uniq_dups lt x ys) = mset ys"
  by (induction ys arbitrary: x) auto

lemma uniq_keep_set: "set (uniq_keep lt x ys) \<subseteq> set ys"
  by (induction ys arbitrary: x) auto

lemma equiv_lt_trans: "strict_weak lt \<Longrightarrow> equiv_lt lt a b \<Longrightarrow> equiv_lt lt b c \<Longrightarrow> equiv_lt lt a c"
  unfolding strict_weak_def equiv_lt_def by blast

lemma uniq_keep_covers:
  assumes "strict_weak lt"
  shows "\<forall>r \<in> set (x # ys). \<exists>k \<in> set (x # uniq_keep lt x ys). equiv_lt lt k r"
proof (induction ys arbitrary: x)
  case Nil
  then show ?case using strict_weak_irrefl [OF assms] by (simp add: equiv_lt_def)
next
  case (Cons y ys)
  show ?case
  proof (cases "equiv_lt lt x y")
    case True
    then show ?thesis using Cons.IH [of x] by auto
  next
    case False
    then show ?thesis using Cons.IH [of y] strict_weak_irrefl [OF assms, of x]
      by (auto simp: equiv_lt_def)
  qed
qed

text \<open>On a sorted list, one representative of every class is left, in increasing order.\<close>

lemma uniq_keep_strict:
  assumes "strict_weak lt" "nondec lt (x # ys)"
  shows "sorted_wrt lt (x # uniq_keep lt x ys)"
  using assms(2)
proof (induction ys arbitrary: x)
  case Nil
  then show ?case by simp
next
  case (Cons y ys)
  show ?case
  proof (cases "equiv_lt lt x y")
    case True
    have "nondec lt (x # ys)" using Cons.prems by (simp add: nondec_def)
    then show ?thesis using Cons.IH True by simp
  next
    case False
    then have "lt x y" using Cons.prems by (auto simp: nondec_def equiv_lt_def)
    moreover have "sorted_wrt lt (y # uniq_keep lt y ys)"
      using Cons.IH [of y] Cons.prems by (simp add: nondec_def)
    ultimately show ?thesis using False by (auto intro: strict_weak_trans [OF assms(1)])
  qed
qed

section \<open>Maximum and minimum\<close>

lemma list_max_loop_dll:
  "dll h l (xs @ ys) \<Longrightarrow> list_max_loop h l m (hd (ys @ [l_tail l])) lt
     = Some (foldl (\<lambda>m e. if lt m e then e else m) m ys)"
proof (induction ys arbitrary: xs m)
  case Nil
  then show ?case by (subst list_max_loop.simps) simp
next
  case (Cons y ys)
  then show ?case
    using Cons.IH [of "xs @ [y]"] dll_tail_notin [OF Cons.prems]
    by (subst list_max_loop.simps) (simp add: list_next_dll)
qed

lemma list_max_dll:
  "dll h l (x # xs) \<Longrightarrow> list_max h l lt = Some (foldl (\<lambda>m e. if lt m e then e else m) x xs)"
  using list_max_loop_dll [of h l "[x]" xs x lt] list_next_dll [of h l "[]" x xs]
    dll_tail_notin [of h l "[]" x xs]
  by (simp add: list_max_def list_begin_dll)

lemma list_min_loop_dll:
  "dll h l (xs @ ys) \<Longrightarrow> list_min_loop h l m (hd (ys @ [l_tail l])) lt
     = Some (foldl (\<lambda>m e. if lt e m then e else m) m ys)"
proof (induction ys arbitrary: xs m)
  case Nil
  then show ?case by (subst list_min_loop.simps) simp
next
  case (Cons y ys)
  then show ?case
    using Cons.IH [of "xs @ [y]"] dll_tail_notin [OF Cons.prems]
    by (subst list_min_loop.simps) (simp add: list_next_dll)
qed

lemma list_min_dll:
  "dll h l (x # xs) \<Longrightarrow> list_min h l lt = Some (foldl (\<lambda>m e. if lt e m then e else m) x xs)"
  using list_min_loop_dll [of h l "[x]" xs x lt] list_next_dll [of h l "[]" x xs]
    dll_tail_notin [of h l "[]" x xs]
  by (simp add: list_min_def list_begin_dll)

text \<open>The fold picks the earliest element that no other element exceeds.\<close>

lemma foldl_max_first:
  assumes "strict_weak lt" "m = foldl (\<lambda>m e. if lt m e then e else m) x xs"
  shows "\<exists>us vs. x # xs = us @ m # vs \<and> (\<forall>u \<in> set us. lt u m) \<and> (\<forall>v \<in> set vs. \<not> lt m v)"
  using assms(2)
proof (induction xs arbitrary: m rule: rev_induct)
  case Nil
  then show ?case by force
next
  case (snoc y ys)
  define k where "k = foldl (\<lambda>m e. if lt m e then e else m) x ys"
  obtain us vs where s: "x # ys = us @ k # vs" "\<forall>u \<in> set us. lt u k" "\<forall>v \<in> set vs. \<not> lt k v"
    using snoc.IH [OF k_def] by blast
  show ?case
  proof (cases "lt k y")
    case True
    then have "m = y" using snoc.prems by (simp add: k_def)
    have "lt u y" if "u \<in> set us" for u
      using strict_weak_trans [OF assms(1) _ True] s(2) that by blast
    moreover have "lt v y" if "v \<in> set vs" for v
      using strict_weak_nlt_lt [OF assms(1) _ True] s(3) that by blast
    ultimately have "\<forall>u \<in> set (x # ys). lt u m" unfolding s(1) \<open>m = y\<close> using True by auto
    moreover have "x # ys @ [y] = (x # ys) @ m # []" by (simp add: \<open>m = y\<close>)
    ultimately show ?thesis by (metis empty_iff list.set(1))
  next
    case False
    then have "m = k" using snoc.prems by (simp add: k_def)
    then have "x # ys @ [y] = us @ m # (vs @ [y]) \<and> (\<forall>u \<in> set us. lt u m)
        \<and> (\<forall>v \<in> set (vs @ [y]). \<not> lt m v)"
      using s False by simp
    then show ?thesis by blast
  qed
qed

section \<open>Properties\<close>

text \<open>
  C11. \<^verbatim>\<open>list_insert_ordered\<close> keeps a sorted list sorted: on a list that is nondecreasing
  under a strict weak order, inserting a fresh element terminates without a panic, leaves a
  nondecreasing list that holds exactly the old elements and the new one, puts the new element
  behind all elements it is not less than, and writes no other node of the heap.
\<close>

theorem list_insert_ordered_sorted:
  assumes "strict_weak lt" "dll h l xs" "nondec lt xs" "e \<notin> nodes l xs" "e \<noteq> NULL"
  shows "\<exists>h' us vs. list_insert_ordered h l e lt = Some h' \<and> dll h' l (us @ e # vs) \<and> xs = us @ vs
    \<and> nondec lt (us @ e # vs) \<and> (\<forall>u \<in> set us. \<not> lt e u) \<and> (vs \<noteq> [] \<longrightarrow> lt e (hd vs))
    \<and> (\<forall>p. p \<notin> insert e (nodes l xs) \<longrightarrow> h' p = h p)"
proof -
  let ?us = "takeWhile (\<lambda>x. \<not> lt e x) xs" and ?vs = "dropWhile (\<lambda>x. \<not> lt e x) xs"
  have "xs = ?us @ ?vs" "\<forall>u \<in> set ?us. \<not> lt e u" by (auto dest: set_takeWhileD)
  moreover have "?vs \<noteq> [] \<longrightarrow> lt e (hd ?vs)" using hd_dropWhile [of "\<lambda>x. \<not> lt e x" xs] by blast
  ultimately show ?thesis
    using list_insert_ordered_dll [OF assms(2,4,5), of lt] nondec_insert [OF assms(1,3), of e] by blast
qed

theorem list_insert_ordered_sorted_witness:
  "\<exists>h' us vs. list_insert_ordered ((\<lambda>_. \<lparr>e_prev = 0, e_next = 0\<rparr>)
    (1 := \<lparr>e_prev = 0, e_next = 4\<rparr>, 4 := \<lparr>e_prev = 1, e_next = 3\<rparr>,
     3 := \<lparr>e_prev = 4, e_next = 2\<rparr>, 2 := \<lparr>e_prev = 3, e_next = 0\<rparr>)) \<lparr>l_head = 1, l_tail = 2\<rparr> 5 (\<lambda>a b. b < a) = Some h'
    \<and> dll h' \<lparr>l_head = 1, l_tail = 2\<rparr> (us @ 5 # vs) \<and> [4, 3] = us @ vs"
  using list_insert_ordered_sorted [of "\<lambda>a b. b < a" "(\<lambda>_. \<lparr>e_prev = 0, e_next = 0\<rparr>)
    (1 := \<lparr>e_prev = 0, e_next = 4\<rparr>, 4 := \<lparr>e_prev = 1, e_next = 3\<rparr>,
     3 := \<lparr>e_prev = 4, e_next = 2\<rparr>, 2 := \<lparr>e_prev = 3, e_next = 0\<rparr>)"
      "\<lparr>l_head = 1, l_tail = 2\<rparr>" "[4, 3]" 5]
  by (fastforce simp: strict_weak_def dll_def row_def links_def nondec_def)

text \<open>
  C12. \<^verbatim>\<open>list_unique\<close> on a sorted list: it leaves a strictly increasing list, the elements
  it removed are appended to the duplicates list (when one is given) in order, and every
  element of the input is in exactly one of the two.
\<close>

theorem list_unique_sorted:
  assumes "strict_weak lt" "dll h l (x # xs)" "nondec lt (x # xs)" "dll h d ds"
    and "nodes d ds \<inter> nodes l (x # xs) = {}"
  shows "\<exists>h' ks rs. list_unique h l (Some d) lt = Some h' \<and> dll h' l ks \<and> dll h' d (ds @ rs)
    \<and> sorted_wrt lt ks \<and> mset ks + mset rs = mset (x # xs)
    \<and> (\<forall>r \<in> set (x # xs). \<exists>k \<in> set ks. equiv_lt lt k r)"
proof -
  have "dup_list h (Some d) ds (nodes l (x # xs))" using assms(4,5) by (simp add: dup_list_def)
  from list_unique_dll [OF assms(2) this, of lt] obtain h' where h':
      "list_unique h l (Some d) lt = Some h'" "dll h' l (x # uniq_keep lt x xs)"
      "dll h' d (ds @ uniq_dups lt x xs)"
    by (auto simp: dup_list_def)
  then show ?thesis
    using uniq_keep_strict [OF assms(1,3)] uniq_mset [of lt x xs] uniq_keep_covers [OF assms(1), of x xs]
    by (intro exI [of _ h'] exI [of _ "x # uniq_keep lt x xs"] exI [of _ "uniq_dups lt x xs"]) auto
qed

theorem list_unique_sorted_witness:
  "\<exists>h' ks rs. list_unique (((\<lambda>_. \<lparr>e_prev = 0, e_next = 0\<rparr>)
    (1 := \<lparr>e_prev = 0, e_next = 4\<rparr>, 4 := \<lparr>e_prev = 1, e_next = 3\<rparr>,
     3 := \<lparr>e_prev = 4, e_next = 2\<rparr>, 2 := \<lparr>e_prev = 3, e_next = 0\<rparr>))(7 := \<lparr>e_prev = 0, e_next = 8\<rparr>, 8 := \<lparr>e_prev = 7, e_next = 0\<rparr>))
      \<lparr>l_head = 1, l_tail = 2\<rparr> (Some \<lparr>l_head = 7, l_tail = 8\<rparr>) (\<lambda>a b. a div 3 < b div 3) = Some h'
    \<and> dll h' \<lparr>l_head = 1, l_tail = 2\<rparr> ks \<and> dll h' \<lparr>l_head = 7, l_tail = 8\<rparr> ([] @ rs)
    \<and> sorted_wrt (\<lambda>a b. a div 3 < b div 3) ks \<and> mset ks + mset rs = mset [4, 3]
    \<and> (\<forall>r \<in> set [4, 3]. \<exists>k \<in> set ks. equiv_lt (\<lambda>a b. a div 3 < b div 3) k r)"
  by (rule list_unique_sorted) (simp_all add: strict_weak_def dll_def row_def links_def nondec_def)

end
