(* ===== verification/KListSort.thy ===== *)
theory KListSort
  imports KListAlg
begin

text \<open>
  The natural merge sort \<^verbatim>\<open>list_sort\<close> of \<^verbatim>\<open>lib/kernel/list.c\<close>: splicing within a list, the
  in-place merge, one pass over the pairs of runs, and the outer loop. The pointer code is
  related to functions on the list of elements; those are shown to sort, to keep the
  multiset and the order of equal elements, and the number of descents of the list bounds the
  number of passes.
\<close>

section \<open>Moving a segment towards the front of its list\<close>

lemma list_splice_row:
  assumes row: "row h (U @ A @ M @ V)" and ne: "U \<noteq> []" "A \<noteq> []" "M \<noteq> []" "V \<noteq> []"
  shows "\<exists>h'. list_splice h (hd A) (hd M) (hd V) = Some h' \<and> row h' (U @ M @ A @ V)
    \<and> (\<forall>p. p \<notin> set (U @ A @ M @ V) \<longrightarrow> h' p = h p)"
proof -
  have m: "hd U \<in> set U" "hd A \<in> set A" "hd M \<in> set M" "hd V \<in> set V"
      "last U \<in> set U" "last A \<in> set A" "last M \<in> set M" "last V \<in> set V" using ne by simp_all
  have d: "distinct (U @ A @ M @ V)" using row by (simp add: row_def)
  have dd: "set U \<inter> set A = {}" "set U \<inter> set M = {}" "set U \<inter> set V = {}" "set A \<inter> set M = {}"
      "set A \<inter> set V = {}" "set M \<inter> set V = {}" "distinct U" "distinct A" "distinct M" "distinct V"
    using d by auto
  have n: "hd A \<noteq> hd M" "hd A \<noteq> hd V" "hd M \<noteq> hd V" "last U \<noteq> last A" "last U \<noteq> last M" "last A \<noteq> last M"
    using m dd by auto
  have c: "successively (links h) U" "successively (links h) A" "successively (links h) M"
      "successively (links h) V" "links h (last U) (hd A)" "links h (last A) (hd M)"
      "links h (last M) (hd V)" "e_prev (h (hd U)) = NULL" "e_next (h (last V)) = NULL"
    using row ne by (simp_all add: row_def successively_append_iff)
  define h' where "h' = set_prev (set_next (set_next (set_prev (set_prev (set_next h (last A) (hd V))
      (hd V) (last A)) (hd M) (last U)) (last M) (hd A)) (last U) (hd M)) (hd A) (last M)"
  have nx: "e_next (h' p) = (if p = last U then hd M else if p = last M then hd A
      else if p = last A then hd V else e_next (h p))"
    and pv: "e_prev (h' p) = (if p = hd A then last M else if p = hd M then last U
      else if p = hd V then last A else e_prev (h p))" for p
    by (simp_all add: h'_def)
  have i: "is_interior h (hd A) \<or> is_tail h (hd A)"
    using row_before [of h U "A @ M @ V"] row ne by simp
  have ip: "list_prev h (hd V) = Some (last M)"
    using list_prev_row [of h "U @ A @ M" V] row ne by simp
  have im: "is_interior h (hd M)"
    using row_interior(1) [of h "U @ A" "hd M" "tl M @ V"] row ne by (cases M) simp_all
  have il: "is_interior h (last M)"
  proof -
    have "butlast M @ [last M] = M" using ne by simp
    then have "row h ((U @ A @ butlast M) @ last M # V)" using row by (metis append.assoc append_Cons append_Nil)
    then show ?thesis by (rule row_interior) (use ne in simp_all)
  qed
  have "list_splice h (hd A) (hd M) (hd V) = Some h'"
    using i ip im il n c(5-7)
    by (simp add: list_splice_def links_def h'_def Let_def)
  moreover have "row h' (U @ M @ A @ V)"
  proof -
    have "successively (links h') S"
      if S: "successively (links h) S" "distinct S" "S \<noteq> []"
        and o: "set S \<inter> {last U, last M, last A} \<subseteq> {last S}" "set S \<inter> {hd A, hd M, hd V} \<subseteq> {hd S}" for S
      using S(1)
    proof (rule chain_cong)
      fix x assume x: "x \<in> set (butlast S)"
      then have "x \<in> set S" "x \<noteq> last S" using not_last_butlast [OF S(2) x] by (auto dest: in_set_butlastD)
      then have "x \<notin> {last U, last M, last A}" using o(1) by blast
      then show "e_next (h' x) = e_next (h x)" by (simp add: nx)
    next
      fix x assume x: "x \<in> set (tl S)"
      then have "x \<in> set S" "x \<noteq> hd S" using not_hd_tl [OF S(2) x] list.set_sel(2) [OF S(3)] by auto
      then have "x \<notin> {hd A, hd M, hd V}" using o(2) by blast
      then show "e_prev (h' x) = e_prev (h x)" by (simp add: pv)
    qed
    note keep = this
    have "successively (links h') U" by (rule keep) (use c dd ne m in blast)+
    moreover have "successively (links h') A" by (rule keep) (use c dd ne m in blast)+
    moreover have "successively (links h') M" by (rule keep) (use c dd ne m in blast)+
    moreover have "successively (links h') V" by (rule keep) (use c dd ne m in blast)+
    moreover have "links h' (last U) (hd M)" "links h' (last M) (hd A)" "links h' (last A) (hd V)"
      using n by (simp_all add: links_def nx pv)
    moreover have "e_prev (h' (hd U)) = NULL" "e_next (h' (last V)) = NULL"
      using c(8,9) m dd by (auto simp: nx pv)
    ultimately show ?thesis
      using row ne d by (auto simp: row_def successively_append_iff)
  qed
  moreover have "\<forall>p. p \<notin> set (U @ A @ M @ V) \<longrightarrow> h' p = h p"
  proof (intro allI impI)
    fix p assume "p \<notin> set (U @ A @ M @ V)"
    then have "p \<notin> {last U, last A, last M, hd A, hd M, hd V}" using m by auto
    then show "h' p = h p" by (simp add: h'_def set_links_other)
  qed
  ultimately show ?thesis by blast
qed

section \<open>Runs and merging on element lists\<close>

fun merge_lt :: "less_func \<Rightarrow> ptr list \<Rightarrow> ptr list \<Rightarrow> ptr list" where
  "merge_lt lt [] ys = ys"
| "merge_lt lt (x # xs) [] = x # xs"
| "merge_lt lt (x # xs) (y # ys) =
     (if \<not> lt y x then x # merge_lt lt xs (y # ys) else y # merge_lt lt (x # xs) ys)"

fun take_run :: "less_func \<Rightarrow> ptr \<Rightarrow> ptr list \<Rightarrow> ptr list" where
  "take_run lt x [] = [x]"
| "take_run lt x (y # ys) = (if \<not> lt y x then x # take_run lt y ys else [x])"

fun drop_run :: "less_func \<Rightarrow> ptr \<Rightarrow> ptr list \<Rightarrow> ptr list" where
  "drop_run lt x [] = []"
| "drop_run lt x (y # ys) = (if \<not> lt y x then drop_run lt y ys else y # ys)"

lemma take_drop_run: "take_run lt x xs @ drop_run lt x xs = x # xs"
  by (induction xs arbitrary: x) auto

lemma length_drop_run [termination_simp]: "length (drop_run lt x xs) \<le> length xs"
  by (induction xs arbitrary: x) (auto simp: le_SucI)

lemma length_drop_run_Cons [termination_simp]:
  "drop_run lt x xs = y # ys \<Longrightarrow> length (drop_run lt y ys) \<le> length xs"
  using length_drop_run [of lt x xs] length_drop_run [of lt y ys] by simp

fun sort_pass :: "less_func \<Rightarrow> ptr list \<Rightarrow> ptr list \<times> nat" where
  "sort_pass lt [] = ([], 0)"
| "sort_pass lt (x # xs) =
     (case drop_run lt x xs of
        [] \<Rightarrow> (x # xs, 1)
      | y # ys \<Rightarrow> (merge_lt lt (take_run lt x xs) (take_run lt y ys) @ fst (sort_pass lt (drop_run lt y ys)),
                  Suc (snd (sort_pass lt (drop_run lt y ys)))))"

lemma hd_take_run: "take_run lt x xs \<noteq> [] \<and> hd (take_run lt x xs) = x"
  by (cases xs) auto

lemma take_run_nondec: "successively (\<lambda>a b. \<not> lt b a) (take_run lt x xs)"
proof (induction xs arbitrary: x)
  case Nil
  then show ?case by simp
next
  case (Cons y ys)
  then show ?case using hd_take_run [of lt y ys] by (auto simp: successively_Cons)
qed

section \<open>The pointer loops compute these functions\<close>

lemma is_sorted_loop_dll:
  "dll h l (pre @ x # A @ post) \<Longrightarrow> is_sorted_loop h x (hd (post @ [l_tail l])) lt
     = Some (successively (\<lambda>a b. \<not> lt b a) (x # A))"
proof (induction A arbitrary: pre x)
  case Nil
  then show ?case by (subst is_sorted_loop.simps) (simp add: list_next_dll)
next
  case (Cons y A)
  have p: "dll h l ((pre @ [x]) @ y # A @ post)" using Cons.prems by simp
  have y: "y \<noteq> hd (post @ [l_tail l])" using dll_distinct [OF Cons.prems] by (cases post) auto
  have pv: "list_prev h y = Some x" using list_prev_dll [OF p] by simp
  show ?case
    using Cons.IH [OF p] y pv list_next_dll [OF Cons.prems]
    by (subst is_sorted_loop.simps) simp
qed

lemma is_sorted_dll:
  assumes "dll h l (pre @ A @ post)" "A \<noteq> []"
  shows "is_sorted h (hd A) (hd (post @ [l_tail l])) lt = Some (successively (\<lambda>a b. \<not> lt b a) A)"
proof (cases A)
  case (Cons x A')
  have "x \<noteq> hd (post @ [l_tail l])" using dll_distinct [OF assms(1)] Cons by (cases post) auto
  then show ?thesis using is_sorted_loop_dll [of h l pre x A' post lt] assms(1) Cons
    by (simp add: is_sorted_def)
qed (use assms in simp)

lemma find_end_of_run_loop_dll:
  "dll h l (pre @ x # ys) \<Longrightarrow>
     find_end_of_run_loop h x (l_tail l) lt = Some (hd (drop_run lt x ys @ [l_tail l]))"
proof (induction ys arbitrary: pre x)
  case Nil
  then show ?case by (subst find_end_of_run_loop.simps) (simp add: list_next_dll)
next
  case (Cons y ys)
  have p: "dll h l ((pre @ [x]) @ y # ys)" using Cons.prems by simp
  show ?case
    using Cons.IH [OF p] dll_tail_notin [OF p] list_prev_dll [OF p] list_next_dll [OF Cons.prems]
    by (subst find_end_of_run_loop.simps) simp
qed

lemma find_end_of_run_dll:
  assumes "dll h l (pre @ x # ys)"
  shows "find_end_of_run h x (l_tail l) lt = Some (hd (drop_run lt x ys @ [l_tail l]))"
  using find_end_of_run_loop_dll [OF assms] dll_nonnull [OF assms, of x]
    dll_nonnull [OF assms, of "l_tail l"] dll_tail_notin [OF assms]
  by (simp add: find_end_of_run_def)

lemma merge_splice_step:
  assumes "dll h l (pre @ (x # A) @ (y # B) @ post)"
  shows "\<exists>h'. list_next h y = Some (hd (B @ post @ [l_tail l]))
    \<and> list_prev h (hd (B @ post @ [l_tail l])) = Some y
    \<and> list_splice h x y (hd (B @ post @ [l_tail l])) = Some h'
    \<and> dll h' l ((pre @ [y]) @ (x # A) @ B @ post)
    \<and> (\<forall>p. p \<notin> nodes l (pre @ (x # A) @ (y # B) @ post) \<longrightarrow> h' p = h p)"
proof -
  let ?U = "l_head l # pre" and ?V = "B @ post @ [l_tail l]"
  have r: "row h (?U @ (x # A) @ [y] @ ?V)" using assms by (simp add: dll_def)
  have "list_next h y = Some (hd ?V)"
    using list_next_row [of h "?U @ (x # A) @ [y]" ?V] r by simp
  moreover have "list_prev h (hd ?V) = Some y"
    using list_prev_row [of h "?U @ (x # A) @ [y]" ?V] r by simp
  moreover obtain h' where "list_splice h x y (hd ?V) = Some h'" "row h' (?U @ [y] @ (x # A) @ ?V)"
      "\<forall>p. p \<notin> set (?U @ (x # A) @ [y] @ ?V) \<longrightarrow> h' p = h p"
    using list_splice_row [OF r] by auto
  moreover from this(2) have "dll h' l ((pre @ [y]) @ (x # A) @ B @ post)" by (simp add: dll_def)
  ultimately show ?thesis by auto
qed

lemma inplace_merge_loop_dll:
  "dll h l (pre @ A @ B @ post) \<Longrightarrow>
   \<exists>h'. inplace_merge_loop h (hd (A @ B @ post @ [l_tail l])) (hd (B @ post @ [l_tail l]))
       (hd (post @ [l_tail l])) lt = Some h'
     \<and> dll h' l (pre @ merge_lt lt A B @ post)
     \<and> (\<forall>p. p \<notin> nodes l (pre @ A @ B @ post) \<longrightarrow> h' p = h p)"
proof (induction lt A B arbitrary: h pre rule: merge_lt.induct)
  case (1 lt ys)
  then show ?case by (subst inplace_merge_loop.simps) simp
next
  case (2 lt x xs)
  then show ?case by (subst inplace_merge_loop.simps) simp
next
  case (3 lt x A y B)
  let ?t = "l_tail l"
  have d: "x \<noteq> y" "y \<noteq> hd (post @ [?t])" using dll_distinct [OF "3.prems"] by (cases post; auto)+
  show ?case
  proof (cases "lt y x")
    case False
    have p: "dll h l ((pre @ [x]) @ A @ (y # B) @ post)" using "3.prems" by simp
    have "list_next h x = Some (hd (A @ y # B @ post @ [?t]))"
      using list_next_dll [of h l pre x "A @ y # B @ post"] "3.prems" by simp
    then show ?thesis
      using "3.IH"(1) [OF False p] False d
      by (subst inplace_merge_loop.simps) (simp add: insert_commute)
  next
    case True
    from merge_splice_step [OF "3.prems"] obtain h1 where h1:
        "list_next h y = Some (hd (B @ post @ [?t]))"
        "list_prev h (hd (B @ post @ [?t])) = Some y"
        "list_splice h x y (hd (B @ post @ [?t])) = Some h1"
        "dll h1 l ((pre @ [y]) @ (x # A) @ B @ post)"
        "\<forall>p. p \<notin> nodes l (pre @ (x # A) @ (y # B) @ post) \<longrightarrow> h1 p = h p"
      by blast
    from "3.IH"(2) [OF _ h1(4)] True obtain h2 where h2:
        "inplace_merge_loop h1 x (hd (B @ post @ [?t])) (hd (post @ [?t])) lt = Some h2"
        "dll h2 l ((pre @ [y]) @ merge_lt lt (x # A) B @ post)"
        "\<forall>p. p \<notin> nodes l ((pre @ [y]) @ (x # A) @ B @ post) \<longrightarrow> h2 p = h1 p"
      by auto
    have "inplace_merge_loop h x y (hd (post @ [?t])) lt = Some h2"
      using h1 h2(1) True d by (subst inplace_merge_loop.simps) simp
    moreover have "nodes l ((pre @ [y]) @ (x # A) @ B @ post) = nodes l (pre @ (x # A) @ (y # B) @ post)"
      by auto
    ultimately show ?thesis using h1(5) h2(2,3) True by auto
  qed
qed

lemma inplace_merge_dll:
  assumes "dll h l (pre @ A @ B @ post)" "A \<noteq> []" "B \<noteq> []"
    "successively (\<lambda>a b. \<not> lt b a) A" "successively (\<lambda>a b. \<not> lt b a) B"
  shows "\<exists>h'. inplace_merge h (hd A) (hd B) (hd (post @ [l_tail l])) lt = Some h'
    \<and> dll h' l (pre @ merge_lt lt A B @ post)
    \<and> (\<forall>p. p \<notin> nodes l (pre @ A @ B @ post) \<longrightarrow> h' p = h p)"
proof -
  have "hd A \<noteq> NULL" "hd B \<noteq> NULL" "hd (post @ [l_tail l]) \<noteq> NULL"
    using hd_in_set [OF assms(2)] hd_in_set [OF assms(3)] hd_in_set [of "post @ [l_tail l]"]
    by (intro dll_nonnull [OF assms(1)]; force)+
  moreover have "is_sorted h (hd A) (hd B) lt = Some True"
    using is_sorted_dll [of h l pre A "B @ post" lt] assms by simp
  moreover have "is_sorted h (hd B) (hd (post @ [l_tail l])) lt = Some True"
    using is_sorted_dll [of h l "pre @ A" B post lt] assms by simp
  ultimately show ?thesis
    using inplace_merge_loop_dll [OF assms(1), of lt] assms(2,3) by (simp add: inplace_merge_def)
qed

lemma list_sort_pass_dll:
  "dll h l (pre @ ys) \<Longrightarrow>
   \<exists>h'. list_sort_pass h l (hd (ys @ [l_tail l])) c lt = Some (h', c + snd (sort_pass lt ys))
     \<and> dll h' l (pre @ fst (sort_pass lt ys))
     \<and> (\<forall>p. p \<notin> nodes l (pre @ ys) \<longrightarrow> h' p = h p)"
proof (induction lt ys arbitrary: h pre c rule: sort_pass.induct)
  case (1 lt)
  then show ?case by (subst list_sort_pass.simps) simp
next
  case (2 lt x xs)
  let ?t = "l_tail l"
  note e1 = find_end_of_run_dll [OF "2.prems", of lt]
  have xt: "x \<noteq> ?t" using dll_tail_notin [OF "2.prems"] .
  show ?case
  proof (cases "drop_run lt x xs")
    case Nil
    then show ?thesis using "2.prems" e1 xt by (subst list_sort_pass.simps) simp
  next
    case (Cons y ys)
    let ?A = "take_run lt x xs" and ?B = "take_run lt y ys" and ?post = "drop_run lt y ys"
    have xs: "x # xs = ?A @ y # ys" "y # ys = ?B @ ?post"
      using take_drop_run [of lt x xs] take_drop_run [of lt y ys] Cons by simp_all
    have p: "dll h l ((pre @ ?A) @ y # ys)" "dll h l (pre @ ?A @ ?B @ ?post)"
      using "2.prems" xs by simp_all
    note e2 = find_end_of_run_dll [OF p(1), of lt]
    have yt: "y \<noteq> ?t" using dll_tail_notin [OF p(1)] .
    have AB: "?A \<noteq> []" "hd ?A = x" "?B \<noteq> []" "hd ?B = y" using hd_take_run by auto
    obtain h1 where h1: "inplace_merge h x y (hd (?post @ [?t])) lt = Some h1"
        "dll h1 l ((pre @ merge_lt lt ?A ?B) @ ?post)"
        "\<forall>p. p \<notin> nodes l (pre @ x # xs) \<longrightarrow> h1 p = h p"
      using inplace_merge_dll [OF p(2) AB(1,3) take_run_nondec take_run_nondec] AB xs by auto
    have nd: "nodes l ((pre @ merge_lt lt ?A ?B) @ ?post) \<subseteq> nodes l (pre @ x # xs)"
    proof -
      have "set (merge_lt lt A B) = set A \<union> set B" for A B
        by (induction lt A B rule: merge_lt.induct) auto
      then show ?thesis unfolding xs by auto
    qed
    obtain h2 where h2: "list_sort_pass h1 l (hd (?post @ [?t])) (Suc c) lt
          = Some (h2, Suc c + snd (sort_pass lt ?post))"
        "dll h2 l ((pre @ merge_lt lt ?A ?B) @ fst (sort_pass lt ?post))"
        "\<forall>p. p \<notin> nodes l ((pre @ merge_lt lt ?A ?B) @ ?post) \<longrightarrow> h2 p = h1 p"
      using "2.IH" [OF Cons h1(2), of "Suc c"] by blast
    have "list_sort_pass h l x c lt = Some (h2, Suc c + snd (sort_pass lt ?post))"
      using "2.prems" e1 e2 h1(1) h2(1) xt yt Cons by (subst list_sort_pass.simps) simp
    moreover have "\<forall>p. p \<notin> nodes l (pre @ x # xs) \<longrightarrow> h2 p = h p"
      using h1(3) h2(3) nd by (metis subset_eq)
    ultimately show ?thesis using h2(2) Cons by simp
  qed
qed

section \<open>Properties of the merge and of one pass\<close>

lemma mset_merge_lt: "mset (merge_lt lt xs ys) = mset xs + mset ys"
  by (induction lt xs ys rule: merge_lt.induct) auto

lemma set_merge_lt: "set (merge_lt lt xs ys) = set xs \<union> set ys"
  using mset_merge_lt [of lt xs ys] by (metis set_mset_mset set_mset_union)

lemma nondec_merge_lt:
  "strict_weak lt \<Longrightarrow> nondec lt xs \<Longrightarrow> nondec lt ys \<Longrightarrow> nondec lt (merge_lt lt xs ys)"
proof (induction lt xs ys rule: merge_lt.induct)
  case (3 lt x xs y ys)
  note sw = "3.prems"(1)
  show ?case
  proof (cases "lt y x")
    case True
    have "\<not> lt z y" if "z \<in> set (x # xs)" for z
    proof
      assume "lt z y"
      then have "lt z x" using strict_weak_trans [OF sw _ True] by blast
      then show False using that "3.prems"(2) strict_weak_irrefl [OF sw] by (auto simp: nondec_def)
    qed
    then show ?thesis using True 3 by (auto simp: nondec_def set_merge_lt)
  next
    case False
    have "\<not> lt z x" if "z \<in> set ys" for z
      using that "3.prems"(3) strict_weak_nlt_trans [OF sw False] by (auto simp: nondec_def)
    then show ?thesis using False 3 by (auto simp: nondec_def set_merge_lt)
  qed
qed simp_all

text \<open>Equal elements keep their order: the merge is stable.\<close>

lemma filter_merge_lt:
  "strict_weak lt \<Longrightarrow> nondec lt xs \<Longrightarrow> filter (equiv_lt lt a) (merge_lt lt xs ys)
    = filter (equiv_lt lt a) xs @ filter (equiv_lt lt a) ys"
proof (induction lt xs ys rule: merge_lt.induct)
  case (3 lt x xs y ys)
  note sw = "3.prems"(1)
  show ?case
  proof (cases "lt y x")
    case True
    have "filter (equiv_lt lt a) (x # xs) = []" if y: "equiv_lt lt a y"
    proof -
      have "lt a z" if "z \<in> set (x # xs)" for z
      proof -
        have "\<not> lt z x" using that "3.prems"(2) strict_weak_irrefl [OF sw] by (auto simp: nondec_def)
        then have "lt y z" using sw True unfolding strict_weak_def by blast
        then show ?thesis using y sw unfolding strict_weak_def equiv_lt_def by blast
      qed
      then show ?thesis by (auto simp: equiv_lt_def filter_empty_conv)
    qed
    then show ?thesis using True 3 by auto
  next
    case False
    then show ?thesis using 3 by (auto simp: nondec_def)
  qed
qed simp_all

fun descents :: "less_func \<Rightarrow> ptr list \<Rightarrow> nat" where
  "descents lt [] = 0"
| "descents lt [x] = 0"
| "descents lt (x # y # zs) = (if lt y x then 1 else 0) + descents lt (y # zs)"

lemma descents_append: "descents lt (xs @ ys) \<le> descents lt xs + descents lt ys + 1"
proof (induction lt xs rule: descents.induct)
  case (2 lt x)
  then show ?case by (cases ys) auto
qed auto

lemma descents_nondec: "successively (\<lambda>a b. \<not> lt b a) xs \<Longrightarrow> descents lt xs = 0"
  by (induction lt xs rule: descents.induct) auto

lemma descents_0: "descents lt xs = 0 \<Longrightarrow> successively (\<lambda>a b. \<not> lt b a) xs"
  by (induction lt xs rule: descents.induct) (auto split: if_splits)

lemma descents_drop_run:
  "drop_run lt x xs \<noteq> [] \<Longrightarrow> descents lt (x # xs) = Suc (descents lt (drop_run lt x xs))"
  by (induction xs arbitrary: x) auto

lemma drop_run_Nil: "drop_run lt x xs = [] \<Longrightarrow> take_run lt x xs = x # xs"
  using take_drop_run [of lt x xs] by simp

lemma sort_pass_runs:
  assumes "strict_weak lt"
  shows "2 * snd (sort_pass lt xs) \<le> descents lt xs + 2
    \<and> (xs \<noteq> [] \<longrightarrow> descents lt (fst (sort_pass lt xs)) < snd (sort_pass lt xs))"
proof -
  have "strict_weak lt \<longrightarrow> 2 * snd (sort_pass lt xs) \<le> descents lt xs + 2
    \<and> (xs \<noteq> [] \<longrightarrow> descents lt (fst (sort_pass lt xs)) < snd (sort_pass lt xs))"
  proof (induction lt xs rule: sort_pass.induct)
    case (1 lt)
    then show ?case by simp
  next
    case (2 lt x xs)
    show ?case
    proof (cases "drop_run lt x xs")
      case Nil
      then have "descents lt (x # xs) = 0"
        using take_run_nondec [of lt x xs] drop_run_Nil [OF Nil] by (simp add: descents_nondec)
      then show ?thesis using Nil by simp
    next
      case (Cons y ys)
      let ?r = "drop_run lt y ys" and ?m = "merge_lt lt (take_run lt x xs) (take_run lt y ys)"
      have d1: "descents lt (x # xs) = Suc (descents lt (y # ys))"
        using descents_drop_run [of lt x xs] Cons by simp
      show ?thesis
      proof
        assume sw: "strict_weak lt"
        have IH: "2 * snd (sort_pass lt ?r) \<le> descents lt ?r + 2"
            "?r \<noteq> [] \<longrightarrow> descents lt (fst (sort_pass lt ?r)) < snd (sort_pass lt ?r)"
          using "2.IH" [OF Cons] sw by blast+
        have "nondec lt ?m"
          using sw take_run_nondec by (intro nondec_merge_lt) (simp_all add: nondec_successively)
        then have m0: "descents lt ?m = 0" using sw by (simp add: descents_nondec nondec_successively)
        show "2 * snd (sort_pass lt (x # xs)) \<le> descents lt (x # xs) + 2
          \<and> (x # xs \<noteq> [] \<longrightarrow> descents lt (fst (sort_pass lt (x # xs))) < snd (sort_pass lt (x # xs)))"
        proof (cases "?r = []")
          case True
          then show ?thesis using Cons m0 d1 by simp
        next
          case False
          then show ?thesis
            using Cons m0 d1 IH descents_drop_run [OF False]
              descents_append [of lt ?m "fst (sort_pass lt ?r)"] by auto
        qed
      qed
    qed
  qed
  then show ?thesis using assms by blast
qed

lemma sort_pass_mset: "mset (fst (sort_pass lt xs)) = mset xs"
proof (induction lt xs rule: sort_pass.induct)
  case (2 lt x xs)
  show ?case
  proof (cases "drop_run lt x xs")
    case (Cons y ys)
    have "mset (x # xs) = mset (take_run lt x xs) + (mset (take_run lt y ys) + mset (drop_run lt y ys))"
      using take_drop_run [of lt x xs] take_drop_run [of lt y ys] Cons by (metis mset_append)
    then show ?thesis using "2.IH" [OF Cons] Cons by (simp add: mset_merge_lt)
  qed simp
qed simp

lemma sort_pass_stable:
  "strict_weak lt \<Longrightarrow> filter (equiv_lt lt a) (fst (sort_pass lt xs)) = filter (equiv_lt lt a) xs"
proof (induction lt xs rule: sort_pass.induct)
  case (2 lt x xs)
  show ?case
  proof (cases "drop_run lt x xs")
    case (Cons y ys)
    have "filter P (x # xs) = filter P (take_run lt x xs) @ filter P (take_run lt y ys)
        @ filter P (drop_run lt y ys)" for P
      using take_drop_run [of lt x xs] take_drop_run [of lt y ys] Cons by (metis filter_append)
    moreover have "nondec lt (take_run lt x xs)"
      using "2.prems" take_run_nondec by (simp add: nondec_successively)
    ultimately show ?thesis
      using "2.IH" [OF Cons "2.prems"] Cons filter_merge_lt [OF "2.prems"] by simp
  qed simp
qed simp

section \<open>The outer loop\<close>

lemma list_sort_loop_dll:
  assumes "strict_weak lt"
  shows "dll h l xs \<Longrightarrow> \<exists>h' ys. list_sort_loop h l lt = Some h' \<and> dll h' l ys \<and> nondec lt ys
     \<and> mset ys = mset xs \<and> (\<forall>a. filter (equiv_lt lt a) ys = filter (equiv_lt lt a) xs)
     \<and> (\<forall>p. p \<notin> nodes l xs \<longrightarrow> h' p = h p)"
proof (induction "descents lt xs" arbitrary: h xs rule: less_induct)
  case less
  let ?ys = "fst (sort_pass lt xs)" and ?n = "snd (sort_pass lt xs)"
  obtain h1 where h1: "list_sort_pass h l (hd (xs @ [l_tail l])) 0 lt = Some (h1, ?n)"
      "dll h1 l ?ys" "\<forall>p. p \<notin> nodes l xs \<longrightarrow> h1 p = h p"
    using list_sort_pass_dll [of h l "[]" xs 0 lt] less.prems by auto
  have b: "list_begin h l = Some (hd (xs @ [l_tail l]))" using less.prems by (rule list_begin_dll)
  have m: "mset ?ys = mset xs" "filter (equiv_lt lt a) ?ys = filter (equiv_lt lt a) xs" for a
    by (simp_all add: sort_pass_mset sort_pass_stable [OF assms])
  have nd: "nodes l ?ys = nodes l xs" using mset_eq_setD [OF m(1)] by simp
  note r = sort_pass_runs [OF assms, of xs]
  show ?case
  proof (cases "?n > 1")
    case True
    then have "descents lt ?ys < descents lt xs" using r by (cases xs) auto
    from less.hyps [OF this h1(2)] obtain h' zs where z:
        "list_sort_loop h1 l lt = Some h'" "dll h' l zs" "nondec lt zs" "mset zs = mset ?ys"
        "\<forall>a. filter (equiv_lt lt a) zs = filter (equiv_lt lt a) ?ys"
        "\<forall>p. p \<notin> nodes l ?ys \<longrightarrow> h' p = h1 p"
      by blast
    have "list_sort_loop h l lt = Some h'"
      using b h1(1) True z(1) by (subst list_sort_loop.simps) simp
    moreover have "\<forall>p. p \<notin> nodes l xs \<longrightarrow> h' p = h p" using z(6) h1(3) unfolding nd by simp
    moreover have "mset zs = mset xs" "\<forall>a. filter (equiv_lt lt a) zs = filter (equiv_lt lt a) xs"
      using z(4,5) m by simp_all
    ultimately show ?thesis using z(2,3) by blast
  next
    case False
    then have "descents lt ?ys = 0" using r by (cases xs) auto
    then have "nondec lt ?ys" using assms by (simp add: nondec_successively descents_0)
    moreover have "list_sort_loop h l lt = Some h1"
      using b h1(1) False by (subst list_sort_loop.simps) simp
    ultimately show ?thesis using h1 m by blast
  qed
qed

text \<open>
  C8. \<^verbatim>\<open>list_sort\<close> is a correct, stable, terminating sort: for every strict weak order and
  every well-formed list it returns (its natural merge sort halts and none of its assertions
  fails), the resulting list is nondecreasing, is a permutation of the input, keeps equivalent
  elements in their original order, and no heap node outside the list is written.
\<close>

theorem list_sort_dll:
  assumes "strict_weak lt" "dll h l xs"
  shows "\<exists>h' ys. list_sort h l lt = Some h' \<and> dll h' l ys \<and> nondec lt ys
     \<and> mset ys = mset xs \<and> (\<forall>a. filter (equiv_lt lt a) ys = filter (equiv_lt lt a) xs)
     \<and> (\<forall>p. p \<notin> nodes l xs \<longrightarrow> h' p = h p)"
proof -
  from list_sort_loop_dll [OF assms] obtain h' ys where s:
      "list_sort_loop h l lt = Some h'" "dll h' l ys" "nondec lt ys" "mset ys = mset xs"
      "\<forall>a. filter (equiv_lt lt a) ys = filter (equiv_lt lt a) xs"
      "\<forall>p. p \<notin> nodes l xs \<longrightarrow> h' p = h p"
    by blast
  have "is_sorted h' (hd (ys @ [l_tail l])) (l_tail l) lt = Some True"
  proof (cases "ys = []")
    case True
    then show ?thesis by (simp add: is_sorted_def)
  next
    case False
    then show ?thesis
      using is_sorted_dll [of h' l "[]" ys "[]" lt] s(2,3) assms(1) by (simp add: nondec_successively)
  qed
  then have "list_sort h l lt = Some h'"
    using s(1,2) assms(2) by (simp add: list_sort_def list_begin_dll)
  then show ?thesis using s by blast
qed

theorem list_sort_dll_witness:
  "\<exists>h' ys. list_sort ((\<lambda>_. \<lparr>e_prev = 0, e_next = 0\<rparr>)
    (1 := \<lparr>e_prev = 0, e_next = 4\<rparr>, 4 := \<lparr>e_prev = 1, e_next = 3\<rparr>,
     3 := \<lparr>e_prev = 4, e_next = 2\<rparr>, 2 := \<lparr>e_prev = 3, e_next = 0\<rparr>)) \<lparr>l_head = 1, l_tail = 2\<rparr> (<) = Some h' \<and> dll h' \<lparr>l_head = 1, l_tail = 2\<rparr> ys
    \<and> nondec (<) ys \<and> mset ys = mset [4, 3] \<and> (\<forall>a. filter (equiv_lt (<) a) ys = filter (equiv_lt (<) a) [4, 3])
    \<and> (\<forall>p. p \<notin> nodes \<lparr>l_head = 1, l_tail = 2\<rparr> [4, 3] \<longrightarrow> h' p = ((\<lambda>_. \<lparr>e_prev = 0, e_next = 0\<rparr>)
    (1 := \<lparr>e_prev = 0, e_next = 4\<rparr>, 4 := \<lparr>e_prev = 1, e_next = 3\<rparr>,
     3 := \<lparr>e_prev = 4, e_next = 2\<rparr>, 2 := \<lparr>e_prev = 3, e_next = 0\<rparr>)) p)"
  by (rule list_sort_dll) (simp_all add: strict_weak_def dll_def row_def links_def)

end
