(* ===== verification/KBitmap.thy ===== *)
theory KBitmap
  imports Interfaces
begin

text \<open>
  The kernel bitmap (\<^verbatim>\<open>lib/kernel/bitmap.c\<close>): a \<^verbatim>\<open>struct bitmap\<close> is a bit count and an
  array of 32-bit elements. Loops over bit positions are recursive functions; failed
  assertions and accesses outside the element array give \<^const>\<open>None\<close>. The abstraction of a
  bitmap is the predicate \<open>bbit\<close> on positions, and every operation is characterised on it.
\<close>

section \<open>Data\<close>

record bitmap =
  bit_cnt :: nat
  bits :: "u32 list"

abbreviation (input) ELEM_BITS :: nat where
  "ELEM_BITS \<equiv> 32"

definition BITMAP_ERROR :: nat where
  "BITMAP_ERROR = 4294967295"

definition elem_idx :: "nat \<Rightarrow> nat" where
  "elem_idx bit_idx = bit_idx div ELEM_BITS"

definition bit_mask :: "nat \<Rightarrow> u32" where
  "bit_mask bit_idx = push_bit (bit_idx mod ELEM_BITS) 1"

definition elem_cnt :: "nat \<Rightarrow> nat" where
  "elem_cnt n = DIV_ROUND_UP n ELEM_BITS"

definition byte_cnt :: "nat \<Rightarrow> nat" where
  "byte_cnt n = mul32 4 (elem_cnt n)"

definition last_mask :: "bitmap \<Rightarrow> u32" where
  "last_mask b = (let last_bits = bit_cnt b mod ELEM_BITS
     in if last_bits \<noteq> 0 then push_bit last_bits 1 - 1 else - 1)"

section \<open>Single bits\<close>

text \<open>An element access outside the array is undefined behaviour in C; here it yields \<^const>\<open>None\<close>.\<close>

definition update_elem :: "bitmap \<Rightarrow> nat \<Rightarrow> (u32 \<Rightarrow> u32) \<Rightarrow> bitmap option" where
  "update_elem b idx f =
     (if idx < length (bits b) then Some (b\<lparr>bits := (bits b)[idx := f (bits b ! idx)]\<rparr>) else None)"

definition bitmap_size :: "bitmap \<Rightarrow> nat" where
  "bitmap_size b = bit_cnt b"

definition bitmap_mark :: "bitmap \<Rightarrow> nat \<Rightarrow> bitmap option" where
  "bitmap_mark b bit_idx = update_elem b (elem_idx bit_idx) (\<lambda>w. w OR bit_mask bit_idx)"

definition bitmap_reset :: "bitmap \<Rightarrow> nat \<Rightarrow> bitmap option" where
  "bitmap_reset b bit_idx = update_elem b (elem_idx bit_idx) (\<lambda>w. w AND NOT (bit_mask bit_idx))"

definition bitmap_flip :: "bitmap \<Rightarrow> nat \<Rightarrow> bitmap option" where
  "bitmap_flip b bit_idx = update_elem b (elem_idx bit_idx) (\<lambda>w. w XOR bit_mask bit_idx)"

definition bitmap_set :: "bitmap \<Rightarrow> nat \<Rightarrow> bool \<Rightarrow> bitmap option" where
  "bitmap_set b idx value = do {
     ASSERT (idx < bit_cnt b);
     if value then bitmap_mark b idx else bitmap_reset b idx
   }"

definition bitmap_test :: "bitmap \<Rightarrow> nat \<Rightarrow> bool option" where
  "bitmap_test b idx = do {
     ASSERT (idx < bit_cnt b);
     ASSERT (elem_idx idx < length (bits b));
     Some ((bits b ! elem_idx idx) AND bit_mask idx \<noteq> 0)
   }"

section \<open>Groups of bits\<close>

function set_multiple_loop :: "bitmap \<Rightarrow> nat \<Rightarrow> nat \<Rightarrow> nat \<Rightarrow> bool \<Rightarrow> bitmap option" where
  "set_multiple_loop b start i cnt value =
     (if i < cnt then do {
        b \<leftarrow> bitmap_set b (add32 start i) value;
        set_multiple_loop b start (Suc i) cnt value
      } else Some b)"
  by pat_completeness auto
termination
  by (relation "measure (\<lambda>(b, start, i, cnt, value). cnt - i)") auto

definition bitmap_set_multiple :: "bitmap \<Rightarrow> nat \<Rightarrow> nat \<Rightarrow> bool \<Rightarrow> bitmap option" where
  "bitmap_set_multiple b start cnt value = do {
     ASSERT (start \<le> bit_cnt b);
     ASSERT (add32 start cnt \<le> bit_cnt b);
     set_multiple_loop b start 0 cnt value
   }"

definition bitmap_set_all :: "bitmap \<Rightarrow> bool \<Rightarrow> bitmap option" where
  "bitmap_set_all b value = bitmap_set_multiple b 0 (bitmap_size b) value"

function count_loop :: "bitmap \<Rightarrow> nat \<Rightarrow> nat \<Rightarrow> nat \<Rightarrow> bool \<Rightarrow> nat \<Rightarrow> nat option" where
  "count_loop b start i cnt value value_cnt =
     (if i < cnt then do {
        t \<leftarrow> bitmap_test b (add32 start i);
        count_loop b start (Suc i) cnt value (if t = value then Suc value_cnt else value_cnt)
      } else Some value_cnt)"
  by pat_completeness auto
termination
  by (relation "measure (\<lambda>(b, start, i, cnt, value, n). cnt - i)") auto

definition bitmap_count :: "bitmap \<Rightarrow> nat \<Rightarrow> nat \<Rightarrow> bool \<Rightarrow> nat option" where
  "bitmap_count b start cnt value = do {
     ASSERT (start \<le> bit_cnt b);
     ASSERT (add32 start cnt \<le> bit_cnt b);
     count_loop b start 0 cnt value 0
   }"

function contains_loop :: "bitmap \<Rightarrow> nat \<Rightarrow> nat \<Rightarrow> nat \<Rightarrow> bool \<Rightarrow> bool option" where
  "contains_loop b start i cnt value =
     (if i < cnt then do {
        t \<leftarrow> bitmap_test b (add32 start i);
        if t = value then Some True else contains_loop b start (Suc i) cnt value
      } else Some False)"
  by pat_completeness auto
termination
  by (relation "measure (\<lambda>(b, start, i, cnt, value). cnt - i)") auto

definition bitmap_contains :: "bitmap \<Rightarrow> nat \<Rightarrow> nat \<Rightarrow> bool \<Rightarrow> bool option" where
  "bitmap_contains b start cnt value = do {
     ASSERT (start \<le> bit_cnt b);
     ASSERT (add32 start cnt \<le> bit_cnt b);
     contains_loop b start 0 cnt value
   }"

definition bitmap_any :: "bitmap \<Rightarrow> nat \<Rightarrow> nat \<Rightarrow> bool option" where
  "bitmap_any b start cnt = bitmap_contains b start cnt True"

definition bitmap_none :: "bitmap \<Rightarrow> nat \<Rightarrow> nat \<Rightarrow> bool option" where
  "bitmap_none b start cnt = map_option Not (bitmap_contains b start cnt True)"

definition bitmap_all :: "bitmap \<Rightarrow> nat \<Rightarrow> nat \<Rightarrow> bool option" where
  "bitmap_all b start cnt = map_option Not (bitmap_contains b start cnt False)"

section \<open>Searching\<close>

function scan_loop :: "bitmap \<Rightarrow> nat \<Rightarrow> nat \<Rightarrow> nat \<Rightarrow> bool \<Rightarrow> nat option" where
  "scan_loop b i lst cnt value =
     (if i \<le> lst then do {
        c \<leftarrow> bitmap_contains b i cnt (\<not> value);
        if \<not> c then Some i else scan_loop b (Suc i) lst cnt value
      } else Some BITMAP_ERROR)"
  by pat_completeness auto
termination
  by (relation "measure (\<lambda>(b, i, lst, cnt, value). Suc lst - i)") auto

definition bitmap_scan :: "bitmap \<Rightarrow> nat \<Rightarrow> nat \<Rightarrow> bool \<Rightarrow> nat option" where
  "bitmap_scan b start cnt value = do {
     ASSERT (start \<le> bit_cnt b);
     if cnt \<le> bit_cnt b then scan_loop b start (bit_cnt b - cnt) cnt value
     else Some BITMAP_ERROR
   }"

definition bitmap_scan_and_flip :: "bitmap \<Rightarrow> nat \<Rightarrow> nat \<Rightarrow> bool \<Rightarrow> (bitmap \<times> nat) option" where
  "bitmap_scan_and_flip b start cnt value = do {
     idx \<leftarrow> bitmap_scan b start cnt value;
     if idx \<noteq> BITMAP_ERROR then do {
       b \<leftarrow> bitmap_set_multiple b idx cnt (\<not> value);
       Some (b, idx)
     } else Some (b, idx)
   }"

section \<open>Creation\<close>

text \<open>
  \<^verbatim>\<open>malloc\<close> returns uninitialised memory or a null pointer: \<open>hdr\<close> says whether the header
  was allocated, \<open>block\<close> is the content of the element array, \<^const>\<open>None\<close> for a null pointer.
  The inner option is the returned pointer.
\<close>

definition bitmap_create :: "bool \<Rightarrow> u32 list option \<Rightarrow> nat \<Rightarrow> bitmap option option" where
  "bitmap_create hdr block n =
     (if hdr then
        (case block of
           Some ws \<Rightarrow> map_option Some (bitmap_set_all \<lparr>bit_cnt = n, bits = ws\<rparr> False)
         | None \<Rightarrow>
             if n = 0 then map_option Some (bitmap_set_all \<lparr>bit_cnt = n, bits = []\<rparr> False)
             else Some None)
      else Some None)"

definition bitmap_buf_size :: "nat \<Rightarrow> nat" where
  "bitmap_buf_size n = add32 8 (byte_cnt n)"

text \<open>\<open>ws\<close> is the memory behind the header in the preallocated block.\<close>

definition bitmap_create_in_buf :: "nat \<Rightarrow> u32 list \<Rightarrow> nat \<Rightarrow> bitmap option" where
  "bitmap_create_in_buf n ws block_size = do {
     ASSERT (bitmap_buf_size n \<le> block_size);
     bitmap_set_all \<lparr>bit_cnt = n, bits = ws\<rparr> False
   }"

declare set_multiple_loop.simps [simp del] count_loop.simps [simp del]
  contains_loop.simps [simp del] scan_loop.simps [simp del]

section \<open>Bits as positions\<close>

definition bbit :: "bitmap \<Rightarrow> nat \<Rightarrow> bool" where
  "bbit b i \<longleftrightarrow> bit (bits b ! (i div 32)) (i mod 32)"

definition wf_bitmap :: "bitmap \<Rightarrow> bool" where
  "wf_bitmap b \<longleftrightarrow> bit_cnt b + 32 < two32 \<and> elem_cnt (bit_cnt b) \<le> length (bits b)"

lemma bit_bit_mask: "bit (bit_mask i) n \<longleftrightarrow> n = i mod 32"
  by (auto simp: bit_mask_def bit_simps)

lemma and_bit_mask: "(w AND bit_mask i \<noteq> 0) \<longleftrightarrow> bit w (i mod 32)"
  by (simp add: bit_mask_def push_bit_eq_mult and_exp_eq_0_iff_not_bit)

lemma wf_elem_idx: "wf_bitmap b \<Longrightarrow> i < bit_cnt b \<Longrightarrow> elem_idx i < length (bits b)"
  using DIV_ROUND_UP_mono_index [of 32 "bit_cnt b" i]
  by (simp add: wf_bitmap_def elem_idx_def elem_cnt_def)

lemma bitmap_test_bbit: "wf_bitmap b \<Longrightarrow> i < bit_cnt b \<Longrightarrow> bitmap_test b i = Some (bbit b i)"
  using wf_elem_idx [of b i] by (simp add: bitmap_test_def and_bit_mask bbit_def elem_idx_def)

lemma update_elem_bbit:
  assumes "update_elem b (elem_idx i) f = Some b'"
    and "\<And>w n. bit (f w) n \<longleftrightarrow> (if n = i mod 32 then g (bit w n) else bit w n)"
  shows "bbit b' j \<longleftrightarrow> (if j = i then g (bbit b j) else bbit b j)"
proof -
  have "j = i \<longleftrightarrow> j div 32 = i div 32 \<and> j mod 32 = i mod 32"
    by (metis mult_div_mod_eq)
  moreover have "i div 32 < length (bits b)" "bits b' = (bits b)[i div 32 := f (bits b ! (i div 32))]"
    using assms(1) by (auto simp: update_elem_def elem_idx_def split: if_splits)
  ultimately show ?thesis
    using assms(2) by (cases "j div 32 = i div 32") (simp_all add: bbit_def nth_list_update)
qed

lemma update_elem_wf:
  "update_elem b k f = Some b' \<Longrightarrow> wf_bitmap b' = wf_bitmap b \<and> bit_cnt b' = bit_cnt b"
  by (auto simp: update_elem_def wf_bitmap_def split: if_splits)

lemma bitmap_mark_bbit:
  assumes "bitmap_mark b i = Some b'"
  shows "bbit b' j \<longleftrightarrow> j = i \<or> bbit b j"
  using update_elem_bbit [OF assms [unfolded bitmap_mark_def], of "\<lambda>_. True" j]
  by (auto simp: bit_or_iff bit_bit_mask)

lemma bitmap_reset_bbit:
  assumes "bitmap_reset b i = Some b'"
  shows "bbit b' j \<longleftrightarrow> j \<noteq> i \<and> bbit b j"
proof -
  have "bit (w AND NOT (bit_mask i)) n \<longleftrightarrow> (if n = i mod 32 then False else bit w n)" for w :: u32 and n
    using bit_imp_le_length [of w n] by (auto simp: bit_and_iff bit_not_iff bit_bit_mask)
  from update_elem_bbit [OF assms [unfolded bitmap_reset_def] this] show ?thesis by auto
qed

lemma bitmap_flip_bbit:
  assumes "bitmap_flip b i = Some b'"
  shows "bbit b' j \<longleftrightarrow> (if j = i then \<not> bbit b j else bbit b j)"
  using update_elem_bbit [OF assms [unfolded bitmap_flip_def], of Not j]
  by (auto simp: bit_xor_iff bit_bit_mask)

lemma update_elem_Some:
  assumes "wf_bitmap b" "i < bit_cnt b"
  shows "\<exists>b'. update_elem b (elem_idx i) f = Some b' \<and> wf_bitmap b' \<and> bit_cnt b' = bit_cnt b
    \<and> length (bits b') = length (bits b)"
  using wf_elem_idx [OF assms] assms(1) by (simp add: update_elem_def wf_bitmap_def)

lemma bitmap_set_Some:
  assumes "wf_bitmap b" "i < bit_cnt b"
  shows "\<exists>b'. bitmap_set b i v = Some b' \<and> wf_bitmap b' \<and> bit_cnt b' = bit_cnt b
    \<and> length (bits b') = length (bits b) \<and> (\<forall>j. bbit b' j \<longleftrightarrow> (if j = i then v else bbit b j))"
proof (cases v)
  case True
  obtain b' where "bitmap_mark b i = Some b'" "wf_bitmap b'" "bit_cnt b' = bit_cnt b"
      "length (bits b') = length (bits b)"
    using update_elem_Some [OF assms] unfolding bitmap_mark_def by blast
  then show ?thesis using True assms(2) bitmap_mark_bbit by (simp add: bitmap_set_def)
next
  case False
  obtain b' where "bitmap_reset b i = Some b'" "wf_bitmap b'" "bit_cnt b' = bit_cnt b"
      "length (bits b') = length (bits b)"
    using update_elem_Some [OF assms] unfolding bitmap_reset_def by blast
  then show ?thesis using False assms(2) bitmap_reset_bbit by (simp add: bitmap_set_def)
qed

section \<open>Loops over bits\<close>

lemma set_multiple_loop_Some:
  assumes "wf_bitmap b" "start + cnt \<le> bit_cnt b" "i \<le> cnt"
  shows "\<exists>b'. set_multiple_loop b start i cnt v = Some b' \<and> wf_bitmap b' \<and> bit_cnt b' = bit_cnt b
    \<and> length (bits b') = length (bits b)
    \<and> (\<forall>j. bbit b' j \<longleftrightarrow> (if start + i \<le> j \<and> j < start + cnt then v else bbit b j))"
  using assms
proof (induction b start i cnt v rule: set_multiple_loop.induct)
  case (1 b start i cnt v)
  show ?case
  proof (cases "i < cnt")
    case True
    have lt: "start + i < bit_cnt b" "bit_cnt b < two32" using True "1.prems" by (simp_all add: wf_bitmap_def)
    then have a: "add32 start i = start + i" by simp
    obtain b1 where b1: "bitmap_set b (start + i) v = Some b1" "wf_bitmap b1" "bit_cnt b1 = bit_cnt b"
        "length (bits b1) = length (bits b)" "\<forall>j. bbit b1 j \<longleftrightarrow> (if j = start + i then v else bbit b j)"
      using bitmap_set_Some [OF "1.prems"(1) lt(1), of v] by blast
    obtain b2 where b2: "set_multiple_loop b1 start (Suc i) cnt v = Some b2" "wf_bitmap b2"
        "bit_cnt b2 = bit_cnt b1" "length (bits b2) = length (bits b1)"
        "\<forall>j. bbit b2 j \<longleftrightarrow> (if start + Suc i \<le> j \<and> j < start + cnt then v else bbit b1 j)"
      using "1.IH" [OF True b1(1) [folded a] b1(2)] b1(3) "1.prems"(2) True
      by (metis Suc_leI)
    have "set_multiple_loop b start i cnt v = Some b2"
      using True b1(1) b2(1) a by (subst set_multiple_loop.simps) simp
    moreover have "\<forall>j. bbit b2 j \<longleftrightarrow> (if start + i \<le> j \<and> j < start + cnt then v else bbit b j)"
      using b1(5) b2(5) True by auto
    ultimately show ?thesis using b1 b2 by simp
  next
    case False
    then show ?thesis using "1.prems" by (subst set_multiple_loop.simps) auto
  qed
qed

lemma bitmap_set_multiple_Some:
  assumes "wf_bitmap b" "start + cnt \<le> bit_cnt b"
  shows "\<exists>b'. bitmap_set_multiple b start cnt v = Some b' \<and> wf_bitmap b' \<and> bit_cnt b' = bit_cnt b
    \<and> length (bits b') = length (bits b)
    \<and> (\<forall>j. bbit b' j \<longleftrightarrow> (if start \<le> j \<and> j < start + cnt then v else bbit b j))"
proof -
  have "add32 start cnt = start + cnt" using assms by (simp add: wf_bitmap_def)
  then show ?thesis using set_multiple_loop_Some [OF assms, of 0 v] assms(2)
    by (simp add: bitmap_set_multiple_def)
qed

lemma contains_loop_Some:
  assumes "wf_bitmap b" "start + cnt \<le> bit_cnt b"
  shows "contains_loop b start i cnt v = Some (\<exists>k. i \<le> k \<and> k < cnt \<and> bbit b (start + k) = v)"
  using assms
proof (induction b start i cnt v rule: contains_loop.induct)
  case (1 b start i cnt v)
  show ?case
  proof (cases "i < cnt")
    case True
    have lt: "start + i < bit_cnt b" "bit_cnt b < two32" using True "1.prems" by (simp_all add: wf_bitmap_def)
    then have t: "bitmap_test b (add32 start i) = Some (bbit b (start + i))"
      using bitmap_test_bbit [OF "1.prems"(1)] by simp
    show ?thesis
    proof (cases "bbit b (start + i) = v")
      case True
      then show ?thesis using \<open>i < cnt\<close> t by (subst contains_loop.simps) auto
    next
      case False
      have "(\<exists>k. Suc i \<le> k \<and> k < cnt \<and> bbit b (start + k) = v)
          \<longleftrightarrow> (\<exists>k. i \<le> k \<and> k < cnt \<and> bbit b (start + k) = v)"
        using False ex_ge_Suc [of i "\<lambda>k. k < cnt \<and> bbit b (start + k) = v"] by simp
      then show ?thesis using \<open>i < cnt\<close> t False "1.IH" [OF True t False] "1.prems"
        by (subst contains_loop.simps) simp
    qed
  next
    case False
    then show ?thesis by (subst contains_loop.simps) auto
  qed
qed

lemma bitmap_contains_Some:
  assumes "wf_bitmap b" "start + cnt \<le> bit_cnt b"
  shows "bitmap_contains b start cnt v = Some (\<exists>k < cnt. bbit b (start + k) = v)"
proof -
  have "add32 start cnt = start + cnt" using assms by (simp add: wf_bitmap_def)
  then show ?thesis using contains_loop_Some [OF assms, of 0 v] assms(2)
    by (simp add: bitmap_contains_def)
qed

lemma bitmap_all_Some:
  assumes "wf_bitmap b" "start + cnt \<le> bit_cnt b"
  shows "bitmap_all b start cnt = Some (\<forall>k < cnt. bbit b (start + k))"
  using bitmap_contains_Some [OF assms] by (simp add: bitmap_all_def)

lemma count_loop_Some:
  assumes "wf_bitmap b" "start + cnt \<le> bit_cnt b"
  shows "count_loop b start i cnt v n = Some (n + length (filter (\<lambda>k. bbit b (start + k) = v) [i..<cnt]))"
  using assms
proof (induction b start i cnt v n rule: count_loop.induct)
  case (1 b start i cnt v n)
  show ?case
  proof (cases "i < cnt")
    case True
    have lt: "start + i < bit_cnt b" "bit_cnt b < two32" using True "1.prems" by (simp_all add: wf_bitmap_def)
    then have t: "bitmap_test b (add32 start i) = Some (bbit b (start + i))"
      using bitmap_test_bbit [OF "1.prems"(1)] by simp
    show ?thesis using True t "1.IH" [OF True t] "1.prems"
      by (subst count_loop.simps) (simp add: upt_conv_Cons)
  next
    case False
    then show ?thesis by (subst count_loop.simps) auto
  qed
qed

lemma bitmap_count_Some:
  assumes "wf_bitmap b" "start + cnt \<le> bit_cnt b"
  shows "bitmap_count b start cnt v = Some (card {i. start \<le> i \<and> i < start + cnt \<and> bbit b i = v})"
proof -
  have "add32 start cnt = start + cnt" using assms by (simp add: wf_bitmap_def)
  then have "bitmap_count b start cnt v = Some (length (filter (\<lambda>k. bbit b (start + k) = v) [0..<cnt]))"
    using count_loop_Some [OF assms, of 0 v 0] assms(2) by (simp add: bitmap_count_def)
  moreover have "length (filter (\<lambda>k. bbit b (start + k) = v) [0..<cnt])
      = card {k. k < cnt \<and> bbit b (start + k) = v}"
    by (subst distinct_card [symmetric]) (auto intro: arg_cong [where f = card])
  moreover have "{i. start \<le> i \<and> i < start + cnt \<and> bbit b i = v}
      = (\<lambda>k. start + k) ` {k. k < cnt \<and> bbit b (start + k) = v}"
  proof (intro set_eqI iffI)
    fix i assume "i \<in> {i. start \<le> i \<and> i < start + cnt \<and> bbit b i = v}"
    then show "i \<in> (\<lambda>k. start + k) ` {k. k < cnt \<and> bbit b (start + k) = v}"
      by (intro image_eqI [of _ _ "i - start"]) auto
  qed auto
  ultimately show ?thesis by (simp add: card_image)
qed

section \<open>The search\<close>

definition run_at :: "bitmap \<Rightarrow> nat \<Rightarrow> nat \<Rightarrow> bool \<Rightarrow> bool" where
  "run_at b i cnt v \<longleftrightarrow> i + cnt \<le> bit_cnt b \<and> (\<forall>k < cnt. bbit b (i + k) = v)"

lemma scan_loop_Some:
  assumes "wf_bitmap b" "cnt \<le> bit_cnt b" "lst = bit_cnt b - cnt"
  shows "\<exists>r. scan_loop b i lst cnt v = Some r
    \<and> (r = BITMAP_ERROR \<and> (\<forall>k \<ge> i. \<not> run_at b k cnt v)
       \<or> i \<le> r \<and> run_at b r cnt v \<and> (\<forall>k. i \<le> k \<and> k < r \<longrightarrow> \<not> run_at b k cnt v))"
  using assms
proof (induction b i lst cnt v rule: scan_loop.induct)
  case (1 b i lst cnt v)
  show ?case
  proof (cases "i \<le> lst")
    case True
    then have ic: "i + cnt \<le> bit_cnt b" using "1.prems" by simp
    have c: "bitmap_contains b i cnt (\<not> v) = Some (\<not> run_at b i cnt v)"
      using bitmap_contains_Some [OF "1.prems"(1) ic, of "\<not> v"] ic by (auto simp: run_at_def)
    show ?thesis
    proof (cases "run_at b i cnt v")
      case True
      then show ?thesis using \<open>i \<le> lst\<close> c by (subst scan_loop.simps) auto
    next
      case False
      then obtain r where r: "scan_loop b (Suc i) lst cnt v = Some r"
          "r = BITMAP_ERROR \<and> (\<forall>k \<ge> Suc i. \<not> run_at b k cnt v)
           \<or> Suc i \<le> r \<and> run_at b r cnt v \<and> (\<forall>k. Suc i \<le> k \<and> k < r \<longrightarrow> \<not> run_at b k cnt v)"
        using "1.IH" [OF True c] "1.prems" by blast
      have "r = BITMAP_ERROR \<and> (\<forall>k \<ge> i. \<not> run_at b k cnt v)
          \<or> i \<le> r \<and> run_at b r cnt v \<and> (\<forall>k. i \<le> k \<and> k < r \<longrightarrow> \<not> run_at b k cnt v)"
        using r(2) False all_ge_Suc [of i "\<lambda>k. \<not> run_at b k cnt v"]
          all_ge_Suc [of i "\<lambda>k. k < r \<longrightarrow> \<not> run_at b k cnt v"] by auto
      then show ?thesis using \<open>i \<le> lst\<close> c False r(1) by (subst scan_loop.simps) simp
    qed
  next
    case False
    then show ?thesis using "1.prems" by (subst scan_loop.simps) (auto simp: run_at_def)
  qed
qed

lemma bitmap_scan_Some:
  assumes "wf_bitmap b" "start \<le> bit_cnt b"
  shows "\<exists>r. bitmap_scan b start cnt v = Some r
    \<and> (r = BITMAP_ERROR \<and> (\<forall>k \<ge> start. \<not> run_at b k cnt v)
       \<or> start \<le> r \<and> run_at b r cnt v \<and> (\<forall>k. start \<le> k \<and> k < r \<longrightarrow> \<not> run_at b k cnt v))"
proof (cases "cnt \<le> bit_cnt b")
  case True
  then show ?thesis using scan_loop_Some [OF assms(1) True refl, of start v] assms(2)
    by (simp add: bitmap_scan_def)
next
  case False
  then show ?thesis using assms(2) by (auto simp: bitmap_scan_def run_at_def)
qed

lemma run_at_not_error: "wf_bitmap b \<Longrightarrow> run_at b r cnt v \<Longrightarrow> r \<noteq> BITMAP_ERROR"
  by (auto simp: wf_bitmap_def run_at_def BITMAP_ERROR_def)

lemma bitmap_scan_and_flip_Some:
  assumes "wf_bitmap b" "start \<le> bit_cnt b"
  shows "\<exists>b' r. bitmap_scan_and_flip b start cnt v = Some (b', r)
    \<and> wf_bitmap b' \<and> bit_cnt b' = bit_cnt b \<and> length (bits b') = length (bits b)
    \<and> (r = BITMAP_ERROR \<and> b' = b \<and> (\<forall>k \<ge> start. \<not> run_at b k cnt v)
       \<or> start \<le> r \<and> r < BITMAP_ERROR \<and> run_at b r cnt v
         \<and> (\<forall>k. start \<le> k \<and> k < r \<longrightarrow> \<not> run_at b k cnt v)
         \<and> (\<forall>j. bbit b' j \<longleftrightarrow> (if r \<le> j \<and> j < r + cnt then \<not> v else bbit b j)))"
proof -
  obtain r where r: "bitmap_scan b start cnt v = Some r"
      "r = BITMAP_ERROR \<and> (\<forall>k \<ge> start. \<not> run_at b k cnt v)
       \<or> start \<le> r \<and> run_at b r cnt v \<and> (\<forall>k. start \<le> k \<and> k < r \<longrightarrow> \<not> run_at b k cnt v)"
    using bitmap_scan_Some [OF assms] by blast
  show ?thesis
  proof (cases "r = BITMAP_ERROR")
    case True
    then have "\<forall>k \<ge> start. \<not> run_at b k cnt v" using r(2) run_at_not_error [OF assms(1)] by blast
    then show ?thesis using True r(1) assms(1) by (simp add: bitmap_scan_and_flip_def)
  next
    case False
    then have g: "start \<le> r" "run_at b r cnt v" "\<forall>k. start \<le> k \<and> k < r \<longrightarrow> \<not> run_at b k cnt v"
      using r(2) by blast+
    have "r < BITMAP_ERROR" using g(2) assms(1) by (simp add: run_at_def wf_bitmap_def BITMAP_ERROR_def)
    moreover have "r + cnt \<le> bit_cnt b" using g(2) by (simp add: run_at_def)
    ultimately obtain b' where b': "bitmap_set_multiple b r cnt (\<not> v) = Some b'" "wf_bitmap b'"
        "bit_cnt b' = bit_cnt b" "length (bits b') = length (bits b)"
        "\<forall>j. bbit b' j \<longleftrightarrow> (if r \<le> j \<and> j < r + cnt then \<not> v else bbit b j)"
      using bitmap_set_multiple_Some [OF assms(1), of r cnt "\<not> v"] by blast
    have "bitmap_scan_and_flip b start cnt v = Some (b', r)"
      using False r(1) b'(1) by (simp add: bitmap_scan_and_flip_def)
    then show ?thesis using b'(2-) g \<open>r < BITMAP_ERROR\<close> by blast
  qed
qed

section \<open>Creation\<close>

lemma bitmap_set_all_Some:
  assumes "wf_bitmap b"
  shows "\<exists>b'. bitmap_set_all b v = Some b' \<and> wf_bitmap b' \<and> bit_cnt b' = bit_cnt b
    \<and> length (bits b') = length (bits b) \<and> (\<forall>j < bit_cnt b. bbit b' j = v)"
  using bitmap_set_multiple_Some [OF assms, of 0 "bit_cnt b" v]
  by (auto simp: bitmap_set_all_def bitmap_size_def)

section \<open>The bitmap as an allocator\<close>

text \<open>
  Page pools and the free-sector map allocate with \<^verbatim>\<open>bitmap_scan_and_flip (b, 0, n, false)\<close>
  and release with \<^verbatim>\<open>bitmap_set_multiple (b, i, n, false)\<close>.
\<close>

definition bitmap_alloc :: "bitmap \<Rightarrow> nat \<Rightarrow> (bitmap \<times> nat option) option" where
  "bitmap_alloc b n = map_option (\<lambda>(b', r). (b', if r = BITMAP_ERROR then None else Some r))
     (bitmap_scan_and_flip b 0 n False)"

definition bitmap_release :: "bitmap \<Rightarrow> nat \<Rightarrow> nat \<Rightarrow> bitmap option" where
  "bitmap_release b i n = bitmap_set_multiple b i n False"

lemma run_at_free_run: "run_at b i n False \<longleftrightarrow> free_run (bit_cnt b) (bbit b) i n"
  by (auto simp: run_at_def free_run_def) (metis le_add_diff_inverse nat_add_left_cancel_less)

lemma bitmap_alloc_cases:
  assumes "wf_bitmap b"
  obtains b' r where "bitmap_alloc b n = Some (b', r)" "wf_bitmap b'" "bit_cnt b' = bit_cnt b"
    "r = None \<Longrightarrow> b' = b \<and> (\<nexists>i. free_run (bit_cnt b) (bbit b) i n)"
    "\<And>i. r = Some i \<Longrightarrow> free_run (bit_cnt b) (bbit b) i n
      \<and> (\<forall>j. bbit b' j \<longleftrightarrow> bbit b j \<or> i \<le> j \<and> j < i + n)"
proof -
  obtain b' r where s: "bitmap_scan_and_flip b 0 n False = Some (b', r)" "wf_bitmap b'"
      "bit_cnt b' = bit_cnt b"
      "r = BITMAP_ERROR \<and> b' = b \<and> (\<forall>k \<ge> 0. \<not> run_at b k n False)
       \<or> 0 \<le> r \<and> r < BITMAP_ERROR \<and> run_at b r n False
         \<and> (\<forall>k. 0 \<le> k \<and> k < r \<longrightarrow> \<not> run_at b k n False)
         \<and> (\<forall>j. bbit b' j \<longleftrightarrow> (if r \<le> j \<and> j < r + n then \<not> False else bbit b j))"
    using bitmap_scan_and_flip_Some [OF assms, of 0 n False] by auto
  show ?thesis
    by (rule that [of b' "if r = BITMAP_ERROR then None else Some r"])
      (use s in \<open>auto simp: bitmap_alloc_def run_at_free_run split: if_splits\<close>)
qed

interpretation bm: region_alloc wf_bitmap bit_cnt bbit bitmap_alloc bitmap_release
proof
  fix b b' :: bitmap and n i r
  assume wf: "wf_bitmap b"
  show "\<exists>s' r. bitmap_alloc b n = Some (s', r)" by (rule bitmap_alloc_cases [OF wf]) blast
  show "wf_bitmap b' \<and> bit_cnt b' = bit_cnt b" if "bitmap_alloc b n = Some (b', r)"
    by (rule bitmap_alloc_cases [OF wf, of n]) (use that in auto)
  show "b' = b \<and> (\<nexists>i. free_run (bit_cnt b) (bbit b) i n)" if "bitmap_alloc b n = Some (b', None)"
    by (rule bitmap_alloc_cases [OF wf, of n]) (use that in auto)
  show "free_run (bit_cnt b) (bbit b) i n \<and> (\<forall>j. bbit b' j \<longleftrightarrow> bbit b j \<or> i \<le> j \<and> j < i + n)"
    if "bitmap_alloc b n = Some (b', Some i)"
    by (rule bitmap_alloc_cases [OF wf, of n]) (use that in auto)
  assume "i + n \<le> bit_cnt b"
  then show "\<exists>s'. bitmap_release b i n = Some s' \<and> wf_bitmap s' \<and> bit_cnt s' = bit_cnt b
      \<and> (\<forall>j. bbit s' j \<longleftrightarrow> bbit b j \<and> \<not> (i \<le> j \<and> j < i + n))"
    using bitmap_set_multiple_Some [OF wf, of i n False] by (auto simp: bitmap_release_def)
qed

section \<open>Properties\<close>



text \<open>
  C13. A new bitmap is empty: whatever the memory that \<^verbatim>\<open>malloc\<close> returned held,
  \<^verbatim>\<open>bitmap_create\<close> yields a well-formed bitmap of the requested size in which
  \<^verbatim>\<open>bitmap_count\<close> finds no set bit and \<^verbatim>\<open>bitmap_test\<close> is false everywhere.
\<close>

theorem bitmap_create_empty:
  assumes "n + 32 < two32" "length ws = elem_cnt n"
  shows "\<exists>b. bitmap_create True (Some ws) n = Some (Some b) \<and> wf_bitmap b \<and> bitmap_size b = n
    \<and> bitmap_count b 0 n True = Some 0 \<and> (\<forall>i < n. bitmap_test b i = Some False)"
proof -
  have "wf_bitmap \<lparr>bit_cnt = n, bits = ws\<rparr>" using assms by (simp add: wf_bitmap_def)
  from bitmap_set_all_Some [OF this, of False] obtain b where b:
      "bitmap_set_all \<lparr>bit_cnt = n, bits = ws\<rparr> False = Some b" "wf_bitmap b" "bit_cnt b = n"
      "\<forall>j < n. \<not> bbit b j"
    by auto
  have "{i. 0 \<le> i \<and> i < 0 + n \<and> bbit b i = True} = {}" using b(4) by auto
  then have "bitmap_count b 0 n True = Some 0" using bitmap_count_Some [OF b(2), of 0 n True] b(3)
    by (metis card.empty add_0 order_refl)
  then show ?thesis using b bitmap_test_bbit [OF b(2)] by (simp add: bitmap_create_def bitmap_size_def)
qed

theorem bitmap_create_empty_witness:
  "\<exists>b. bitmap_create True (Some [7, 9]) 40 = Some (Some b) \<and> wf_bitmap b \<and> bitmap_size b = 40
    \<and> bitmap_count b 0 40 True = Some 0 \<and> (\<forall>i < 40. bitmap_test b i = Some False)"
  by (rule bitmap_create_empty) (simp_all add: elem_cnt_def DIV_ROUND_UP_eq)

end
