(* ===== verification/CString.thy ===== *)
theory CString
  imports Prelude
begin

text \<open>
  The C string library (\<^verbatim>\<open>lib/string.c\<close>), \<^verbatim>\<open>atoi\<close> of \<^verbatim>\<open>lib/stdlib.c\<close> and the character
  classes they use (\<^verbatim>\<open>lib/ctype.h\<close>). Memory is a function from addresses to bytes, so that
  overlapping and aliased arguments are represented; objects do not wrap around the end of the
  address space. A loop that walks an unterminated string does not return (\<^const>\<open>None\<close>).
  \<open>cstr m p s\<close> says that a null-terminated string \<open>s\<close> is stored at \<open>p\<close>.
\<close>

type_synonym mem = "nat \<Rightarrow> u8"

section \<open>Blocks of memory\<close>

primrec copy_forward :: "mem \<Rightarrow> nat \<Rightarrow> nat \<Rightarrow> nat \<Rightarrow> mem" where
  "copy_forward m dst src 0 = m"
| "copy_forward m dst src (Suc n) = copy_forward (m(dst := m src)) (Suc dst) (Suc src) n"

primrec copy_backward :: "mem \<Rightarrow> nat \<Rightarrow> nat \<Rightarrow> nat \<Rightarrow> mem" where
  "copy_backward m dst src 0 = m"
| "copy_backward m dst src (Suc n) = copy_backward (m(dst - 1 := m (src - 1))) (dst - 1) (src - 1) n"

definition memcpy :: "mem \<Rightarrow> ptr \<Rightarrow> ptr \<Rightarrow> nat \<Rightarrow> (mem \<times> ptr) option" where
  "memcpy m dst0 src0 n = do {
     ASSERT (dst0 \<noteq> NULL \<or> n = 0);
     ASSERT (src0 \<noteq> NULL \<or> n = 0);
     Some (copy_forward m dst0 src0 n, dst0)
   }"

text \<open>The returned pointer is the moving \<^verbatim>\<open>dst\<close>, as in the source, not \<^verbatim>\<open>dst_\<close>.\<close>

definition memmove :: "mem \<Rightarrow> ptr \<Rightarrow> ptr \<Rightarrow> nat \<Rightarrow> (mem \<times> ptr) option" where
  "memmove m dst0 src0 n = do {
     ASSERT (dst0 \<noteq> NULL \<or> n = 0);
     ASSERT (src0 \<noteq> NULL \<or> n = 0);
     if dst0 < src0 then Some (copy_forward m dst0 src0 n, dst0 + n)
     else Some (copy_backward m (dst0 + n) (src0 + n) n, dst0)
   }"

primrec memcmp_loop :: "mem \<Rightarrow> nat \<Rightarrow> nat \<Rightarrow> nat \<Rightarrow> int" where
  "memcmp_loop m a b 0 = 0"
| "memcmp_loop m a b (Suc n) =
     (if m a \<noteq> m b then (if m a > m b then 1 else - 1) else memcmp_loop m (Suc a) (Suc b) n)"

definition memcmp :: "mem \<Rightarrow> ptr \<Rightarrow> ptr \<Rightarrow> nat \<Rightarrow> int option" where
  "memcmp m a b n = do {
     ASSERT (a \<noteq> NULL \<or> n = 0);
     ASSERT (b \<noteq> NULL \<or> n = 0);
     Some (memcmp_loop m a b n)
   }"

primrec memchr_loop :: "mem \<Rightarrow> nat \<Rightarrow> u8 \<Rightarrow> nat \<Rightarrow> ptr" where
  "memchr_loop m block ch 0 = NULL"
| "memchr_loop m block ch (Suc n) = (if m block = ch then block else memchr_loop m (Suc block) ch n)"

definition memchr :: "mem \<Rightarrow> ptr \<Rightarrow> u8 \<Rightarrow> nat \<Rightarrow> ptr option" where
  "memchr m block ch n = do {
     ASSERT (block \<noteq> NULL \<or> n = 0);
     Some (memchr_loop m block ch n)
   }"

primrec memset_loop :: "mem \<Rightarrow> nat \<Rightarrow> u8 \<Rightarrow> nat \<Rightarrow> mem" where
  "memset_loop m dst v 0 = m"
| "memset_loop m dst v (Suc n) = memset_loop (m(dst := v)) (Suc dst) v n"

definition memset :: "mem \<Rightarrow> ptr \<Rightarrow> u8 \<Rightarrow> nat \<Rightarrow> (mem \<times> ptr) option" where
  "memset m dst0 v n = do {
     ASSERT (dst0 \<noteq> NULL \<or> n = 0);
     Some (memset_loop m dst0 v n, dst0)
   }"

section \<open>Strings\<close>

partial_function (option) strlen_loop :: "mem \<Rightarrow> nat \<Rightarrow> nat option" where
  "strlen_loop m p = (if m p \<noteq> 0 then strlen_loop m (Suc p) else Some p)"

definition strlen :: "mem \<Rightarrow> ptr \<Rightarrow> nat option" where
  "strlen m string = do {
     ASSERT (string \<noteq> NULL);
     p \<leftarrow> strlen_loop m string;
     Some (p - string)
   }"

function strnlen_loop :: "mem \<Rightarrow> ptr \<Rightarrow> nat \<Rightarrow> nat \<Rightarrow> nat" where
  "strnlen_loop m string len maxlen =
     (if m (string + len) \<noteq> 0 \<and> len < maxlen then strnlen_loop m string (Suc len) maxlen else len)"
  by pat_completeness auto
termination
  by (relation "measure (\<lambda>(m, string, len, maxlen). maxlen - len)") auto

definition strnlen :: "mem \<Rightarrow> ptr \<Rightarrow> nat \<Rightarrow> nat" where
  "strnlen m string maxlen = strnlen_loop m string 0 maxlen"

partial_function (option) strcmp_loop :: "mem \<Rightarrow> nat \<Rightarrow> nat \<Rightarrow> (nat \<times> nat) option" where
  "strcmp_loop m a b =
     (if m a \<noteq> 0 \<and> m a = m b then strcmp_loop m (Suc a) (Suc b) else Some (a, b))"

definition strcmp :: "mem \<Rightarrow> ptr \<Rightarrow> ptr \<Rightarrow> int option" where
  "strcmp m a b = do {
     ASSERT (a \<noteq> NULL);
     ASSERT (b \<noteq> NULL);
     (a, b) \<leftarrow> strcmp_loop m a b;
     Some (if m a < m b then - 1 else if m a > m b then 1 else 0)
   }"

partial_function (option) strchr_loop :: "mem \<Rightarrow> ptr \<Rightarrow> u8 \<Rightarrow> ptr option" where
  "strchr_loop m string c =
     (if m string = c then Some string
      else if m string = 0 then Some NULL
      else strchr_loop m (Suc string) c)"

definition strchr :: "mem \<Rightarrow> ptr \<Rightarrow> u8 \<Rightarrow> ptr option" where
  "strchr m string c = do {
     ASSERT (string \<noteq> NULL);
     strchr_loop m string c
   }"

partial_function (option) strcspn_loop :: "mem \<Rightarrow> ptr \<Rightarrow> ptr \<Rightarrow> nat \<Rightarrow> nat option" where
  "strcspn_loop m string stop len =
     (if m (string + len) \<noteq> 0 then do {
        p \<leftarrow> strchr m stop (m (string + len));
        if p \<noteq> NULL then Some len else strcspn_loop m string stop (Suc len)
      } else Some len)"

definition strcspn :: "mem \<Rightarrow> ptr \<Rightarrow> ptr \<Rightarrow> nat option" where
  "strcspn m string stop = strcspn_loop m string stop 0"

partial_function (option) strpbrk :: "mem \<Rightarrow> ptr \<Rightarrow> ptr \<Rightarrow> ptr option" where
  "strpbrk m string stop =
     (if m string \<noteq> 0 then do {
        p \<leftarrow> strchr m stop (m string);
        if p \<noteq> NULL then Some string else strpbrk m (Suc string) stop
      } else Some NULL)"

partial_function (option) strrchr_loop :: "mem \<Rightarrow> ptr \<Rightarrow> u8 \<Rightarrow> ptr \<Rightarrow> ptr option" where
  "strrchr_loop m string c p =
     (if m string \<noteq> 0 then strrchr_loop m (Suc string) c (if m string = c then string else p)
      else Some p)"

definition strrchr :: "mem \<Rightarrow> ptr \<Rightarrow> u8 \<Rightarrow> ptr option" where
  "strrchr m string c = strrchr_loop m string c NULL"

partial_function (option) strspn_loop :: "mem \<Rightarrow> ptr \<Rightarrow> ptr \<Rightarrow> nat \<Rightarrow> nat option" where
  "strspn_loop m string skip len =
     (if m (string + len) \<noteq> 0 then do {
        p \<leftarrow> strchr m skip (m (string + len));
        if p = NULL then Some len else strspn_loop m string skip (Suc len)
      } else Some len)"

definition strspn :: "mem \<Rightarrow> ptr \<Rightarrow> ptr \<Rightarrow> nat option" where
  "strspn m string skip = strspn_loop m string skip 0"

function strstr_loop :: "mem \<Rightarrow> ptr \<Rightarrow> ptr \<Rightarrow> nat \<Rightarrow> nat \<Rightarrow> nat \<Rightarrow> ptr option" where
  "strstr_loop m haystack needle i lim needle_len =
     (if i \<le> lim then do {
        c \<leftarrow> memcmp m (haystack + i) needle needle_len;
        if c = 0 then Some (haystack + i) else strstr_loop m haystack needle (Suc i) lim needle_len
      } else Some NULL)"
  by pat_completeness auto
termination
  by (relation "measure (\<lambda>(m, haystack, needle, i, lim, n). Suc lim - i)") auto

definition strstr :: "mem \<Rightarrow> ptr \<Rightarrow> ptr \<Rightarrow> ptr option" where
  "strstr m haystack needle = do {
     haystack_len \<leftarrow> strlen m haystack;
     needle_len \<leftarrow> strlen m needle;
     if haystack_len \<ge> needle_len then strstr_loop m haystack needle 0 (haystack_len - needle_len) needle_len
     else Some NULL
   }"

section \<open>Tokens\<close>

text \<open>The result of skipping delimiters is the position reached and whether the string ended.\<close>

partial_function (option) skip_delimiters :: "mem \<Rightarrow> ptr \<Rightarrow> ptr \<Rightarrow> (ptr \<times> bool) option" where
  "skip_delimiters m s delimiters = do {
     p \<leftarrow> strchr m delimiters (m s);
     if p \<noteq> NULL then
       if m s = 0 then Some (s, True) else skip_delimiters m (Suc s) delimiters
     else Some (s, False)
   }"

partial_function (option) skip_token :: "mem \<Rightarrow> ptr \<Rightarrow> ptr \<Rightarrow> ptr option" where
  "skip_token m s delimiters = do {
     p \<leftarrow> strchr m delimiters (m s);
     if p = NULL then skip_token m (Suc s) delimiters else Some s
   }"

text \<open>\<open>save\<close> is the content of \<^verbatim>\<open>*save_ptr\<close>; the result is the memory, \<^verbatim>\<open>*save_ptr\<close> and the token.\<close>

definition strtok_r :: "mem \<Rightarrow> ptr \<Rightarrow> ptr \<Rightarrow> ptr \<Rightarrow> (mem \<times> ptr \<times> ptr) option" where
  "strtok_r m s delimiters save = do {
     ASSERT (delimiters \<noteq> NULL);
     let s = (if s = NULL then save else s);
     ASSERT (s \<noteq> NULL);
     (s, at_end) \<leftarrow> skip_delimiters m s delimiters;
     if at_end then Some (m, s, NULL)
     else do {
       let token = s;
       s \<leftarrow> skip_token m s delimiters;
       if m s \<noteq> 0 then Some (m(s := 0), Suc s, token)
       else Some (m, s, token)
     }
   }"

section \<open>Bounded copies\<close>

definition strlcpy :: "mem \<Rightarrow> ptr \<Rightarrow> ptr \<Rightarrow> nat \<Rightarrow> (mem \<times> nat) option" where
  "strlcpy m dst src n = do {
     ASSERT (dst \<noteq> NULL);
     ASSERT (src \<noteq> NULL);
     src_len \<leftarrow> strlen m src;
     if n > 0 then do {
       let dst_len = (if src_len < n - 1 then src_len else n - 1);
       (m, _) \<leftarrow> memcpy m dst src dst_len;
       Some (m(dst + dst_len := 0), src_len)
     } else Some (m, src_len)
   }"

definition strlcat :: "mem \<Rightarrow> ptr \<Rightarrow> ptr \<Rightarrow> nat \<Rightarrow> (mem \<times> nat) option" where
  "strlcat m dst src n = do {
     ASSERT (dst \<noteq> NULL);
     ASSERT (src \<noteq> NULL);
     src_len \<leftarrow> strlen m src;
     dst_len \<leftarrow> strlen m dst;
     if n > 0 \<and> dst_len < n then do {
       let copy_cnt = (if src_len < n - dst_len - 1 then src_len else n - dst_len - 1);
       (m, _) \<leftarrow> memcpy m (dst + dst_len) src copy_cnt;
       Some (m(dst + dst_len + copy_cnt := 0), src_len + dst_len)
     } else Some (m, src_len + dst_len)
   }"

section \<open>Numbers\<close>

definition isspace :: "u8 \<Rightarrow> bool" where
  "isspace c \<longleftrightarrow> c = 32 \<or> c = 12 \<or> c = 10 \<or> c = 13 \<or> c = 9 \<or> c = 11"

definition isdigit :: "u8 \<Rightarrow> bool" where
  "isdigit c \<longleftrightarrow> c \<ge> 48 \<and> c \<le> 57"

text \<open>Signed overflow is undefined behaviour in C and gives \<^const>\<open>None\<close>.\<close>

definition int32 :: "int \<Rightarrow> int option" where
  "int32 v = (if - (2 ^ 31) \<le> v \<and> v < 2 ^ 31 then Some v else None)"

partial_function (option) skip_space :: "mem \<Rightarrow> ptr \<Rightarrow> ptr option" where
  "skip_space m s = (if isspace (m s) then skip_space m (Suc s) else Some s)"

partial_function (option) atoi_loop :: "mem \<Rightarrow> ptr \<Rightarrow> int \<Rightarrow> int option" where
  "atoi_loop m s v =
     (if isdigit (m s) then do {
        t \<leftarrow> int32 (v * 10);
        v \<leftarrow> int32 (t - (uint (m s) - 48));
        atoi_loop m (Suc s) v
      } else Some v)"

definition atoi :: "mem \<Rightarrow> ptr \<Rightarrow> int option" where
  "atoi m s = do {
     ASSERT (s \<noteq> NULL);
     s \<leftarrow> skip_space m s;
     let negative = (m s = 45);
     let s = (if m s = 43 \<or> m s = 45 then Suc s else s);
     v \<leftarrow> atoi_loop m s 0;
     if negative then Some v else int32 (- v)
   }"

declare strnlen_loop.simps [simp del] strstr_loop.simps [simp del]

section \<open>Stored bytes and strings\<close>

definition stored :: "mem \<Rightarrow> nat \<Rightarrow> u8 list \<Rightarrow> bool" where
  "stored m p xs \<longleftrightarrow> (\<forall>i < length xs. m (p + i) = xs ! i)"

definition cstr :: "mem \<Rightarrow> nat \<Rightarrow> u8 list \<Rightarrow> bool" where
  "cstr m p s \<longleftrightarrow> stored m p s \<and> 0 \<notin> set s \<and> m (p + length s) = 0"

lemma stored_Nil [simp]: "stored m p []"
  by (simp add: stored_def)

lemma stored_Cons [simp]: "stored m p (x # xs) \<longleftrightarrow> m p = x \<and> stored m (Suc p) xs"
  by (auto simp: stored_def nth_Cons' less_Suc_eq_0_disj)

lemma stored_append: "stored m p (xs @ ys) \<longleftrightarrow> stored m p xs \<and> stored m (p + length xs) ys"
  by (induction xs arbitrary: p) auto

lemma stored_cong: "(\<And>q. p \<le> q \<Longrightarrow> q < p + length xs \<Longrightarrow> m' q = m q) \<Longrightarrow> stored m' p xs = stored m p xs"
  by (simp add: stored_def)

lemma cstr_Nil [simp]: "cstr m p [] \<longleftrightarrow> m p = 0"
  by (simp add: cstr_def)

lemma cstr_Cons [simp]: "cstr m p (c # s) \<longleftrightarrow> c \<noteq> 0 \<and> m p = c \<and> cstr m (Suc p) s"
  by (auto simp: cstr_def)

lemma cstr_append: "cstr m p (xs @ ys) \<longleftrightarrow> stored m p xs \<and> 0 \<notin> set xs \<and> cstr m (p + length xs) ys"
  by (auto simp: cstr_def stored_append add.assoc)

lemma cstr_cong: "(\<And>q. p \<le> q \<Longrightarrow> q \<le> p + length s \<Longrightarrow> m' q = m q) \<Longrightarrow> cstr m' p s = cstr m p s"
  using stored_cong [of p s m' m] by (auto simp: cstr_def)

section \<open>Copies\<close>

lemma copy_forward_eq:
  assumes "dst \<le> src \<or> src + n \<le> dst"
  shows "copy_forward m dst src n q = (if dst \<le> q \<and> q < dst + n then m (src + (q - dst)) else m q)"
  using assms
proof (induction n arbitrary: m dst src)
  case (Suc n)
  have "copy_forward (m(dst := m src)) (Suc dst) (Suc src) n q =
      (if Suc dst \<le> q \<and> q < Suc dst + n then (m(dst := m src)) (Suc src + (q - Suc dst)) else (m(dst := m src)) q)"
    using Suc.prems by (intro Suc.IH) auto
  moreover have "Suc src + (q - Suc dst) = src + (q - dst)" if "Suc dst \<le> q" using that by simp
  ultimately show ?case using Suc.prems by (auto simp: Suc_le_eq simp del: add_Suc)
qed auto

lemma copy_backward_eq:
  assumes "src \<le> dst"
  shows "copy_backward m (dst + n) (src + n) n q = (if dst \<le> q \<and> q < dst + n then m (src + (q - dst)) else m q)"
  using assms
proof (induction n arbitrary: m)
  case (Suc n)
  then show ?case by (auto simp: less_Suc_eq)
qed auto

lemma memset_loop_eq: "memset_loop m dst v n q = (if dst \<le> q \<and> q < dst + n then v else m q)"
  by (induction n arbitrary: m dst) auto

lemma memcmp_loop_eq_0: "memcmp_loop m a b n = 0 \<longleftrightarrow> (\<forall>i < n. m (a + i) = m (b + i))"
  by (induction n arbitrary: a b) (auto simp: All_less_Suc2 split: if_splits)

section \<open>Scanning strings\<close>

lemma strlen_loop_cstr: "cstr m p s \<Longrightarrow> strlen_loop m p = Some (p + length s)"
  by (induction s arbitrary: p) (subst strlen_loop.simps, simp)+

lemma strlen_cstr: "cstr m p s \<Longrightarrow> p \<noteq> NULL \<Longrightarrow> strlen m p = Some (length s)"
  by (simp add: strlen_def strlen_loop_cstr)

lemma strchr_loop_cstr:
  "cstr m p s \<Longrightarrow> p \<noteq> NULL \<Longrightarrow> \<exists>q. strchr_loop m p c = Some q \<and> (q = NULL \<longleftrightarrow> c \<noteq> 0 \<and> c \<notin> set s)"
  by (induction s arbitrary: p) (subst strchr_loop.simps, auto)+

lemma strchr_cstr:
  "cstr m p s \<Longrightarrow> p \<noteq> NULL \<Longrightarrow> \<exists>q. strchr m p c = Some q \<and> (q = NULL \<longleftrightarrow> c \<noteq> 0 \<and> c \<notin> set s)"
  using strchr_loop_cstr by (simp add: strchr_def)

lemma skip_delimiters_cstr:
  assumes "cstr m d D" "d \<noteq> NULL"
  shows "cstr m s str \<Longrightarrow> skip_delimiters m s d =
    Some (s + length (takeWhile (\<lambda>c. c \<in> set D) str), dropWhile (\<lambda>c. c \<in> set D) str = [])"
proof (induction str arbitrary: s)
  case Nil
  then show ?case using strchr_cstr [OF assms, of 0] by (subst skip_delimiters.simps) auto
next
  case (Cons c str)
  then show ?case using strchr_cstr [OF assms, of c] by (subst skip_delimiters.simps) auto
qed

lemma skip_token_cstr:
  assumes "cstr m d D" "d \<noteq> NULL"
  shows "cstr m s str \<Longrightarrow> skip_token m s d = Some (s + length (takeWhile (\<lambda>c. c \<notin> set D) str))"
proof (induction str arbitrary: s)
  case Nil
  then show ?case using strchr_cstr [OF assms, of 0] by (subst skip_token.simps) auto
next
  case (Cons c str)
  then show ?case using strchr_cstr [OF assms, of c] by (subst skip_token.simps) auto
qed

lemma strcspn_loop_cstr:
  assumes "cstr m d D" "d \<noteq> NULL"
  shows "cstr m (s + k) str \<Longrightarrow> strcspn_loop m s d k = Some (k + length (takeWhile (\<lambda>c. c \<notin> set D) str))"
proof (induction str arbitrary: k)
  case Nil
  then show ?case by (subst strcspn_loop.simps) auto
next
  case (Cons c str)
  then show ?case using strchr_cstr [OF assms, of c] Cons.IH [of "Suc k"] by (subst strcspn_loop.simps) auto
qed

lemma strspn_loop_cstr:
  assumes "cstr m d D" "d \<noteq> NULL"
  shows "cstr m (s + k) str \<Longrightarrow> strspn_loop m s d k = Some (k + length (takeWhile (\<lambda>c. c \<in> set D) str))"
proof (induction str arbitrary: k)
  case Nil
  then show ?case by (subst strspn_loop.simps) auto
next
  case (Cons c str)
  then show ?case using strchr_cstr [OF assms, of c] Cons.IH [of "Suc k"] by (subst strspn_loop.simps) auto
qed

section \<open>Tokenizing\<close>

lemma strtok_r_cstr:
  fixes str D
  defines "inD \<equiv> \<lambda>c. c \<in> set D"
  defines "r \<equiv> dropWhile inD str"
  assumes d: "cstr m d D" "d \<noteq> NULL" and s: "cstr m s str" "s \<noteq> NULL"
  defines "p \<equiv> s + length (takeWhile inD str)"
  defines "e \<equiv> p + length (takeWhile (\<lambda>c. \<not> inD c) r)"
  defines "rest \<equiv> dropWhile (\<lambda>c. \<not> inD c) r"
  shows "r = [] \<Longrightarrow> strtok_r m s d save = Some (m, p, NULL)"
    and "r \<noteq> [] \<Longrightarrow> strtok_r m s d save = Some (m(e := 0), if rest = [] then e else Suc e, p)"
proof -
  have "str = takeWhile inD str @ r" by (simp add: r_def)
  then have rp: "cstr m p r" using s(1) unfolding p_def by (metis cstr_append)
  have skip: "skip_delimiters m s d = Some (p, r = [])"
    using skip_delimiters_cstr [OF d s(1)] by (simp add: p_def r_def inD_def)
  have tok: "skip_token m p d = Some e" using skip_token_cstr [OF d rp] by (simp add: e_def inD_def)
  have "r = takeWhile (\<lambda>c. \<not> inD c) r @ rest" by (simp add: rest_def)
  then have re: "cstr m e rest" using rp unfolding e_def by (metis cstr_append)
  then have "m e = 0 \<longleftrightarrow> rest = []" by (cases rest) auto
  then show "r = [] \<Longrightarrow> strtok_r m s d save = Some (m, p, NULL)"
    and "r \<noteq> [] \<Longrightarrow> strtok_r m s d save = Some (m(e := 0), if rest = [] then e else Suc e, p)"
    using d(2) s(2) skip tok by (auto simp: strtok_r_def fun_upd_idem)
qed

text \<open>
  The loop of the usage example in the source comment: the first call gets the string, later
  calls a null pointer; the tokens are collected in order.
\<close>

partial_function (option) strtok_all :: "mem \<Rightarrow> ptr \<Rightarrow> ptr \<Rightarrow> ptr \<Rightarrow> (mem \<times> ptr list) option" where
  "strtok_all m s delimiters save = do {
     (m, save, token) \<leftarrow> strtok_r m s delimiters save;
     if token = NULL then Some (m, [])
     else do {
       (m, ts) \<leftarrow> strtok_all m NULL delimiters save;
       Some (m, token # ts)
     }
   }"

lemma length_rest:
  assumes "dropWhile P str \<noteq> []"
  shows "length (tl (dropWhile Q (dropWhile P str))) < length str"
proof -
  have "length (dropWhile Q (dropWhile P str)) \<le> length (dropWhile P str)" by (rule length_dropWhile_le)
  moreover have "length (dropWhile P str) \<le> length str" by (rule length_dropWhile_le)
  moreover have "0 < length (dropWhile P str)" using assms by blast
  ultimately show ?thesis unfolding length_tl by linarith
qed

function tokens :: "u8 list \<Rightarrow> u8 list \<Rightarrow> u8 list list" where
  "tokens D str = (let r = dropWhile (\<lambda>c. c \<in> set D) str in
     if r = [] then []
     else takeWhile (\<lambda>c. c \<notin> set D) r # tokens D (tl (dropWhile (\<lambda>c. c \<notin> set D) r)))"
  by pat_completeness auto
termination
proof (relation "measure (\<lambda>(D, str). length str)", goal_cases)
  case (2 D str r)
  then show ?case using length_rest [of "\<lambda>c. c \<in> set D" str "\<lambda>c. c \<notin> set D"] by (simp del: dropWhile_eq_Nil_conv)
qed simp

declare tokens.simps [simp del]

lemma strtok_r_start:
  "(if s = NULL then save else s) \<noteq> NULL \<Longrightarrow> strtok_r m s d save = strtok_r m (if s = NULL then save else s) d save"
  by (simp add: strtok_r_def)

text \<open>One call cuts off the first token and leaves the rest of the string for the next call.\<close>

lemma strtok_r_first:
  fixes str D
  assumes d: "cstr m d D" "d \<noteq> NULL" and s: "cstr m s0 str" "s0 \<noteq> NULL"
    and nonempty: "dropWhile (\<lambda>c. c \<in> set D) str \<noteq> []"
  defines "r \<equiv> dropWhile (\<lambda>c. c \<in> set D) str"
  shows "\<exists>m1 save1 p. strtok_r m s0 d save = Some (m1, save1, p)
    \<and> cstr m1 p (takeWhile (\<lambda>c. c \<notin> set D) r) \<and> cstr m1 save1 (tl (dropWhile (\<lambda>c. c \<notin> set D) r))
    \<and> s0 \<le> p \<and> p + length (takeWhile (\<lambda>c. c \<notin> set D) r) < save1 + (if dropWhile (\<lambda>c. c \<notin> set D) r = [] then 1 else 0)
    \<and> save1 + length (tl (dropWhile (\<lambda>c. c \<notin> set D) r)) = s0 + length str
    \<and> (\<forall>q. q \<notin> {s0..<s0 + length str} \<longrightarrow> m1 q = m q)"
proof -
  let ?tok = "takeWhile (\<lambda>c. c \<notin> set D) r" and ?rest = "dropWhile (\<lambda>c. c \<notin> set D) r"
  define p where "p = s0 + length (takeWhile (\<lambda>c. c \<in> set D) str)"
  define e where "e = p + length ?tok"
  have st: "strtok_r m s0 d save = Some (m(e := 0), if ?rest = [] then e else Suc e, p)"
    unfolding e_def p_def r_def by (rule strtok_r_cstr(2) [OF d s nonempty])
  have "cstr m s0 (takeWhile (\<lambda>c. c \<in> set D) str @ r)" using s(1) by (simp only: r_def takeWhile_dropWhile_id)
  then have "cstr m p (?tok @ ?rest)" by (simp only: cstr_append p_def takeWhile_dropWhile_id)
  then have tok: "stored m p ?tok" "0 \<notin> set ?tok" "cstr m e ?rest" unfolding cstr_append e_def by blast+
  have "length (takeWhile (\<lambda>c. c \<in> set D) str) + length r = length str"
    unfolding r_def length_append [symmetric] takeWhile_dropWhile_id ..
  moreover have "length ?tok + length ?rest = length r" unfolding length_append [symmetric] takeWhile_dropWhile_id ..
  ultimately have len: "e + length ?rest = s0 + length str" by (simp add: e_def p_def)
  have c1: "cstr (m(e := 0)) p ?tok" using tok(1,2) stored_cong [of p ?tok "m(e := 0)" m] by (simp add: cstr_def e_def)
  show ?thesis
  proof (cases ?rest)
    case Nil
    then have z: "m e = 0" using tok(3) by (metis cstr_Nil)
    then have "m(e := 0) = m" by (rule fun_upd_idem)
    then show ?thesis using st c1 len z unfolding Nil
      by (intro exI [of _ m] exI [of _ e] exI [of _ p]) (simp add: p_def e_def)
  next
    case (Cons c cs)
    have "cstr m e (c # cs)" using tok(3) unfolding Cons .
    then have "cstr (m(e := 0)) (Suc e) cs" using cstr_cong [of "Suc e" cs "m(e := 0)" m] by simp
    then show ?thesis using st c1 len unfolding Cons
      by (intro exI [of _ "m(e := 0)"] exI [of _ "Suc e"] exI [of _ p]) (auto simp: p_def e_def)
  qed
qed

lemma strtok_all_step:
  assumes "strtok_r m s d save = Some (m1, save1, p)" "p \<noteq> NULL" "strtok_all m1 NULL d save1 = Some (m', ts)"
  shows "strtok_all m s d save = Some (m', p # ts)"
  using assms by (subst strtok_all.simps) simp

lemma strtok_all_tokens:
  assumes "cstr m d D" "d \<noteq> NULL" "cstr m (if s = NULL then save else s) str" "(if s = NULL then save else s) \<noteq> NULL"
    and "{d..d + length D} \<inter> {(if s = NULL then save else s)..(if s = NULL then save else s) + length str} = {}"
  shows "\<exists>m' ts. strtok_all m s d save = Some (m', ts) \<and> list_all2 (cstr m') ts (tokens D str)
    \<and> (\<forall>q. q \<notin> {(if s = NULL then save else s)..<(if s = NULL then save else s) + length str} \<longrightarrow> m' q = m q)"
  using assms
proof (induction "length str" arbitrary: m s save str rule: less_induct)
  case less
  define s0 where "s0 = (if s = NULL then save else s)"
  define r where "r = dropWhile (\<lambda>c. c \<in> set D) str"
  let ?tok = "takeWhile (\<lambda>c. c \<notin> set D) r" and ?rest = "dropWhile (\<lambda>c. c \<notin> set D) r"
  note pre = less.prems [folded s0_def]
  have start: "strtok_r m s d save = strtok_r m s0 d save"
    using strtok_r_start [of s save m d] pre(4) by (simp add: s0_def)
  show ?case
  proof (cases "r = []")
    case True
    then have "strtok_all m s d save = Some (m, [])"
      using strtok_r_cstr(1) [OF pre(1-4)] start by (subst strtok_all.simps) (simp add: r_def)
    moreover have "tokens D str = []" using True by (subst tokens.simps) (simp add: r_def)
    ultimately show ?thesis by simp
  next
    case False
    obtain m1 save1 p where one: "strtok_r m s0 d save = Some (m1, save1, p)" "cstr m1 p ?tok"
        "cstr m1 save1 (tl ?rest)" "s0 \<le> p" "p + length ?tok < save1 + (if ?rest = [] then 1 else 0)"
        "save1 + length (tl ?rest) = s0 + length str" "\<forall>q. q \<notin> {s0..<s0 + length str} \<longrightarrow> m1 q = m q"
      using strtok_r_first [OF pre(1-4), folded r_def, OF False] by blast
    have toks: "tokens D str = ?tok # tokens D (tl ?rest)"
      using False by (subst tokens.simps) (simp add: r_def Let_def)
    have s1: "s0 \<le> save1" "save1 \<noteq> NULL" "p \<noteq> NULL" using one(4,5) pre(4) by (auto split: if_splits)
    have "cstr m1 d D"
      using pre(1,5) one(7) cstr_cong [of d D m1 m] by (auto simp: disjoint_iff)
    moreover have "length (tl ?rest) < length str"
      unfolding r_def using False by (intro length_rest) (simp add: r_def)
    moreover have "{d..d + length D} \<inter> {save1..save1 + length (tl ?rest)} = {}"
      using pre(5) s1(1) one(6) by (auto simp: disjoint_iff)
    ultimately obtain m' ts where rec: "strtok_all m1 NULL d save1 = Some (m', ts)"
        "list_all2 (cstr m') ts (tokens D (tl ?rest))"
        "\<forall>q. q \<notin> {save1..<save1 + length (tl ?rest)} \<longrightarrow> m' q = m1 q"
      using less.hyps [of "tl ?rest" m1 NULL save1] pre(2) one(3) s1(2) by auto
    have "m' q = m1 q" if "q \<le> p + length ?tok" for q
    proof (cases "?rest = []")
      case True
      then have "tl ?rest = []" by (simp only: list.sel(2))
      then show ?thesis using rec(3) by (simp only: list.size) simp
    next
      case False
      then have "q < save1" using one(5) that by (simp only: if_False)
      then show ?thesis using rec(3) by simp
    qed
    then have "cstr m' p ?tok" using one(2) cstr_cong [of p ?tok m' m1] by simp
    moreover have "m' q = m q" if "q \<notin> {s0..<s0 + length str}" for q
      using rec(3) one(6,7) that s1(1) by auto
    ultimately show ?thesis
      using strtok_all_step [OF one(1) [folded start] s1(3) rec(1)] rec(2) toks by (auto simp: s0_def)
  qed
qed

section \<open>Bounded copies and numbers\<close>

lemma memcpy_Some:
  assumes "dst \<noteq> NULL" "src \<noteq> NULL" "dst \<le> src \<or> src + n \<le> dst"
  shows "\<exists>m'. memcpy m dst src n = Some (m', dst)
    \<and> (\<forall>q. m' q = (if dst \<le> q \<and> q < dst + n then m (src + (q - dst)) else m q))"
  using assms copy_forward_eq [OF assms(3), of m] by (simp add: memcpy_def)

lemma stored_copy: "stored m src s \<Longrightarrow> k \<le> length s \<Longrightarrow>
    \<forall>q. m' q = (if dst \<le> q \<and> q < dst + k then m (src + (q - dst)) else m q) \<Longrightarrow> stored m' dst (take k s)"
  by (simp add: stored_def)

lemma strlcpy_cstr:
  assumes s: "cstr m src s" and ptr: "dst \<noteq> NULL" "src \<noteq> NULL" and "0 < n"
    and disj: "{dst..<dst + n} \<inter> {src..src + length s} = {}"
  shows "\<exists>m'. strlcpy m dst src n = Some (m', length s) \<and> cstr m' dst (take (n - 1) s)
    \<and> (\<forall>q. q \<notin> {dst..<dst + n} \<longrightarrow> m' q = m q)"
proof -
  define k where "k = (if length s < n - 1 then length s else n - 1)"
  have k: "k \<le> length s" "k < n" "take k s = take (n - 1) s" using \<open>0 < n\<close> by (auto simp: k_def)
  have "dst \<le> src \<or> src + k \<le> dst" using disj k \<open>0 < n\<close> by (auto simp: disjoint_iff not_le)
  from memcpy_Some [OF ptr this, of m] obtain m1 where m1: "memcpy m dst src k = Some (m1, dst)"
      "\<forall>q. m1 q = (if dst \<le> q \<and> q < dst + k then m (src + (q - dst)) else m q)"
    by blast
  have "stored m1 dst (take k s)" using stored_copy [OF _ k(1) m1(2)] s by (simp add: cstr_def)
  then have "stored (m1(dst + k := 0)) dst (take k s)"
    using stored_cong [of dst "take k s" "m1(dst + k := 0)" m1] k(1) by simp
  moreover have "0 \<notin> set (take k s)" using s by (auto simp: cstr_def dest: in_set_takeD)
  ultimately have "cstr (m1(dst + k := 0)) dst (take k s)" using k(1) by (simp add: cstr_def)
  moreover have "strlcpy m dst src n = do { (m, _) \<leftarrow> memcpy m dst src k; Some (m(dst + k := 0), length s) }"
    using ptr strlen_cstr [OF s] \<open>0 < n\<close> by (simp add: strlcpy_def k_def Let_def)
  then have "strlcpy m dst src n = Some (m1(dst + k := 0), length s)" using m1(1) by simp
  moreover have "\<forall>q. q \<notin> {dst..<dst + n} \<longrightarrow> (m1(dst + k := 0)) q = m q" using m1(2) k(2) by auto
  ultimately show ?thesis using k(3) by auto
qed

definition dec_value :: "u8 list \<Rightarrow> int" where
  "dec_value ds = foldl (\<lambda>a c. a * 10 + (uint c - 48)) 0 ds"

lemma foldl_neg: "foldl (\<lambda>a c. a * 10 - (uint c - 48)) (- v) ds = - foldl (\<lambda>a c. a * 10 + (uint c - 48)) v (ds :: u8 list)"
proof (induction ds arbitrary: v)
  case (Cons c ds)
  have "(- v) * 10 - (uint c - 48) = - (v * 10 + (uint c - 48))" by simp
  then show ?case by (simp only: foldl_Cons Cons.IH)
qed simp

lemma isdigit_uint: "isdigit c \<Longrightarrow> 0 \<le> uint c - 48 \<and> uint c - 48 \<le> 9"
  by (simp add: isdigit_def word_le_def)

lemma foldl_neg_le: "a \<le> 0 \<Longrightarrow> \<forall>c \<in> set ds. isdigit c \<Longrightarrow> foldl (\<lambda>a c. a * 10 - (uint c - 48)) a ds \<le> a"
proof (induction ds arbitrary: a)
  case (Cons c ds)
  have "a * 10 - (uint c - 48) \<le> a" "a * 10 - (uint c - 48) \<le> 0"
    using Cons.prems isdigit_uint [of c] by simp_all
  then show ?case using Cons.IH [of "a * 10 - (uint c - 48)"] Cons.prems by simp
qed simp

lemma atoi_loop_digits:
  assumes "stored m s ds" "\<forall>c \<in> set ds. isdigit c" "\<not> isdigit (m (s + length ds))" "a \<le> 0" "- (2 ^ 31) \<le> a"
    and "- (2 ^ 31) \<le> foldl (\<lambda>a c. a * 10 - (uint c - 48)) a ds"
  shows "atoi_loop m s a = Some (foldl (\<lambda>a c. a * 10 - (uint c - 48)) a ds)"
  using assms
proof (induction ds arbitrary: s a)
  case Nil
  then show ?case by (subst atoi_loop.simps) simp
next
  case (Cons c ds)
  let ?a = "a * 10 - (uint c - 48)"
  have c: "isdigit c" "m s = c" "0 \<le> uint c - 48" "?a \<le> 0" using Cons.prems isdigit_uint [of c] by simp_all
  have "- (2 ^ 31) \<le> ?a" using foldl_neg_le [OF c(4), of ds] Cons.prems(2,6) by simp
  moreover have "int32 (a * 10) = Some (a * 10)" using calculation c(3) Cons.prems(4) by (simp add: int32_def)
  moreover have "int32 ?a = Some ?a" using calculation(1) c(4) by (simp add: int32_def)
  moreover have "atoi_loop m (Suc s) ?a = Some (foldl (\<lambda>a c. a * 10 - (uint c - 48)) ?a ds)"
    using Cons.IH [of "Suc s" ?a] Cons.prems calculation(1) c(4) by simp
  ultimately show ?case using c(1,2) by (subst atoi_loop.simps) simp
qed

lemma skip_space_stored:
  "stored m s sp \<Longrightarrow> \<forall>c \<in> set sp. isspace c \<Longrightarrow> \<not> isspace (m (s + length sp)) \<Longrightarrow> skip_space m s = Some (s + length sp)"
  by (induction sp arbitrary: s) (subst skip_space.simps, simp)+

lemma isdigit_not_space: "isdigit c \<Longrightarrow> \<not> isspace c \<and> c \<noteq> 43 \<and> c \<noteq> 45"
  by (auto simp: isdigit_def isspace_def)

section \<open>Properties\<close>

text \<open>
  C29. Splitting with \<^verbatim>\<open>strtok_r\<close> finds exactly the tokens: on a string \<open>str\<close> and delimiters
  \<open>D\<close> stored elsewhere, calling \<^verbatim>\<open>strtok_r\<close> until it returns a null pointer terminates; the
  returned pointers address, in order, the maximal runs of non-delimiters of \<open>str\<close>, each now
  null-terminated in place, and no byte outside the string has changed.
\<close>

theorem strtok_splits:
  assumes "cstr m d D" "d \<noteq> NULL" "cstr m s str" "s \<noteq> NULL" "{d..d + length D} \<inter> {s..s + length str} = {}"
  shows "\<exists>m' ts. strtok_all m s d save = Some (m', ts) \<and> list_all2 (cstr m') ts (tokens D str)
    \<and> (\<forall>q. q \<notin> {s..<s + length str} \<longrightarrow> m' q = m q)"
  using strtok_all_tokens [of m d D s save str] assms by simp

theorem strtok_splits_witness:
  "\<exists>m' ts. strtok_all ((\<lambda>_. 0)(10 := 32, 20 := 32, 21 := 97, 22 := 32, 23 := 98)) 20 10 0 = Some (m', ts)
    \<and> list_all2 (cstr m') ts (tokens [32] [32, 97, 32, 98])
    \<and> (\<forall>q. q \<notin> {20..<20 + length [32, 97, 32, 98 :: u8]} \<longrightarrow>
         m' q = ((\<lambda>_. 0)(10 := 32, 20 := 32, 21 := 97, 22 := 32, 23 := 98)) q)"
  by (rule strtok_splits) auto

text \<open>
  C33. \<^verbatim>\<open>memmove\<close> copies correctly for every overlap of source and destination: afterwards
  the destination holds what the source held before and nothing else changed. The pointer it
  returns is the destination only when the copy runs backwards; when the destination lies
  below the source the result is the end of the destination, contrary to the comment.
\<close>

theorem memmove_overlap:
  assumes "dst \<noteq> NULL" "src \<noteq> NULL"
  shows "\<exists>m'. memmove m dst src n = Some (m', if dst < src then dst + n else dst)
    \<and> (\<forall>i < n. m' (dst + i) = m (src + i)) \<and> (\<forall>q. q \<notin> {dst..<dst + n} \<longrightarrow> m' q = m q)"
  using assms copy_forward_eq [of dst src n m] copy_backward_eq [of src dst m n]
  by (auto simp: memmove_def not_less)

theorem memmove_overlap_witness:
  "\<exists>m'. memmove (\<lambda>p. word_of_nat p) 10 11 4 = Some (m', if 10 < (11 :: nat) then 10 + 4 else 10)
    \<and> (\<forall>i < 4. m' (10 + i) = word_of_nat (11 + i)) \<and> (\<forall>q. q \<notin> {10..<10 + 4} \<longrightarrow> m' q = word_of_nat q)"
  by (rule memmove_overlap) simp_all

text \<open>
  C30. \<^verbatim>\<open>strlcpy\<close> never overruns its buffer and always terminates the copy: for a nonempty
  buffer that does not overlap the source, it returns the source length, the buffer holds the
  longest prefix of the source that fits, null-terminated, and no byte outside the buffer
  changes.
\<close>

theorem strlcpy_bounded:
  assumes "cstr m src s" "dst \<noteq> NULL" "src \<noteq> NULL" "0 < n" "{dst..<dst + n} \<inter> {src..src + length s} = {}"
  shows "\<exists>m'. strlcpy m dst src n = Some (m', length s) \<and> cstr m' dst (take (n - 1) s)
    \<and> (\<forall>q. q \<notin> {dst..<dst + n} \<longrightarrow> m' q = m q)"
  using strlcpy_cstr [OF assms] .

theorem strlcpy_bounded_witness:
  "\<exists>m'. strlcpy ((\<lambda>_. 7)(20 := 97, 21 := 98, 22 := 0)) 10 20 2 = Some (m', length [97, 98 :: u8])
    \<and> cstr m' 10 (take (2 - 1) [97, 98])
    \<and> (\<forall>q. q \<notin> {10..<10 + 2} \<longrightarrow> m' q = ((\<lambda>_. 7)(20 := 97, 21 := 98, 22 := 0)) q)"
  by (rule strlcpy_bounded) auto

text \<open>
  C32. \<^verbatim>\<open>atoi\<close> reads decimal numbers over the whole range of \<^verbatim>\<open>int\<close>: white space, an
  optional sign and a run of digits whose signed value fits in 32 bits yield that value, with
  no overflow in any intermediate step, \<open>-2^31\<close> included.
\<close>

theorem atoi_decimal:
  assumes "s \<noteq> NULL" "stored m s (sp @ sg @ ds)" "\<forall>c \<in> set sp. isspace c" "sg \<in> {[], [43], [45]}"
    and "ds \<noteq> []" "\<forall>c \<in> set ds. isdigit c" "\<not> isdigit (m (s + length (sp @ sg @ ds)))"
    and "dec_value ds \<le> (if sg = [45] then 2 ^ 31 else 2 ^ 31 - 1)"
  shows "atoi m s = Some (if sg = [45] then - dec_value ds else dec_value ds)"
proof -
  let ?s1 = "s + length sp" and ?s2 = "s + length sp + length sg"
  have st: "stored m s sp" "stored m ?s1 sg" "stored m ?s2 ds"
    using assms(2) by (simp_all add: stored_append)
  obtain c cs where ds: "ds = c # cs" using assms(5) by (cases ds) auto
  have c: "m ?s2 = c" "isdigit c" using st(3) assms(6) ds by simp_all
  have first: "\<not> isspace (m ?s1)" "m ?s1 = 45 \<longleftrightarrow> sg = [45]" "m ?s1 = 43 \<or> m ?s1 = 45 \<longleftrightarrow> sg \<noteq> []"
    using assms(4) st(2) c isdigit_not_space [OF c(2)] by (auto simp: isspace_def)
  have skip: "skip_space m s = Some ?s1" using skip_space_stored [OF st(1) assms(3) first(1)] .
  have v: "foldl (\<lambda>a c. a * 10 - (uint c - 48)) 0 ds = - dec_value ds"
    using foldl_neg [of 0 ds] by (simp add: dec_value_def)
  have "- (2 ^ 31) \<le> - dec_value ds" using assms(8) by (simp split: if_splits)
  then have loop: "atoi_loop m ?s2 0 = Some (- dec_value ds)"
    using atoi_loop_digits [OF st(3) assms(6), of 0] assms(7) by (simp add: v add.assoc)
  have s2: "(if m ?s1 = 43 \<or> m ?s1 = 45 then Suc ?s1 else ?s1) = ?s2" using first(3) assms(4) by auto
  have "- dec_value ds \<le> 0" using foldl_neg_le [of 0 ds] assms(6) v by simp
  then have "sg \<noteq> [45] \<Longrightarrow> int32 (dec_value ds) = Some (dec_value ds)" using assms(8) by (simp add: int32_def)
  then show ?thesis using assms(1) skip loop s2 first(2) by (simp add: atoi_def Let_def)
qed

theorem atoi_decimal_witness:
  "atoi ((\<lambda>_. 0)(5 := 32, 6 := 45, 7 := 52, 8 := 50)) 5 = Some (if [45] = [45 :: u8] then - dec_value [52, 50] else dec_value [52, 50])"
  by (rule atoi_decimal [where sp = "[32]"]) (auto simp: isspace_def isdigit_def dec_value_def)

end
