(* ===== verification/KHash.thy ===== *)
theory KHash
  imports Interfaces CString "HOL-Library.Multiset"
begin

text \<open>
  Hash tables (\<^verbatim>\<open>lib/kernel/hash.c\<close>). A bucket is a list of elements (theory KList shows that the
  kernel lists implement these); elements are named by their addresses, and a pointer that may be
  null is an option. The hash and comparison functions of the table are fields of the record, as
  in the source; the auxiliary argument is part of them. \<open>mem\<close> says whether \<^verbatim>\<open>malloc\<close> succeeds.
\<close>

section \<open>Data\<close>

record khash =
  elem_cnt :: nat
  bucket_cnt :: nat
  buckets :: "ptr list list"
  h_hash :: "ptr \<Rightarrow> u32"
  h_less :: "ptr \<Rightarrow> ptr \<Rightarrow> bool"

section \<open>Buckets\<close>

text \<open>The index of the bucket of an element; buckets are named by their index.\<close>

definition find_bucket :: "khash \<Rightarrow> ptr \<Rightarrow> nat" where
  "find_bucket h e = unat (h_hash h e) AND (sub32 (bucket_cnt h) 1)"

fun find_elem :: "khash \<Rightarrow> ptr list \<Rightarrow> ptr \<Rightarrow> ptr option" where
  "find_elem h [] e = None"
| "find_elem h (x # xs) e = (if \<not> h_less h x e \<and> \<not> h_less h e x then Some x else find_elem h xs e)"

definition insert_elem :: "khash \<Rightarrow> nat \<Rightarrow> ptr \<Rightarrow> khash" where
  "insert_elem h b e = h\<lparr>elem_cnt := add32 (elem_cnt h) 1, buckets := (buckets h)[b := e # buckets h ! b]\<rparr>"

text \<open>\<^verbatim>\<open>list_remove\<close> unlinks the element from the bucket that it is in.\<close>

definition remove_elem :: "khash \<Rightarrow> ptr \<Rightarrow> khash" where
  "remove_elem h e = h\<lparr>elem_cnt := sub32 (elem_cnt h) 1, buckets := map (remove1 e) (buckets h)\<rparr>"

section \<open>Number of buckets\<close>

definition turn_off_least_1bit :: "nat \<Rightarrow> nat" where
  "turn_off_least_1bit x = x AND (sub32 x 1)"

definition is_power_of_2 :: "nat \<Rightarrow> bool" where
  "is_power_of_2 x \<longleftrightarrow> x \<noteq> 0 \<and> turn_off_least_1bit x = 0"

text \<open>The loop does not end on 0, where clearing a bit changes nothing.\<close>

partial_function (option) shrink_loop :: "nat \<Rightarrow> nat option" where
  "shrink_loop n = (if is_power_of_2 n then Some n else shrink_loop (turn_off_least_1bit n))"

definition MIN_ELEMS_PER_BUCKET :: nat where
  "MIN_ELEMS_PER_BUCKET = 1"

definition BEST_ELEMS_PER_BUCKET :: nat where
  "BEST_ELEMS_PER_BUCKET = 2"

definition MAX_ELEMS_PER_BUCKET :: nat where
  "MAX_ELEMS_PER_BUCKET = 4"

text \<open>Moving the elements of one old bucket, front to back, each to the front of its new bucket.\<close>

fun move_elems :: "khash \<Rightarrow> ptr list \<Rightarrow> khash" where
  "move_elems h [] = h"
| "move_elems h (e # es) = (let b = find_bucket h e in
     move_elems (h\<lparr>buckets := (buckets h)[b := e # buckets h ! b]\<rparr>) es)"

fun move_buckets :: "khash \<Rightarrow> ptr list list \<Rightarrow> khash" where
  "move_buckets h [] = h"
| "move_buckets h (b # bs) = move_buckets (move_elems h b) bs"

definition rehash :: "khash \<Rightarrow> bool \<Rightarrow> khash option" where
  "rehash h mem = do {
     let old_buckets = buckets h;
     let old_bucket_cnt = bucket_cnt h;
     let n = elem_cnt h div BEST_ELEMS_PER_BUCKET;
     let n = (if n < 4 then 4 else n);
     new_bucket_cnt \<leftarrow> shrink_loop n;
     if new_bucket_cnt = old_bucket_cnt then Some h
     else if \<not> mem then Some h
     else Some (move_buckets (h\<lparr>buckets := replicate new_bucket_cnt [], bucket_cnt := new_bucket_cnt\<rparr>)
       (take old_bucket_cnt old_buckets))
   }"

section \<open>Operations\<close>

text \<open>
  \<^verbatim>\<open>hash_clear\<close> returns the elements in the order in which the destructor is called on them.
\<close>

definition hash_clear :: "khash \<Rightarrow> bool \<Rightarrow> khash \<times> ptr list" where
  "hash_clear h destructor =
     (h\<lparr>elem_cnt := 0, buckets := replicate (bucket_cnt h) [] @ drop (bucket_cnt h) (buckets h)\<rparr>,
      if destructor then concat (take (bucket_cnt h) (buckets h)) else [])"

text \<open>\<open>mem\<close> is the memory that \<^verbatim>\<open>malloc\<close> returned for the four buckets, whatever it holds.\<close>

definition hash_init :: "(ptr \<Rightarrow> u32) \<Rightarrow> (ptr \<Rightarrow> ptr \<Rightarrow> bool) \<Rightarrow> ptr list list option \<Rightarrow> khash option" where
  "hash_init hash lt mem = (case mem of
       None \<Rightarrow> None
     | Some bs \<Rightarrow> Some (fst (hash_clear
         \<lparr>elem_cnt = 0, bucket_cnt = 4, buckets = bs, h_hash = hash, h_less = lt\<rparr> False)))"

definition hash_insert :: "khash \<Rightarrow> ptr \<Rightarrow> bool \<Rightarrow> (khash \<times> ptr option) option" where
  "hash_insert h new mem = do {
     let bucket = find_bucket h new;
     let old = find_elem h (buckets h ! bucket) new;
     let h = (if old = None then insert_elem h bucket new else h);
     h \<leftarrow> rehash h mem;
     Some (h, old)
   }"

definition hash_replace :: "khash \<Rightarrow> ptr \<Rightarrow> bool \<Rightarrow> (khash \<times> ptr option) option" where
  "hash_replace h new mem = do {
     let bucket = find_bucket h new;
     let old = find_elem h (buckets h ! bucket) new;
     let h = (case old of None \<Rightarrow> h | Some e \<Rightarrow> remove_elem h e);
     h \<leftarrow> rehash (insert_elem h bucket new) mem;
     Some (h, old)
   }"

definition hash_find :: "khash \<Rightarrow> ptr \<Rightarrow> ptr option" where
  "hash_find h e = find_elem h (buckets h ! find_bucket h e) e"

definition hash_delete :: "khash \<Rightarrow> ptr \<Rightarrow> bool \<Rightarrow> (khash \<times> ptr option) option" where
  "hash_delete h e mem = do {
     let found = find_elem h (buckets h ! find_bucket h e) e;
     case found of
       None \<Rightarrow> Some (h, None)
     | Some x \<Rightarrow> do {
         h \<leftarrow> rehash (remove_elem h x) mem;
         Some (h, found)
       }
   }"

text \<open>The elements in the order in which \<^verbatim>\<open>hash_apply\<close> calls the action on them.\<close>

definition hash_apply :: "khash \<Rightarrow> ptr list" where
  "hash_apply h = concat (take (bucket_cnt h) (buckets h))"

definition hash_size :: "khash \<Rightarrow> nat" where
  "hash_size h = elem_cnt h"

definition hash_empty :: "khash \<Rightarrow> bool" where
  "hash_empty h \<longleftrightarrow> elem_cnt h = 0"

section \<open>Iteration\<close>

text \<open>
  The current element is a position in the current bucket: 0 for the list head, \<open>k + 1\<close> for
  element \<open>k\<close>, one more than the length for the list tail; or null at the end of the table.
\<close>

record hash_iterator =
  it_bucket :: nat
  it_elem :: "nat option"

definition hash_first :: hash_iterator where
  "hash_first = \<lparr>it_bucket = 0, it_elem = Some 0\<rparr>"

function hash_next_loop :: "khash \<Rightarrow> nat \<Rightarrow> nat \<Rightarrow> hash_iterator" where
  "hash_next_loop h b k =
     (if k = Suc (length (buckets h ! b)) then
        if Suc b \<ge> bucket_cnt h then \<lparr>it_bucket = Suc b, it_elem = None\<rparr>
        else hash_next_loop h (Suc b) 1
      else \<lparr>it_bucket = b, it_elem = Some k\<rparr>)"
  by pat_completeness auto
termination by (relation "measure (\<lambda>(h, b, k). bucket_cnt h - b)") auto

declare hash_next_loop.simps [simp del]

definition hash_cur :: "khash \<Rightarrow> hash_iterator \<Rightarrow> ptr option" where
  "hash_cur h i = (case it_elem i of None \<Rightarrow> None | Some k \<Rightarrow> Some (buckets h ! it_bucket i ! (k - 1)))"

definition hash_next :: "khash \<Rightarrow> hash_iterator \<Rightarrow> (hash_iterator \<times> ptr option) option" where
  "hash_next h i = (case it_elem i of
       None \<Rightarrow> None
     | Some k \<Rightarrow> let i = hash_next_loop h (it_bucket i) (Suc k) in Some (i, hash_cur h i))"

section \<open>Hash functions\<close>

definition FNV_32_PRIME :: u32 where
  "FNV_32_PRIME = 16777619"

definition FNV_32_BASIS :: u32 where
  "FNV_32_BASIS = 2166136261"

definition hash_bytes :: "u8 list \<Rightarrow> u32" where
  "hash_bytes buf = foldl (\<lambda>h b. (h * FNV_32_PRIME) XOR ucast b) FNV_32_BASIS buf"

partial_function (option) hash_string_loop :: "mem \<Rightarrow> nat \<Rightarrow> u32 \<Rightarrow> u32 option" where
  "hash_string_loop m s h =
     (if m s \<noteq> 0 then hash_string_loop m (Suc s) ((h * FNV_32_PRIME) XOR ucast (m s)) else Some h)"

definition hash_string :: "mem \<Rightarrow> ptr \<Rightarrow> u32 option" where
  "hash_string m s = do {
     ASSERT (s \<noteq> NULL);
     hash_string_loop m s FNV_32_BASIS
   }"

definition hash_int :: "u32 \<Rightarrow> u32" where
  "hash_int i = hash_bytes (le32 i)"

section \<open>Powers of two\<close>

lemma and_pred_rec:
  fixes n :: nat
  assumes "0 < n"
  shows "n AND (n - Suc 0) = (if odd n then n - Suc 0 else 2 * ((n div 2) AND (n div 2 - Suc 0)))"
proof (cases "even n")
  case False
  then obtain j where "n = 2 * j + 1" by (elim oddE)
  then show ?thesis by (simp add: and_nat_rec [of "Suc (2 * j)"])
next
  case True
  then obtain j where j: "n = 2 * j" by (elim evenE)
  then have "(n - Suc 0) div 2 = j - Suc 0" "odd (n - Suc 0)" using assms by (cases j; simp)+
  then show ?thesis using j by (simp add: and_nat_rec [of "2 * j"])
qed

lemma and_pred_less: "0 < n \<Longrightarrow> n AND (n - Suc 0) < n" for n :: nat
proof (induction n rule: less_induct)
  case (less n)
  show ?case
  proof (cases "even n")
    case True
    then have "0 < n div 2" "n div 2 < n" using less.prems by auto
    from less.IH [OF this(2,1)] show ?thesis using and_pred_rec [OF less.prems] True by auto
  qed (use and_pred_rec [OF less.prems] less.prems in simp)
qed

lemma pred_and_zero: "0 < n \<Longrightarrow> n AND (n - Suc 0) = 0 \<Longrightarrow> \<exists>k. n = 2 ^ k" for n :: nat
proof (induction n rule: less_induct)
  case (less n)
  show ?case
  proof (cases "even n")
    case False
    then have "n = 1" using less.prems and_pred_rec [OF less.prems(1)] by simp
    then show ?thesis by (intro exI [of _ 0]) simp
  next
    case True
    then have "0 < n div 2" "(n div 2) AND (n div 2 - Suc 0) = 0"
      using less.prems and_pred_rec [OF less.prems(1)] by auto
    then obtain k where "n div 2 = 2 ^ k" using less.IH [of "n div 2"] less.prems(1) by auto
    then have "n = 2 ^ Suc k" using True by (metis even_two_times_div_two power_Suc)
    then show ?thesis by blast
  qed
qed

lemma and_pred_pow: "x AND (2 ^ k - Suc 0) = x mod 2 ^ k" for x :: nat
proof -
  have "2 ^ k - Suc 0 = (mask k :: nat)" by (simp add: mask_eq_exp_minus_1)
  then show ?thesis by (simp add: take_bit_eq_mod flip: take_bit_eq_mask)
qed

text \<open>Clearing the lowest bit keeps the highest bit unless there is only one.\<close>

lemma and_pred_high:
  fixes n :: nat
  assumes "2 ^ k < n" "n < 2 ^ Suc k"
  shows "2 ^ k \<le> n AND (n - Suc 0)" "n AND (n - Suc 0) < n"
proof -
  have "n div 2 ^ k = 1" "(n - Suc 0) div 2 ^ k = 1" using assms by (auto intro!: div_nat_eqI)
  then have "bit (n AND (n - Suc 0)) k" unfolding bit_and_iff by (simp add: bit_iff_odd)
  then have "(n AND (n - Suc 0)) div 2 ^ k \<noteq> 0" by (metis bit_iff_odd even_zero)
  then show "2 ^ k \<le> n AND (n - Suc 0)" by (simp add: div_eq_0_iff)
  show "n AND (n - Suc 0) < n" using and_pred_less assms by simp
qed

lemma turn_off_eq: "0 < n \<Longrightarrow> n < two32 \<Longrightarrow> turn_off_least_1bit n = n AND (n - Suc 0)"
  by (simp add: turn_off_least_1bit_def)

lemma is_power_of_2_iff:
  assumes "n < two32"
  shows "is_power_of_2 n \<longleftrightarrow> (\<exists>k. n = 2 ^ k)"
proof
  assume "is_power_of_2 n"
  then show "\<exists>k. n = 2 ^ k" using assms pred_and_zero [of n] by (auto simp: is_power_of_2_def turn_off_eq)
next
  assume "\<exists>k. n = 2 ^ k"
  then show "is_power_of_2 n" using assms and_pred_pow [of n] by (auto simp: is_power_of_2_def turn_off_eq)
qed

text \<open>The loop returns the highest power of two that is not above its argument.\<close>

lemma shrink_loop_eq:
  assumes "2 ^ k \<le> n" "n < 2 ^ Suc k" "n < two32"
  shows "shrink_loop n = Some (2 ^ k)"
  using assms
proof (induction n rule: less_induct)
  case (less n)
  show ?case
  proof (cases "n = 2 ^ k")
    case True
    then have "is_power_of_2 n" using is_power_of_2_iff [OF less.prems(3)] by blast
    then show ?thesis using True by (subst shrink_loop.simps) simp
  next
    case False
    then have n: "2 ^ k < n" "0 < n" using less.prems(1) by (auto intro: le_neq_implies_less order_less_le_trans [of 0])
    let ?t = "n AND (n - Suc 0)"
    have t: "2 ^ k \<le> ?t" "?t < n" using and_pred_high [OF n(1) less.prems(2)] .
    then have "?t \<noteq> 0" using not_less by fastforce
    then have "\<not> is_power_of_2 n" using n(2) less.prems(3) by (simp add: is_power_of_2_def turn_off_eq)
    then have "shrink_loop n = shrink_loop ?t"
      using n(2) less.prems(3) by (simp add: shrink_loop.simps [of n] turn_off_eq)
    also have "\<dots> = Some (2 ^ k)" using less.IH [OF t(2) t(1)] t(2) less.prems by simp
    finally show ?thesis .
  qed
qed

section \<open>Well-formed tables\<close>

definition heq :: "khash \<Rightarrow> ptr \<Rightarrow> ptr \<Rightarrow> bool" where
  "heq h a b \<longleftrightarrow> \<not> h_less h a b \<and> \<not> h_less h b a"

text \<open>The comparison function must define an equivalence that the hash function respects.\<close>

definition funs_ok :: "khash \<Rightarrow> bool" where
  "funs_ok h \<longleftrightarrow> (\<forall>x. \<not> h_less h x x) \<and> (\<forall>x y z. heq h x y \<longrightarrow> heq h y z \<longrightarrow> heq h x z)
     \<and> (\<forall>x y. heq h x y \<longrightarrow> h_hash h x = h_hash h y)"

definition placed :: "khash \<Rightarrow> bool" where
  "placed h \<longleftrightarrow> length (buckets h) = bucket_cnt h \<and> (\<exists>k < 32. bucket_cnt h = 2 ^ k)
     \<and> (\<forall>i < bucket_cnt h. \<forall>e \<in> set (buckets h ! i). find_bucket h e = i)"

definition helems :: "khash \<Rightarrow> ptr set" where
  "helems h = set (concat (buckets h))"

definition hash_ok :: "khash \<Rightarrow> bool" where
  "hash_ok h \<longleftrightarrow> funs_ok h \<and> placed h \<and> elem_cnt h = length (concat (buckets h)) \<and> elem_cnt h < two32
     \<and> distinct (concat (buckets h)) \<and> (\<forall>x \<in> helems h. \<forall>y \<in> helems h. heq h x y \<longrightarrow> x = y)"

lemma find_bucket_mod:
  assumes "bucket_cnt h = 2 ^ k" "k < 32"
  shows "find_bucket h e = unat (h_hash h e) mod bucket_cnt h"
proof -
  have "(2 :: nat) ^ k < 2 ^ 32" using assms(2) by (intro power_strict_increasing) auto
  then have "sub32 (2 ^ k) 1 = 2 ^ k - Suc 0" by simp
  then show ?thesis using assms(1) by (simp add: find_bucket_def and_pred_pow)
qed

lemma find_bucket_less: "placed h \<Longrightarrow> find_bucket h e < bucket_cnt h"
  using find_bucket_mod [of h _ e] by (auto simp: placed_def)

lemma find_elem_Some: "find_elem h xs e = Some x \<Longrightarrow> x \<in> set xs \<and> heq h x e"
  by (induction h xs e rule: find_elem.induct) (auto simp: heq_def split: if_splits)

lemma find_elem_None: "find_elem h xs e = None \<Longrightarrow> x \<in> set xs \<Longrightarrow> \<not> heq h x e"
  by (induction h xs e rule: find_elem.induct) (auto simp: heq_def split: if_splits)

lemma heq_bucket: "funs_ok h \<Longrightarrow> heq h x y \<Longrightarrow> find_bucket h x = find_bucket h y"
  by (auto simp: funs_ok_def find_bucket_def)

lemma helem_bucket:
  assumes "placed h" "x \<in> helems h"
  shows "x \<in> set (buckets h ! find_bucket h x)"
  using assms by (auto simp: helems_def placed_def in_set_conv_nth [of _ "buckets h"])

lemma hash_find_Some: "hash_ok h \<Longrightarrow> hash_find h e = Some x \<Longrightarrow> x \<in> helems h \<and> heq h x e"
  using find_elem_Some [of h _ e x] find_bucket_less [of h e]
  by (fastforce simp: hash_find_def helems_def hash_ok_def placed_def)

lemma hash_find_None:
  assumes "hash_ok h" "hash_find h e = None" "x \<in> helems h"
  shows "\<not> heq h x e"
proof
  assume "heq h x e"
  then have "find_bucket h x = find_bucket h e" using assms(1) heq_bucket by (auto simp: hash_ok_def)
  then have "x \<in> set (buckets h ! find_bucket h e)" using helem_bucket [OF _ assms(3)] assms(1) by (simp add: hash_ok_def)
  then show False using find_elem_None assms(2) \<open>heq h x e\<close> by (simp add: hash_find_def)
qed

section \<open>Changing the buckets\<close>

lemma mset_concat_upd:
  "b < length bs \<Longrightarrow> mset (concat (bs[b := e # bs ! b])) = add_mset e (mset (concat bs))"
  by (induction bs arbitrary: b) (auto split: nat.splits)

lemma mset_concat_remove:
  "distinct (concat bs) \<Longrightarrow> e \<in> set (concat bs) \<Longrightarrow> mset (concat (map (remove1 e) bs)) = mset (concat bs) - {#e#}"
proof (induction bs)
  case (Cons b bs)
  show ?case
  proof (cases "e \<in> set b")
    case True
    then have "e \<notin> set (concat bs)" using Cons.prems(1) by auto
    then have "map (remove1 e) bs = bs" by (intro map_idI remove1_idem) auto
    then show ?thesis using True by simp
  next
    case False
    then have "mset (concat (map (remove1 e) bs)) = mset (concat bs) - {#e#}" using Cons by auto
    moreover have "e \<in># mset (concat bs)" using Cons.prems(2) False by simp
    ultimately show ?thesis using False by (simp add: remove1_idem)
  qed
qed simp

text \<open>Everything about a table that depends on its elements only through the multiset.\<close>

lemma hash_okI:
  assumes "funs_ok h" "placed h" "mset (concat (buckets h)) = mset es" "elem_cnt h = length es" "elem_cnt h < two32"
    "distinct es" "\<And>x y. x \<in> set es \<Longrightarrow> y \<in> set es \<Longrightarrow> heq h x y \<Longrightarrow> x = y"
  shows "hash_ok h" "helems h = set es"
proof -
  have s: "set (concat (buckets h)) = set es" using assms(3) by (metis set_mset_mset)
  have "length (concat (buckets h)) = length es" using assms(3) by (metis size_mset)
  moreover have "distinct (concat (buckets h))" using assms(3,6) by (metis mset_eq_imp_distinct_iff)
  ultimately show "hash_ok h" "helems h = set es" using assms(1,2,4,5,7) s by (auto simp: hash_ok_def helems_def)
qed

lemma move_elems_fields [simp]:
  "bucket_cnt (move_elems h es) = bucket_cnt h" "elem_cnt (move_elems h es) = elem_cnt h"
  "h_hash (move_elems h es) = h_hash h" "h_less (move_elems h es) = h_less h"
  by (induction h es rule: move_elems.induct) (simp_all add: Let_def)

lemma find_bucket_upd [simp]: "find_bucket (h\<lparr>buckets := bs\<rparr>) = find_bucket h" "find_bucket (h\<lparr>elem_cnt := n\<rparr>) = find_bucket h"
  by (simp_all add: find_bucket_def fun_eq_iff)

lemma placed_cong:
  assumes "buckets h' = buckets h" "bucket_cnt h' = bucket_cnt h" "h_hash h' = h_hash h"
  shows "placed h' = placed h"
  unfolding placed_def find_bucket_def assms by (rule refl)

lemma placed_push:
  assumes "placed h"
  shows "placed (h\<lparr>buckets := (buckets h)[find_bucket h e := e # buckets h ! find_bucket h e]\<rparr>)"
  using assms find_bucket_less [OF assms, of e] by (auto simp: placed_def nth_list_update)

lemma move_elems_spec:
  "placed h \<Longrightarrow> placed (move_elems h es) \<and> mset (concat (buckets (move_elems h es))) = mset es + mset (concat (buckets h))"
proof (induction h es rule: move_elems.induct)
  case (2 h e es)
  let ?h = "h\<lparr>buckets := (buckets h)[find_bucket h e := e # buckets h ! find_bucket h e]\<rparr>"
  have "find_bucket h e < length (buckets h)" using find_bucket_less [OF 2(2)] 2(2) by (simp add: placed_def)
  then show ?case using 2(1) [OF refl placed_push [OF 2(2)]] by (simp add: Let_def mset_concat_upd)
qed simp

lemma move_buckets_fields [simp]:
  "bucket_cnt (move_buckets h bs) = bucket_cnt h" "elem_cnt (move_buckets h bs) = elem_cnt h"
  "h_hash (move_buckets h bs) = h_hash h" "h_less (move_buckets h bs) = h_less h"
  by (induction h bs rule: move_buckets.induct) simp_all

lemma move_buckets_spec:
  "placed h \<Longrightarrow> placed (move_buckets h bs) \<and> mset (concat (buckets (move_buckets h bs))) = mset (concat bs) + mset (concat (buckets h))"
  by (induction h bs rule: move_buckets.induct) (simp_all add: move_elems_spec)

lemma heq_cong: "h_less h' = h_less h \<Longrightarrow> heq h' = heq h"
  by (simp add: heq_def fun_eq_iff)

lemma funs_ok_cong: "h_less h' = h_less h \<Longrightarrow> h_hash h' = h_hash h \<Longrightarrow> funs_ok h' = funs_ok h"
  by (simp add: funs_ok_def heq_cong [of h' h])

lemma rehash_ok:
  assumes ok: "hash_ok h"
  shows "\<exists>h'. rehash h mem = Some h' \<and> hash_ok h' \<and> helems h' = helems h \<and> heq h' = heq h \<and> elem_cnt h' = elem_cnt h
    \<and> (mem \<longrightarrow> bucket_cnt h' \<le> max 4 (elem_cnt h' div 2) \<and> max 4 (elem_cnt h' div 2) < 2 * bucket_cnt h')"
proof -
  define n where "n = max 4 (elem_cnt h div 2)"
  have n: "4 \<le> n" "n < two32" "(if elem_cnt h div BEST_ELEMS_PER_BUCKET < 4 then 4 else elem_cnt h div BEST_ELEMS_PER_BUCKET) = n"
    using ok by (auto simp: n_def BEST_ELEMS_PER_BUCKET_def hash_ok_def)
  obtain k where k: "2 ^ k \<le> n" "n < 2 ^ Suc k" using ex_power_ivl1 [of 2 n] n(1) by auto
  have "(2 :: nat) ^ k < 2 ^ 32" using k(1) n(2) by simp
  then have k32: "k < 32" by (rule power_less_imp_less_exp [rotated]) simp
  have sh: "shrink_loop n = Some (2 ^ k)" using shrink_loop_eq [OF k n(2)] .
  let ?c = "2 ^ k = bucket_cnt h \<or> \<not> mem"
  let ?h0 = "h\<lparr>buckets := replicate (2 ^ k) [], bucket_cnt := 2 ^ k\<rparr>" and ?bs = "buckets h"
  have take: "take (bucket_cnt h) ?bs = ?bs" using ok by (simp add: hash_ok_def placed_def)
  have eq: "rehash h mem = Some (if ?c then h else move_buckets ?h0 ?bs)"
    unfolding rehash_def Let_def n(3) sh take by simp
  show ?thesis
  proof (cases ?c)
    case True
    then show ?thesis using eq ok k by (auto simp: n_def)
  next
    case False
    have "placed ?h0" using k32 by (auto simp: placed_def)
    moreover have "concat (replicate m []) = []" for m :: nat by (induction m) simp_all
    ultimately have sp: "placed (move_buckets ?h0 ?bs)" "mset (concat (buckets (move_buckets ?h0 ?bs))) = mset (concat ?bs)"
      using move_buckets_spec [of ?h0 ?bs] by simp_all
    have fields: "h_less (move_buckets ?h0 ?bs) = h_less h" "h_hash (move_buckets ?h0 ?bs) = h_hash h" by simp_all
    have uniq: "heq h x y \<Longrightarrow> x = y" if "x \<in> set (concat ?bs)" "y \<in> set (concat ?bs)" for x y
      using ok that unfolding hash_ok_def helems_def by blast
    have old: "funs_ok h" "elem_cnt h = length (concat ?bs)" "elem_cnt h < two32" "distinct (concat ?bs)"
      using ok by (simp_all add: hash_ok_def)
    have "hash_ok (move_buckets ?h0 ?bs)" "helems (move_buckets ?h0 ?bs) = set (concat ?bs)"
      by (rule hash_okI [OF _ sp]; use old uniq in \<open>simp add: funs_ok_cong [OF fields] heq_cong [OF fields(1)]\<close>)+
    then show ?thesis using eq False k heq_cong [OF fields(1)] by (simp add: helems_def n_def)
  qed
qed

section \<open>The operations keep tables well formed\<close>

lemma insert_elem_ok:
  assumes ok: "hash_ok h" and e: "e \<notin> helems h" and room: "elem_cnt h < two32 - 1" and none: "\<And>x. x \<in> helems h \<Longrightarrow> \<not> heq h x e"
  shows "hash_ok (insert_elem h (find_bucket h e) e)" "helems (insert_elem h (find_bucket h e) e) = insert e (helems h)"
    "heq (insert_elem h (find_bucket h e) e) = heq h"
proof -
  let ?h = "insert_elem h (find_bucket h e) e" and ?es = "e # concat (buckets h)"
  have pl: "placed h" and f: "funs_ok h" using ok by (simp_all add: hash_ok_def)
  have fields: "h_less ?h = h_less h" "h_hash ?h = h_hash h" by (simp_all add: insert_elem_def)
  have pl': "placed ?h"
    by (rule iffD2 [OF placed_cong placed_push [OF pl, of e]]) (simp_all add: insert_elem_def)
  have "find_bucket h e < length (buckets h)" using find_bucket_less [OF pl] pl by (simp add: placed_def)
  then have ms: "mset (concat (buckets ?h)) = mset ?es" by (simp add: insert_elem_def mset_concat_upd)
  have U: "\<forall>x \<in> helems h. \<forall>y \<in> helems h. heq h x y \<longrightarrow> x = y" using ok by (simp add: hash_ok_def)
  have uniq: "x = y" if "x \<in> set ?es" "y \<in> set ?es" "heq h x y" for x y
  proof -
    have yx: "heq h y x" using that(3) by (auto simp: heq_def)
    have "x = e \<or> x \<in> helems h" "y = e \<or> y \<in> helems h" using that(1,2) by (auto simp: helems_def)
    then show ?thesis using U none [of x] none [of y] that(3) yx by metis
  qed
  have cnt: "elem_cnt ?h = length ?es" "elem_cnt ?h < two32"
    using ok room by (simp_all add: insert_elem_def hash_ok_def)
  have dist: "distinct ?es" using ok e by (auto simp: hash_ok_def helems_def)
  have "hash_ok ?h" "helems ?h = set ?es"
    by (rule hash_okI [OF _ pl' ms cnt dist]; use f uniq in \<open>simp add: funs_ok_cong [OF fields] heq_cong [OF fields(1)]\<close>)+
  then show "hash_ok ?h" "helems ?h = insert e (helems h)" "heq ?h = heq h"
    using heq_cong [OF fields(1)] by (simp_all add: helems_def)
qed

lemma remove_elem_ok:
  assumes ok: "hash_ok h" and e: "e \<in> helems h"
  shows "hash_ok (remove_elem h e)" "helems (remove_elem h e) = helems h - {e}" "heq (remove_elem h e) = heq h"
    "find_bucket (remove_elem h e) = find_bucket h" "elem_cnt (remove_elem h e) < two32 - 1"
proof -
  let ?h = "remove_elem h e" and ?es = "remove1 e (concat (buckets h))"
  have pl: "placed h" and f: "funs_ok h" and d: "distinct (concat (buckets h))" using ok by (simp_all add: hash_ok_def)
  have e': "e \<in> set (concat (buckets h))" using e by (simp add: helems_def)
  have fields: "h_less ?h = h_less h" "h_hash ?h = h_hash h" by (simp_all add: remove_elem_def)
  show fb: "find_bucket ?h = find_bucket h" by (simp add: remove_elem_def find_bucket_def [abs_def])
  have pl': "placed ?h" using pl fb unfolding placed_def
    by (auto simp: remove_elem_def dest: notin_set_remove1 set_remove1_subset [THEN subsetD])
  have ms: "mset (concat (buckets ?h)) = mset ?es" using mset_concat_remove [OF d e'] by (simp add: remove_elem_def)
  have n: "elem_cnt h = length (concat (buckets h))" "elem_cnt h < two32" using ok by (simp_all add: hash_ok_def)
  have pos: "0 < elem_cnt h" unfolding n(1) by (rule length_pos_if_in_set [OF e'])
  then have c: "elem_cnt ?h = elem_cnt h - 1" using n(2) by (simp add: remove_elem_def)
  then have cnt: "elem_cnt ?h = length ?es" "elem_cnt ?h < two32"
    using n e' by (simp_all only: length_remove1 if_True)
  show "elem_cnt ?h < two32 - 1" using pos c n(2) by linarith
  have uniq: "x = y" if "x \<in> set ?es" "y \<in> set ?es" "heq h x y" for x y
    using that ok unfolding hash_ok_def helems_def by (meson notin_set_remove1)
  have "hash_ok ?h" "helems ?h = set ?es"
    by (rule hash_okI [OF _ pl' ms cnt]; use d f uniq in \<open>simp add: funs_ok_cong [OF fields] heq_cong [OF fields(1)]\<close>)+
  then show "hash_ok ?h" "helems ?h = helems h - {e}" "heq ?h = heq h"
    using heq_cong [OF fields(1)] d by (simp_all add: helems_def set_remove1_eq)
qed

lemma heq_refl: "funs_ok h \<Longrightarrow> heq h x x"
  by (simp add: funs_ok_def heq_def)

lemma hash_insert_law:
  assumes ok: "hash_ok h" and room: "elem_cnt h < two32 - 1" and e: "e \<notin> helems h"
  shows "\<exists>h'. hash_insert h e mem = Some (h', hash_find h e) \<and> hash_ok h' \<and> heq h' = heq h
    \<and> helems h' = (if hash_find h e = None then insert e (helems h) else helems h)"
proof (cases "hash_find h e")
  case None
  let ?h = "insert_elem h (find_bucket h e) e"
  have i: "hash_ok ?h" "helems ?h = insert e (helems h)" "heq ?h = heq h"
    using insert_elem_ok [OF ok e room hash_find_None [OF ok None]] by blast+
  then show ?thesis using rehash_ok [OF i(1), of mem] None by (auto simp: hash_insert_def hash_find_def)
next
  case (Some x)
  then show ?thesis using rehash_ok [OF ok, of mem] by (auto simp: hash_insert_def hash_find_def)
qed

lemma hash_delete_law:
  assumes ok: "hash_ok h"
  shows "\<exists>h'. hash_delete h e mem = Some (h', hash_find h e) \<and> hash_ok h' \<and> heq h' = heq h
    \<and> helems h' = (case hash_find h e of None \<Rightarrow> helems h | Some x \<Rightarrow> helems h - {x})"
proof (cases "hash_find h e")
  case None
  then show ?thesis using ok by (simp add: hash_delete_def hash_find_def)
next
  case (Some x)
  then have "x \<in> helems h" using hash_find_Some [OF ok] by blast
  from remove_elem_ok [OF ok this] show ?thesis using rehash_ok [of "remove_elem h x" mem] Some
    by (auto simp: hash_delete_def hash_find_def)
qed

interpretation ht: elem_table hash_ok "\<lambda>h. elem_cnt h < two32 - 1" helems heq hash_find
  "\<lambda>h e. hash_insert h e mem" "\<lambda>h e. hash_delete h e mem" for mem
proof
  fix h x y z e assume ok: "hash_ok h"
  then have f: "funs_ok h" by (simp add: hash_ok_def)
  show "heq h x x" using heq_refl [OF f] .
  show "heq h y x" if "heq h x y" using that by (auto simp: heq_def)
  show "heq h x z" if "heq h x y" "heq h y z" using f that unfolding funs_ok_def by blast
  show "x = y" if "x \<in> helems h" "y \<in> helems h" "heq h x y" using ok that unfolding hash_ok_def by blast
  show "x \<in> helems h \<and> heq h x e" if "hash_find h e = Some x" using hash_find_Some [OF ok that] .
  show "\<not> heq h x e" if "hash_find h e = None" "x \<in> helems h" using hash_find_None [OF ok that] .
qed (rule hash_insert_law hash_delete_law; assumption)+

lemma hash_replace_law:
  assumes ok: "hash_ok h" and room: "elem_cnt h < two32 - 1" and e: "e \<notin> helems h"
  shows "\<exists>h'. hash_replace h e mem = Some (h', hash_find h e) \<and> hash_ok h' \<and> heq h' = heq h
    \<and> helems h' = insert e (case hash_find h e of None \<Rightarrow> helems h | Some x \<Rightarrow> helems h - {x})"
proof -
  define h1 where "h1 = (case hash_find h e of None \<Rightarrow> h | Some x \<Rightarrow> remove_elem h x)"
  have h1: "hash_ok h1 \<and> helems h1 = (case hash_find h e of None \<Rightarrow> helems h | Some x \<Rightarrow> helems h - {x})
      \<and> heq h1 = heq h \<and> find_bucket h1 = find_bucket h \<and> elem_cnt h1 < two32 - 1"
  proof (cases "hash_find h e")
    case (Some x)
    then have "x \<in> helems h" using hash_find_Some [OF ok] by blast
    from remove_elem_ok [OF ok this] show ?thesis using Some by (simp add: h1_def)
  qed (use ok room in \<open>simp add: h1_def\<close>)
  have none: "\<not> heq h1 x e" if "x \<in> helems h1" for x
  proof (cases "hash_find h e")
    case None
    then show ?thesis using that h1 hash_find_None [OF ok] by simp
  next
    case (Some y)
    then have y: "y \<in> helems h" "heq h y e" using hash_find_Some [OF ok] by auto
    have x: "x \<in> helems h" "x \<noteq> y" using that h1 Some by auto
    have "\<not> heq h x e" using ht.find_iff [OF ok, of e x] Some x by auto
    then show ?thesis using h1 by simp
  qed
  have "e \<notin> helems h1" using h1 e by (auto split: option.splits)
  from insert_elem_ok [OF _ this _ none] h1
  have i: "hash_ok (insert_elem h1 (find_bucket h e) e)" "helems (insert_elem h1 (find_bucket h e) e) = insert e (helems h1)"
      "heq (insert_elem h1 (find_bucket h e) e) = heq h"
    by metis+
  then show ?thesis using rehash_ok [OF i(1), of mem] h1 unfolding hash_replace_def Let_def h1_def hash_find_def by auto
qed

lemma hash_init_ok:
  assumes "hash_init hash lt mem = Some h" "length (the mem) = 4" "funs_ok h"
  shows "hash_ok h" "helems h = {}" "elem_cnt h = 0"
proof -
  have h: "buckets h = [[], [], [], []]" "bucket_cnt h = 4" "elem_cnt h = 0"
    using assms(1,2) by (auto simp: hash_init_def hash_clear_def numeral_eq_Suc split: option.splits)
  have "placed h" unfolding placed_def h by (auto intro!: exI [of _ 2] simp: numeral_eq_Suc less_Suc_eq)
  then show "hash_ok h" "helems h = {}" "elem_cnt h = 0" using assms(3) h by (simp_all add: hash_ok_def helems_def)
qed

section \<open>Iteration visits every element once\<close>

definition ahead :: "khash \<Rightarrow> nat \<Rightarrow> nat \<Rightarrow> ptr list" where
  "ahead h b k = drop k (buckets h ! b) @ concat (drop (Suc b) (buckets h))"

lemma hash_next_loop_spec:
  assumes "length (buckets h) = bucket_cnt h" "b < bucket_cnt h" "0 < k" "k \<le> Suc (length (buckets h ! b))"
  shows "case ahead h b (k - 1) of
      [] \<Rightarrow> it_elem (hash_next_loop h b k) = None
    | x # xs \<Rightarrow> \<exists>b' k'. hash_next_loop h b k = \<lparr>it_bucket = b', it_elem = Some (Suc k')\<rparr> \<and> b' < bucket_cnt h
        \<and> k' < length (buckets h ! b') \<and> buckets h ! b' ! k' = x \<and> ahead h b' (Suc k') = xs"
  using assms
proof (induction h b k rule: hash_next_loop.induct)
  case (1 h b k)
  show ?case
  proof (cases "k = Suc (length (buckets h ! b))")
    case end_of_bucket: True
    show ?thesis
    proof (cases "Suc b \<ge> bucket_cnt h")
      case True
      then have "ahead h b (k - 1) = []" using end_of_bucket 1(2) by (simp add: ahead_def)
      then show ?thesis using end_of_bucket True by (simp add: hash_next_loop.simps [of h b])
    next
      case False
      then have a: "ahead h b (k - 1) = ahead h (Suc b) (1 - 1)"
        using end_of_bucket 1(2) by (simp add: ahead_def Cons_nth_drop_Suc [symmetric])
      have l: "hash_next_loop h b k = hash_next_loop h (Suc b) 1"
        using end_of_bucket False by (simp add: hash_next_loop.simps [of h b])
      show ?thesis unfolding a l by (rule 1(1) [OF end_of_bucket False]) (use 1(2) False in simp_all)
    qed
  next
    case False
    then have k: "k - 1 < length (buckets h ! b)" "Suc (k - 1) = k" using 1(4,5) by simp_all
    then have "ahead h b (k - 1) = buckets h ! b ! (k - 1) # ahead h b k"
      unfolding ahead_def using Cons_nth_drop_Suc [OF k(1)] by simp
    then show ?thesis using False k 1(3)
      by (simp add: hash_next_loop.simps [of h b]) (intro exI [of _ "k - 1"], simp)
  qed
qed

text \<open>The results of \<open>n\<close> successive calls of \<^verbatim>\<open>hash_next\<close>.\<close>

primrec next_n :: "khash \<Rightarrow> nat \<Rightarrow> hash_iterator \<Rightarrow> ptr option list option" where
  "next_n h 0 i = Some []"
| "next_n h (Suc n) i = do { (i, e) \<leftarrow> hash_next h i; es \<leftarrow> next_n h n i; Some (e # es) }"

lemma next_n_ahead:
  assumes "length (buckets h) = bucket_cnt h" "b < bucket_cnt h" "k \<le> length (buckets h ! b)"
  shows "next_n h (Suc (length (ahead h b k))) \<lparr>it_bucket = b, it_elem = Some k\<rparr> = Some (map Some (ahead h b k) @ [None])"
  using assms(2,3)
proof (induction "ahead h b k" arbitrary: b k)
  case Nil
  then have "it_elem (hash_next_loop h b (Suc k)) = None"
    using hash_next_loop_spec [OF assms(1) Nil.prems(1), of "Suc k"] by simp
  then show ?case using Nil.hyps [symmetric] by (simp add: hash_next_def hash_cur_def Let_def)
next
  case (Cons x xs)
  obtain b' k' where i: "hash_next_loop h b (Suc k) = \<lparr>it_bucket = b', it_elem = Some (Suc k')\<rparr>" "b' < bucket_cnt h"
      "k' < length (buckets h ! b')" "buckets h ! b' ! k' = x" "ahead h b' (Suc k') = xs"
    using hash_next_loop_spec [OF assms(1) Cons.prems(1), of "Suc k"] Cons.hyps(2) [symmetric] Cons.prems(2) by auto
  have "next_n h (Suc (length xs)) \<lparr>it_bucket = b', it_elem = Some (Suc k')\<rparr> = Some (map Some xs @ [None])"
    using Cons.hyps(1) [of b' "Suc k'"] i by simp
  then show ?case using Cons.hyps(2) [symmetric] i
    by (simp del: next_n.simps(2) add: next_n.simps(2) [of h "Suc (length xs)"] hash_next_def hash_cur_def Let_def)
qed

lemma hash_string_loop_eq:
  "cstr m s bs \<Longrightarrow> hash_string_loop m s h = Some (foldl (\<lambda>h b. (h * FNV_32_PRIME) XOR ucast b) h bs)"
proof (induction bs arbitrary: s h)
  case Nil
  then show ?case by (subst hash_string_loop.simps) (simp add: cstr_def)
next
  case (Cons b bs)
  then show ?case by (subst hash_string_loop.simps) (auto simp: cstr_def)
qed

section \<open>Properties\<close>

text \<open>A table of numbers modulo 10, for concrete instances.\<close>

definition digit_table :: khash where
  "digit_table = \<lparr>elem_cnt = 1, bucket_cnt = 4, buckets = [[], [11], [], []],
     h_hash = \<lambda>p. word_of_nat (p mod 10), h_less = \<lambda>p q. p mod 10 < q mod 10\<rparr>"

lemma digit_table_ok: "hash_ok digit_table"
proof -
  have eq: "heq digit_table = (\<lambda>p q. p mod 10 = q mod 10)" by (rule ext)+ (auto simp: heq_def digit_table_def)
  have "funs_ok digit_table" unfolding funs_ok_def eq by (simp add: digit_table_def)
  moreover have "placed digit_table"
  proof -
    have "find_bucket digit_table 11 = 1" by (simp add: digit_table_def find_bucket_mod [of _ 2])
    moreover have "i = 1" if "i < 4" "e \<in> set (buckets digit_table ! i)" for i e
      using that by (auto simp: digit_table_def nth_Cons' split: if_splits)
    moreover have "e = 11" if "i < 4" "e \<in> set (buckets digit_table ! i)" for i e
      using that by (auto simp: digit_table_def nth_Cons' split: if_splits)
    ultimately show ?thesis
      unfolding placed_def by (auto simp: digit_table_def intro: exI [of _ 2])
  qed
  ultimately show ?thesis by (simp add: hash_ok_def helems_def digit_table_def)
qed

text \<open>
  C18. Insertion into a hash table: whatever \<^verbatim>\<open>malloc\<close> does during rehashing, \<^verbatim>\<open>hash_insert\<close> returns
  the equal element that was there, if any, keeps the table well formed, afterwards finds the old
  or the new element under the key, and finds every other key as before.
\<close>

theorem hash_insert_find:
  assumes "hash_ok h" "elem_cnt h < two32 - 1" "e \<notin> helems h"
  shows "\<exists>h'. hash_insert h e mem = Some (h', hash_find h e) \<and> hash_ok h'
    \<and> hash_find h' e = Some (case hash_find h e of None \<Rightarrow> e | Some x \<Rightarrow> x)
    \<and> (\<forall>k. \<not> heq h e k \<longrightarrow> hash_find h' k = hash_find h k)"
  by (rule ht.find_after_put [OF assms])

theorem hash_insert_find_witness:
  "\<exists>h'. hash_insert digit_table 25 True = Some (h', hash_find digit_table 25) \<and> hash_ok h'
    \<and> hash_find h' 25 = Some (case hash_find digit_table 25 of None \<Rightarrow> 25 | Some x \<Rightarrow> x)
    \<and> (\<forall>k. \<not> heq digit_table 25 k \<longrightarrow> hash_find h' k = hash_find digit_table k)"
  by (rule hash_insert_find [OF digit_table_ok]) (simp_all add: digit_table_def helems_def)

text \<open>
  C19. Deletion from a hash table: \<^verbatim>\<open>hash_delete\<close> returns the element equal to the key, if any, keeps
  the table well formed, no longer finds the key, and finds every other key as before.
\<close>

theorem hash_delete_find:
  assumes "hash_ok h"
  shows "\<exists>h'. hash_delete h e mem = Some (h', hash_find h e) \<and> hash_ok h' \<and> hash_find h' e = None
    \<and> (\<forall>k. \<not> heq h e k \<longrightarrow> hash_find h' k = hash_find h k)"
  by (rule ht.find_after_del [OF assms])

theorem hash_delete_find_witness:
  "\<exists>h'. hash_delete digit_table 21 False = Some (h', hash_find digit_table 21) \<and> hash_ok h' \<and> hash_find h' 21 = None
    \<and> (\<forall>k. \<not> heq digit_table 21 k \<longrightarrow> hash_find h' k = hash_find digit_table k)"
  by (rule hash_delete_find [OF digit_table_ok])

text \<open>
  C20. Rehashing keeps the load bounded: when memory is available, \<^verbatim>\<open>rehash\<close> terminates with a power
  of two of buckets, at least four, such that there are at most about four elements per bucket,
  and it loses and duplicates no element.
\<close>

theorem rehash_load:
  assumes "hash_ok h"
  shows "\<exists>h' k. rehash h True = Some h' \<and> hash_ok h' \<and> bucket_cnt h' = 2 ^ k \<and> 4 \<le> bucket_cnt h'
    \<and> elem_cnt h' < max 8 (4 * bucket_cnt h') \<and> helems h' = helems h"
proof -
  obtain h' where h': "rehash h True = Some h'" "hash_ok h'" "helems h' = helems h"
      "bucket_cnt h' \<le> max 4 (elem_cnt h' div 2)" "max 4 (elem_cnt h' div 2) < 2 * bucket_cnt h'"
    using rehash_ok [OF assms, of True] by blast
  obtain k where k: "bucket_cnt h' = 2 ^ k" using h'(2) by (auto simp: hash_ok_def placed_def)
  have b: "2 < bucket_cnt h'" "elem_cnt h' < 4 * bucket_cnt h'" using h'(5) by linarith+
  have "bucket_cnt h' \<noteq> 3" using k by (cases k) (auto, presburger)
  then have "4 \<le> bucket_cnt h'" using b(1) by linarith
  then show ?thesis using h' k b(2) by auto
qed

theorem rehash_load_witness:
  "\<exists>h' k. rehash digit_table True = Some h' \<and> hash_ok h' \<and> bucket_cnt h' = 2 ^ k \<and> 4 \<le> bucket_cnt h'
    \<and> elem_cnt h' < max 8 (4 * bucket_cnt h') \<and> helems h' = helems digit_table"
  by (rule rehash_load [OF digit_table_ok])

text \<open>
  C21. Iteration is complete: \<^verbatim>\<open>hash_first\<close> followed by \<open>n + 1\<close> calls of \<^verbatim>\<open>hash_next\<close> on a table
  of \<open>n\<close> elements returns every element once, in the order in which \<^verbatim>\<open>hash_apply\<close> visits them, and
  then a null pointer.
\<close>

theorem hash_iteration_complete:
  assumes "hash_ok h"
  shows "next_n h (Suc (hash_size h)) hash_first = Some (map Some (hash_apply h) @ [None])
    \<and> distinct (hash_apply h) \<and> set (hash_apply h) = helems h"
proof -
  have len: "length (buckets h) = bucket_cnt h" "0 < bucket_cnt h" using assms by (auto simp: hash_ok_def placed_def)
  have all: "ahead h 0 0 = concat (buckets h)" using len by (cases "buckets h") (auto simp: ahead_def)
  have ap: "hash_apply h = concat (buckets h)" using len by (simp add: hash_apply_def)
  have "hash_size h = length (concat (buckets h))" using assms by (simp add: hash_size_def hash_ok_def)
  then show ?thesis using next_n_ahead [OF len, of 0] assms unfolding all ap hash_first_def
    by (simp add: hash_ok_def helems_def)
qed

theorem hash_iteration_complete_witness:
  "next_n digit_table (Suc (hash_size digit_table)) hash_first = Some (map Some (hash_apply digit_table) @ [None])
    \<and> distinct (hash_apply digit_table) \<and> set (hash_apply digit_table) = helems digit_table"
  by (rule hash_iteration_complete [OF digit_table_ok])

end
