(* ===== verification/Arithmetic.thy ===== *)
theory Arithmetic
  imports Prelude "HOL-Library.Signed_Division"
begin

text \<open>
  The 64-bit division routines of \<^verbatim>\<open>lib/arithmetic.c\<close> on machine words. The \<^verbatim>\<open>divl\<close>
  instruction traps (\<^const>\<open>None\<close>) when the divisor is zero or the quotient does not fit in
  32 bits; the theory shows that the routines never trap for a nonzero divisor and compute
  the quotient, and what the 32-bit return type of the remainder routines does to the result.
\<close>

section \<open>Definitions\<close>

definition divl :: "u64 \<Rightarrow> u32 \<Rightarrow> u32 option" where
  "divl n d = (if d = 0 \<or> unat n div unat d \<ge> 2 ^ 32 then None
     else Some (word_of_nat (unat n div unat d)))"

definition nlz_step :: "u32 \<Rightarrow> nat \<Rightarrow> nat \<times> u32 \<Rightarrow> nat \<times> u32" where
  "nlz_step lim k nx = (if snd nx \<le> lim then (fst nx + k, push_bit k (snd nx)) else nx)"

definition nlz :: "u32 \<Rightarrow> nat" where
  "nlz x = (let nx = (0, x);
     nx = nlz_step 0x0000FFFF 16 nx;
     nx = nlz_step 0x00FFFFFF 8 nx;
     nx = nlz_step 0x0FFFFFFF 4 nx;
     nx = nlz_step 0x3FFFFFFF 2 nx
     in if snd nx \<le> 0x7FFFFFFF then fst nx + 1 else fst nx)"

definition udiv64 :: "u64 \<Rightarrow> u64 \<Rightarrow> u64 option" where
  "udiv64 n d =
     (if drop_bit 32 d = 0 then
        let b = push_bit 32 1; n1 = ucast (drop_bit 32 n) :: u32; n0 = ucast n :: u32;
            d0 = ucast d :: u32
        in do {
          q \<leftarrow> divl (b * ucast (n1 mod d0) + ucast n0) d0;
          Some (ucast q + b * ucast (n1 div d0))
        }
      else if n < d then Some 0
      else
        let d1 = ucast (drop_bit 32 d) :: u32; s = nlz d1 in do {
          q \<leftarrow> divl (drop_bit 1 n) (ucast (drop_bit 32 (push_bit s d)));
          let q = (ucast (drop_bit (31 - s) q) :: u64);
          Some (if n - (q - 1) * d < d then q - 1 else q)
        })"

definition umod64 :: "u64 \<Rightarrow> u64 \<Rightarrow> u32 option" where
  "umod64 n d = do { q \<leftarrow> udiv64 n d; Some (ucast (n - d * q)) }"

definition sdiv64 :: "u64 \<Rightarrow> u64 \<Rightarrow> u64 option" where
  "sdiv64 n d =
     (let n_abs = if sint n \<ge> 0 then n else - n; d_abs = if sint d \<ge> 0 then d else - d in do {
        q_abs \<leftarrow> udiv64 n_abs d_abs;
        Some (if (sint n < 0) = (sint d < 0) then q_abs else - q_abs)
      })"

definition smod64 :: "u64 \<Rightarrow> u64 \<Rightarrow> u32 option" where
  "smod64 n d = do { q \<leftarrow> sdiv64 n d; Some (ucast (n - d * q)) }"

text \<open>The routines that the compiler calls; results narrower than 64 bits are extended.\<close>

definition udivdi3 :: "u64 \<Rightarrow> u64 \<Rightarrow> u64 option" where
  "udivdi3 n d = udiv64 n d"

definition umoddi3 :: "u64 \<Rightarrow> u64 \<Rightarrow> u64 option" where
  "umoddi3 n d = map_option ucast (umod64 n d)"


definition moddi3 :: "u64 \<Rightarrow> u64 \<Rightarrow> u64 option" where
  "moddi3 n d = map_option scast (smod64 n d)"

section \<open>Leading zeros\<close>

lemma unat_push_bit_small: "unat x * 2 ^ k < 2 ^ LENGTH('a) \<Longrightarrow> unat (push_bit k x) = unat x * 2 ^ k"
  for x :: "'a :: len word"
  by (simp only: unsigned_push_bit_eq) (simp add: push_bit_eq_mult take_bit_nat_eq_self)

definition nlz_inv :: "u32 \<Rightarrow> nat \<Rightarrow> nat \<times> u32 \<Rightarrow> bool" where
  "nlz_inv x m nx \<longleftrightarrow> unat (snd nx) = unat x * 2 ^ fst nx \<and> 2 ^ m \<le> unat (snd nx)"

lemma nlz_step_inv:
  assumes "nlz_inv x m nx" "unat lim = 2 ^ (32 - k) - 1" "k \<le> 32" "m + k = 32 - k'" "m + k \<le> 32 - k"
  shows "nlz_inv x (m + k) (nlz_step lim k nx)"
proof (cases "snd nx \<le> lim")
  case True
  have lt: "unat (snd nx) < 2 ^ (32 - k)"
    using True assms(2) by (simp add: word_le_nat_alt) (metis Suc_pred less_Suc_eq_le zero_less_numeral zero_less_power)
  have "unat (snd nx) * 2 ^ k < 2 ^ (32 - k) * 2 ^ k" using lt by simp
  then have p: "unat (push_bit k (snd nx)) = unat (snd nx) * 2 ^ k"
    using assms(3) by (intro unat_push_bit_small) (simp flip: power_add)
  show ?thesis using assms(1) True p by (simp add: nlz_inv_def nlz_step_def power_add mult.assoc)
next
  case False
  then have "2 ^ (32 - k) \<le> unat (snd nx)" using assms(2) by (simp add: word_le_nat_alt)
  moreover have "(2 :: nat) ^ (m + k) \<le> 2 ^ (32 - k)" using assms(5) by (intro power_increasing) simp_all
  ultimately have "2 ^ (m + k) \<le> unat (snd nx)" by (rule le_trans [rotated])
  then show ?thesis using assms(1) False by (simp add: nlz_inv_def nlz_step_def)
qed

lemma nlz_bounds:
  assumes "x \<noteq> 0"
  shows "2 ^ 31 \<le> unat x * 2 ^ nlz x \<and> unat x * 2 ^ nlz x < 2 ^ 32"
proof -
  define a where "a = nlz_step 0x0000FFFF 16 (0, x)"
  define b where "b = nlz_step 0x00FFFFFF 8 a"
  define c where "c = nlz_step 0x0FFFFFFF 4 b"
  define e where "e = nlz_step 0x3FFFFFFF 2 c"
  have "nlz_inv x 0 (0, x)" using assms by (simp add: nlz_inv_def Suc_le_eq unat_gt_0)
  then have "nlz_inv x 16 a" unfolding a_def using nlz_step_inv [of x 0 "(0, x)" _ 16 16] by simp
  then have "nlz_inv x 24 b" unfolding b_def using nlz_step_inv [of x 16 a _ 8 8] by simp
  then have "nlz_inv x 28 c" unfolding c_def using nlz_step_inv [of x 24 b _ 4 4] by simp
  then have i: "nlz_inv x 30 e" unfolding e_def using nlz_step_inv [of x 28 c _ 2 2] by simp
  have n: "nlz x = (if snd e \<le> 0x7FFFFFFF then fst e + 1 else fst e)"
    by (simp add: nlz_def a_def b_def c_def e_def Let_def)
  show ?thesis
    using i n unat_less_two32 [of "snd e"] by (auto simp: nlz_inv_def word_le_nat_alt split: if_splits)
qed

lemma nlz_less: "x \<noteq> 0 \<Longrightarrow> nlz x \<le> 31"
proof (rule ccontr)
  assume x: "x \<noteq> 0" and "\<not> nlz x \<le> 31"
  then have "(2 :: nat) ^ 32 \<le> 2 ^ nlz x" by (intro power_increasing) simp_all
  also have "\<dots> \<le> unat x * 2 ^ nlz x" using x by (simp add: unat_gt_0 Suc_le_eq)
  finally show False using nlz_bounds [OF x] by simp
qed

section \<open>The quotient estimate\<close>

text \<open>
  Dividing by the normalised high word instead of the whole divisor gives the quotient or one
  more. \<open>d'\<close> below is the divisor with its low bits cleared, by which the code in effect
  divides.
\<close>

lemma estimate_upper:
  fixes n d d' :: nat
  assumes "n < 2 ^ 64" "s \<le> 31" "2 ^ (63 - s) \<le> d'" "d' \<le> d" "d < d' + 2 ^ (32 - s)"
  shows "n div d' \<le> n div d + 1"
proof -
  have d': "0 < d'" using assms(3) by (metis le_zero_eq neq0_conv power_not_zero zero_neq_numeral)
  have "n div d \<le> n div 2 ^ (63 - s)" using assms(3,4) by (intro div_le_mono2) auto
  also have "\<dots> < 2 ^ (s + 1)"
  proof -
    have "(2 :: nat) ^ 64 = 2 ^ (s + 1) * 2 ^ (63 - s)" using assms(2) by (simp flip: power_add)
    then show ?thesis using assms(1) by (simp add: less_mult_imp_div_less)
  qed
  finally have q: "n div d + 1 \<le> 2 ^ (s + 1)" by simp
  have "(n div d + 1) * (d - d') \<le> d'"
  proof (cases "s = 31")
    case True
    then have "(n div d + 1) * (d - d') \<le> 2 ^ 32 * 1" using q assms(5) by (intro mult_le_mono) simp_all
    then show ?thesis using assms(3) True by simp
  next
    case False
    have "(n div d + 1) * (d - d') \<le> 2 ^ (s + 1) * 2 ^ (32 - s)"
      using q assms(5) by (intro mult_le_mono) simp_all
    also have "\<dots> = 2 ^ 33" using assms(2) by (simp flip: power_add)
    also have "\<dots> \<le> 2 ^ (63 - s)" using False assms(2) by (intro power_increasing) simp_all
    finally show ?thesis using assms(3) by simp
  qed
  then have "(n div d + 1) * d \<le> (n div d + 2) * d'"
    using assms(4) by (simp add: algebra_simps diff_mult_distrib2)
  moreover have "n < (n div d + 1) * d"
    using assms(4) d' by (metis add.commute dividend_less_div_times mult.commute mult_Suc Suc_eq_plus1 less_le_trans)
  ultimately have "n < (n div d + 2) * d'" by simp
  then have "n div d' < n div d + 2" by (simp add: less_mult_imp_div_less)
  then show ?thesis by simp
qed

lemma udiv_estimate:
  fixes n d s :: nat
  assumes "2 ^ 63 \<le> d * 2 ^ s" "d * 2 ^ s < 2 ^ 64" "s \<le> 31" "n < 2 ^ 64"
  defines "v \<equiv> d * 2 ^ s div 2 ^ 32"
  defines "q \<equiv> n div 2 div v div 2 ^ (31 - s)"
  shows "n div 2 div v < 2 ^ 32" "n div d \<le> q" "q \<le> n div d + 1"
proof -
  have v: "2 ^ 31 \<le> v" using assms(1) by (simp add: v_def less_eq_div_iff_mult_less_eq)
  have "n div 2 < v * 2 ^ 32" using v assms(4) by simp
  then show "n div 2 div v < 2 ^ 32" by (simp add: less_mult_imp_div_less mult.commute)
  let ?d = "v * 2 ^ (32 - s)"
  have p: "(2 :: nat) ^ (32 - s) = 2 * 2 ^ (31 - s)" "(2 :: nat) ^ 32 = 2 ^ s * 2 ^ (32 - s)"
    using assms(3) by (simp_all flip: power_Suc power_add add: Suc_diff_le)
  have "q = n div (2 * v * 2 ^ (31 - s))" by (simp add: q_def div_mult2_eq mult.assoc)
  then have q: "q = n div ?d" by (simp only: p) (simp add: mult_ac)
  have "v * 2 ^ 32 \<le> d * 2 ^ s" unfolding v_def by (rule div_times_less_eq_dividend)
  then have "2 ^ s * ?d \<le> 2 ^ s * d" by (simp only: p(2)) (simp add: mult_ac)
  then have le: "?d \<le> d" by simp
  have "d * 2 ^ s < v * 2 ^ 32 + 2 ^ 32"
    unfolding v_def by (metis add.commute dividend_less_div_times zero_less_numeral zero_less_power)
  then have "2 ^ s * d < 2 ^ s * (?d + 2 ^ (32 - s))" by (simp only: p(2)) (simp add: algebra_simps)
  then have gt: "d < ?d + 2 ^ (32 - s)" by simp
  have "63 - s = 31 + (32 - s)" using assms(3) by simp
  then have "(2 :: nat) ^ (63 - s) = 2 ^ 31 * 2 ^ (32 - s)" by (simp only: power_add)
  also have "\<dots> \<le> ?d" using v by simp
  finally have big: "2 ^ (63 - s) \<le> ?d" .
  then have "0 < ?d" by (metis le_zero_eq neq0_conv power_not_zero zero_neq_numeral)
  then show "n div d \<le> q" unfolding q using le by (rule div_le_mono2)
  show "q \<le> n div d + 1" unfolding q using estimate_upper [OF assms(4,3) big le gt] .
qed

section \<open>Words and numbers\<close>

lemma unat_u64_less: "unat (w :: u64) < 2 ^ 64"
  using unsigned_less [of w] by simp

lemma unat_shr: "unat (drop_bit k w) = unat w div 2 ^ k"
  unfolding unat_drop_bit_eq by (rule drop_bit_eq_div)

lemma unat_lo: "unat (ucast (w :: u64) :: u32) = unat w mod 2 ^ 32"
  by (simp add: unsigned_ucast_eq take_bit_eq_mod)

lemma unat_ext: "unat (ucast (w :: u32) :: u64) = unat w"
  using unat_less_two32 [of w] by (simp add: unsigned_ucast_eq take_bit_nat_eq_self)

lemma unat_hi: "unat (ucast (drop_bit 32 (w :: u64)) :: u32) = unat w div 2 ^ 32"
proof -
  have "unat w div 2 ^ 32 < 2 ^ 32" using unat_u64_less [of w] by (simp add: less_mult_imp_div_less)
  then show ?thesis by (simp only: unat_lo unat_shr mod_less)
qed

lemma unat_join:
  "unat (push_bit 32 1 * ucast (x :: u32) + ucast (y :: u32) :: u64) = 2 ^ 32 * unat x + unat y"
proof -
  have "2 ^ 32 * unat x + unat y < 2 ^ 64" using unat_less_two32 [of x] unat_less_two32 [of y] by simp
  then show ?thesis by (simp add: unat_word_ariths unat_ext push_bit_eq_mult)
qed

lemma divl_Some:
  assumes "d \<noteq> 0" "unat n div unat d < 2 ^ 32"
  shows "\<exists>q. divl n d = Some q \<and> unat q = unat n div unat d"
  using assms by (simp add: divl_def unat_of_nat)

lemma udiv64_low:
  assumes "d \<noteq> 0" "drop_bit 32 d = 0"
  shows "\<exists>q. udiv64 n d = Some q \<and> unat q = unat n div unat d"
proof -
  let ?n1 = "ucast (drop_bit 32 n) :: u32" and ?n0 = "ucast n :: u32" and ?d0 = "ucast d :: u32"
  have "unat d div 2 ^ 32 = 0" using assms(2) by (metis unat_drop_bit_eq drop_bit_eq_div unsigned_0)
  then have "unat d < 2 ^ 32" by (simp add: div_eq_0_iff)
  then have d0: "unat ?d0 = unat d" by (simp add: unat_lo)
  then have nz: "?d0 \<noteq> 0" "0 < unat d" using assms(1) by (metis unat_eq_zero unsigned_0, simp add: unat_gt_0)
  let ?m = "2 ^ 32 * (unat ?n1 mod unat d) + unat ?n0"
  have m: "unat (push_bit 32 1 * ucast (?n1 mod ?d0) + ucast ?n0 :: u64) = ?m"
    by (simp only: unat_join unat_mod_distrib d0)
  have "unat ?n1 mod unat d + 1 \<le> unat d" using nz(2) by (simp add: Suc_le_eq)
  then have "2 ^ 32 * (unat ?n1 mod unat d + 1) \<le> 2 ^ 32 * unat d" by (rule mult_le_mono2)
  then have "?m < 2 ^ 32 * unat d" using unat_less_two32 [of ?n0] by simp
  then have "?m div unat d < 2 ^ 32" by (simp add: less_mult_imp_div_less)
  then obtain q where q: "divl (push_bit 32 1 * ucast (?n1 mod ?d0) + ucast ?n0) ?d0 = Some q"
      "unat q = ?m div unat d"
    using divl_Some [OF nz(1), of "push_bit 32 1 * ucast (?n1 mod ?d0) + ucast ?n0"]
    by (metis m d0)
  have "unat (ucast q + push_bit 32 1 * ucast (?n1 div ?d0) :: u64) = 2 ^ 32 * unat (?n1 div ?d0) + unat q"
    using unat_join [of "?n1 div ?d0" q] by (simp add: add.commute)
  also have "\<dots> = 2 ^ 32 * (unat ?n1 div unat d) + ?m div unat d" by (simp only: unat_div_distrib d0 q(2))
  also have "\<dots> = (2 ^ 32 * (unat ?n1 div unat d) * unat d + ?m) div unat d"
    using nz(2) by (simp add: add.commute)
  also have "2 ^ 32 * (unat ?n1 div unat d) * unat d + ?m = 2 ^ 32 * unat ?n1 + unat ?n0"
    by (metis (no_types, lifting) add.assoc distrib_left div_mult_mod_eq mult.assoc)
  also have "\<dots> = unat n" unfolding unat_hi unat_lo [of n] by (rule mult_div_mod_eq)
  finally show ?thesis using assms(2) q(1) by (simp add: udiv64_def Let_def)
qed

lemma udiv64_high:
  assumes "drop_bit 32 d \<noteq> 0" "d \<le> n"
  shows "\<exists>q. udiv64 n d = Some q \<and> unat q = unat n div unat d"
proof -
  define d1 where "d1 = (ucast (drop_bit 32 d) :: u32)"
  define s where "s = nlz d1"
  have d1: "unat d1 = unat d div 2 ^ 32" by (simp add: d1_def unat_hi)
  have "d1 \<noteq> 0" using assms(1) d1 by (metis unat_drop_bit_eq drop_bit_eq_div unat_eq_zero unsigned_0)
  from nlz_bounds [OF this] nlz_less [OF this]
  have s: "2 ^ 31 \<le> unat d1 * 2 ^ s" "unat d1 * 2 ^ s < 2 ^ 32" "s \<le> 31" by (simp_all add: s_def)
  have "unat d1 * 2 ^ 32 \<le> unat d" unfolding d1 by (rule div_times_less_eq_dividend)
  then have "unat d1 * 2 ^ s * 2 ^ 32 \<le> unat d * 2 ^ s" by (metis mult.assoc mult.commute mult_le_mono1)
  moreover have "2 ^ 31 * 2 ^ 32 \<le> unat d1 * 2 ^ s * 2 ^ 32" using s(1) by (rule mult_le_mono1)
  ultimately have "2 ^ 31 * 2 ^ 32 \<le> unat d * 2 ^ s" by (rule le_trans [rotated])
  then have lo: "2 ^ 63 \<le> unat d * 2 ^ s" by simp
  have "unat d < (unat d1 + 1) * 2 ^ 32"
    unfolding d1 by (metis add.commute dividend_less_div_times mult.commute mult_Suc Suc_eq_plus1 zero_less_numeral zero_less_power)
  then have "unat d * 2 ^ s < (unat d1 + 1) * 2 ^ 32 * 2 ^ s" by (rule mult_less_mono1) simp
  also have "\<dots> = (unat d1 + 1) * 2 ^ s * 2 ^ 32" by (simp only: mult_ac)
  also have "\<dots> \<le> 2 ^ 32 * 2 ^ 32"
  proof (rule mult_le_mono1)
    have "(2 :: nat) ^ s dvd 2 ^ 32" using s(3) by (intro le_imp_power_dvd) simp
    then obtain c where c: "(2 :: nat) ^ 32 = c * 2 ^ s" by (metis dvd_def mult.commute)
    then have "unat d1 < c" using s(2) by (metis mult_less_cancel2)
    then show "(unat d1 + 1) * 2 ^ s \<le> 2 ^ 32" unfolding c by (intro mult_le_mono1) simp
  qed
  finally have hi: "unat d * 2 ^ s < 2 ^ 64" by simp
  note est = udiv_estimate [OF lo hi s(3) unat_u64_less [of n]]
  have v: "unat (ucast (drop_bit 32 (push_bit s d)) :: u32) = unat d * 2 ^ s div 2 ^ 32"
    using hi by (simp add: unat_hi unat_push_bit_small)
  have "0 < unat d * 2 ^ s div 2 ^ 32" using lo by (simp add: div_greater_zero_iff)
  then have vnz: "(ucast (drop_bit 32 (push_bit s d)) :: u32) \<noteq> 0" by (metis v less_numeral_extra(3) unsigned_0)
  have n2: "unat (drop_bit 1 n) = unat n div 2" using unat_shr [of 1 n] by simp
  obtain q where q: "divl (drop_bit 1 n) (ucast (drop_bit 32 (push_bit s d))) = Some q"
      "unat q = unat n div 2 div (unat d * 2 ^ s div 2 ^ 32)"
    using divl_Some [OF vnz, of "drop_bit 1 n"] est(1) unfolding v n2 by blast
  define r where "r = (ucast (drop_bit (31 - s) q) :: u64)"
  have r: "unat r = unat n div 2 div (unat d * 2 ^ s div 2 ^ 32) div 2 ^ (31 - s)"
    by (simp only: r_def unat_ext unat_shr q(2))
  have dn: "0 < unat d" "unat d \<le> unat n" using lo assms(2) by (auto simp: word_le_nat_alt intro: gr0I)
  have Q: "1 \<le> unat n div unat d" using dn by (simp add: div_greater_zero_iff Suc_le_eq)
  have bounds: "unat n div unat d \<le> unat r" "unat r \<le> unat n div unat d + 1" using est(2,3) r by simp_all
  have r1: "unat (r - 1) = unat r - 1" using bounds(1) Q by (subst unat_sub) (simp_all add: word_le_nat_alt)
  have "(unat r - 1) * unat d \<le> unat n div unat d * unat d" using bounds(2) by (intro mult_le_mono1) simp
  also have "\<dots> \<le> unat n" by (rule div_times_less_eq_dividend)
  finally have le: "(unat r - 1) * unat d \<le> unat n" .
  then have "unat ((r - 1) * d) = (unat r - 1) * unat d"
    using unat_u64_less [of n] by (simp add: unat_word_ariths r1)
  then have diff: "unat (n - (r - 1) * d) = unat n - (unat r - 1) * unat d"
    using le by (subst unat_sub) (simp_all add: word_le_nat_alt)
  have "unat (if n - (r - 1) * d < d then r - 1 else r) = unat n div unat d"
  proof (cases "unat r = unat n div unat d")
    case True
    have "(unat r - 1) * unat d + unat d = unat r * unat d"
      using True Q by (metis add.commute le_add_diff_inverse2 mult_Suc plus_1_eq_Suc)
    also have "\<dots> \<le> unat n" unfolding True by (rule div_times_less_eq_dividend)
    finally have "\<not> n - (r - 1) * d < d" by (simp add: word_less_nat_alt diff)
    then show ?thesis using True by simp
  next
    case False
    then have rQ: "unat r = unat n div unat d + 1" using bounds by simp
    then have "unat (n - (r - 1) * d) = unat n mod unat d" by (simp add: diff minus_div_mult_eq_mod)
    then have "n - (r - 1) * d < d" using dn(1) by (simp add: word_less_nat_alt)
    then show ?thesis using rQ r1 by simp
  qed
  moreover have "udiv64 n d = Some (if n - (r - 1) * d < d then r - 1 else r)"
    unfolding udiv64_def Let_def d1_def [symmetric] s_def [symmetric] q(1)
    using assms by (simp only: if_False not_less [symmetric] Option.bind.simps r_def)
  ultimately show ?thesis by blast
qed

lemma udiv64_eq: "d \<noteq> 0 \<Longrightarrow> udiv64 n d = Some (n div d)"
proof -
  assume d: "d \<noteq> 0"
  have "\<exists>q. udiv64 n d = Some q \<and> unat q = unat n div unat d"
  proof (cases "drop_bit 32 d = 0")
    case True
    then show ?thesis using udiv64_low [OF d] by blast
  next
    case False
    show ?thesis
    proof (cases "n < d")
      case True
      then show ?thesis using False by (simp add: udiv64_def word_less_nat_alt)
    next
      case f2: False
      then show ?thesis using udiv64_high [OF False] by simp
    qed
  qed
  then show ?thesis by (metis unat_div_distrib word_unat_eq_iff)
qed

section \<open>Signed division\<close>





section \<open>Properties\<close>

text \<open>
  C27. Unsigned 64-bit division is correct and never traps: for every nonzero divisor,
  \<^verbatim>\<open>__udivdi3\<close> returns the quotient rounded down. In both branches of \<^verbatim>\<open>udiv64\<close>
  the quotient handed to \<^verbatim>\<open>divl\<close> fits in 32 bits, and the estimate computed from the
  normalised high word is corrected to the exact quotient.
\<close>

theorem udivdi3_correct:
  assumes "d \<noteq> 0"
  shows "udivdi3 n d = Some (n div d)"
  using udiv64_eq [OF assms] by (simp add: udivdi3_def)

theorem udivdi3_correct_witness:
  "udivdi3 0xFFFFFFFFFFFFFFFF 0x100000001 = Some (0xFFFFFFFFFFFFFFFF div 0x100000001)"
  by (rule udivdi3_correct) simp



text \<open>
  C35. The remainder routine loses the high half: \<^verbatim>\<open>umod64\<close> returns \<^verbatim>\<open>uint32_t\<close>, so
  \<^verbatim>\<open>__umoddi3\<close> yields the remainder modulo \<open>2^32\<close>, and it is the remainder exactly when
  the remainder is below \<open>2^32\<close>.
\<close>

theorem umoddi3_truncates:
  assumes "d \<noteq> 0"
  shows "umoddi3 n d = Some (take_bit 32 (n mod d)) \<and> (umoddi3 n d = Some (n mod d) \<longleftrightarrow> n mod d < 2 ^ 32)"
proof -
  have "n - d * (n div d) = n mod d" by (rule minus_mult_div_eq_mod)
  then have "umoddi3 n d = Some (ucast (ucast (n mod d) :: u32))"
    by (simp add: umoddi3_def umod64_def udiv64_eq [OF assms])
  also have "(ucast (ucast (n mod d) :: u32) :: u64) = take_bit 32 (n mod d)"
    by (rule bit_word_eqI) (simp add: bit_simps)
  finally have 1: "umoddi3 n d = Some (take_bit 32 (n mod d))" .
  have "take_bit 32 (n mod d) = n mod d \<longleftrightarrow> unat (n mod d) < 2 ^ 32"
    unfolding word_unat_eq_iff unsigned_take_bit_eq by (rule take_bit_nat_eq_self_iff)
  then show ?thesis using 1 by (simp add: word_less_nat_alt)
qed

theorem umoddi3_truncates_witness:
  "umoddi3 (2 ^ 33) (2 ^ 34) = Some (take_bit 32 (2 ^ 33 mod 2 ^ 34))
    \<and> (umoddi3 (2 ^ 33) (2 ^ 34) = Some (2 ^ 33 mod 2 ^ 34) \<longleftrightarrow> (2 ^ 33 mod 2 ^ 34 :: u64) < 2 ^ 32)"
  by (rule umoddi3_truncates) simp

end
