(* ===== verification/Stdlib.thy ===== *)
theory Stdlib
  imports Prelude "HOL-Library.Multiset"
begin

text \<open>
  Sorting and searching of \<^verbatim>\<open>lib/stdlib.c\<close>. An array of \<open>cnt\<close> elements of \<open>size\<close> bytes is the
  list of its bytes, as the code sees it; the abstraction \<open>elems\<close> cuts it into elements, and
  \<^verbatim>\<open>do_swap\<close>, which exchanges two elements byte by byte, is shown to exchange two positions
  of that list. The comparison function is a parameter that sees the bytes of its two
  arguments. An access outside the array is \<^const>\<open>None\<close>, and so is a heapify loop that does
  not end, which the wrap-around of \<open>2 * i\<close> could cause on absurdly large counts.
\<close>

section \<open>Definitions\<close>

type_synonym elem = "u8 list"
type_synonym compare_func = "elem \<Rightarrow> elem \<Rightarrow> int"

definition elem_off :: "nat \<Rightarrow> nat \<Rightarrow> nat" where
  "elem_off idx sz = mul32 (sub32 idx 1) sz"

definition chunk :: "u8 list \<Rightarrow> nat \<Rightarrow> nat \<Rightarrow> elem" where
  "chunk array off sz = take sz (drop off array)"

fun do_swap_loop :: "u8 list \<Rightarrow> nat \<Rightarrow> nat \<Rightarrow> nat \<Rightarrow> nat \<Rightarrow> u8 list" where
  "do_swap_loop array a b i 0 = array"
| "do_swap_loop array a b i (Suc left) =
     do_swap_loop (let t = array ! (a + i); array = array[a + i := array ! (b + i)]
                   in array[b + i := t]) a b (Suc i) left"

definition do_swap :: "u8 list \<Rightarrow> nat \<Rightarrow> nat \<Rightarrow> nat \<Rightarrow> u8 list option" where
  "do_swap array a_idx b_idx sz = (let a = elem_off a_idx sz; b = elem_off b_idx sz in
     if a + sz \<le> length array \<and> b + sz \<le> length array
     then Some (do_swap_loop array a b 0 sz) else None)"

definition do_compare :: "u8 list \<Rightarrow> nat \<Rightarrow> nat \<Rightarrow> nat \<Rightarrow> compare_func \<Rightarrow> int option" where
  "do_compare array a_idx b_idx sz compare = (let a = elem_off a_idx sz; b = elem_off b_idx sz in
     if a + sz \<le> length array \<and> b + sz \<le> length array
     then Some (compare (chunk array a sz) (chunk array b sz)) else None)"

definition larger_child :: "u8 list \<Rightarrow> nat \<Rightarrow> nat \<Rightarrow> nat \<Rightarrow> nat \<Rightarrow> compare_func \<Rightarrow> nat option" where
  "larger_child array child mx cnt sz compare =
     (if child \<le> cnt then do {
        c \<leftarrow> do_compare array child mx sz compare;
        Some (if c > 0 then child else mx)
      } else Some mx)"

partial_function (option) heapify ::
    "u8 list \<Rightarrow> nat \<Rightarrow> nat \<Rightarrow> nat \<Rightarrow> compare_func \<Rightarrow> u8 list option" where
  "heapify array i cnt sz compare = do {
     let left = mul32 2 i;
     let right = add32 (mul32 2 i) 1;
     mx \<leftarrow> larger_child array left i cnt sz compare;
     mx \<leftarrow> larger_child array right mx cnt sz compare;
     if mx = i then Some array
     else do {
       array \<leftarrow> do_swap array i mx sz;
       heapify array mx cnt sz compare
     }
   }"

primrec build_heap :: "u8 list \<Rightarrow> nat \<Rightarrow> nat \<Rightarrow> nat \<Rightarrow> compare_func \<Rightarrow> u8 list option" where
  "build_heap array 0 cnt sz compare = Some array"
| "build_heap array (Suc i) cnt sz compare = do {
     array \<leftarrow> heapify array (Suc i) cnt sz compare;
     build_heap array i cnt sz compare
   }"

fun sort_heap :: "u8 list \<Rightarrow> nat \<Rightarrow> nat \<Rightarrow> compare_func \<Rightarrow> u8 list option" where
  "sort_heap array 0 sz compare = Some array"
| "sort_heap array (Suc 0) sz compare = Some array"
| "sort_heap array (Suc (Suc i)) sz compare = do {
     array \<leftarrow> do_swap array 1 (Suc (Suc i)) sz;
     array \<leftarrow> heapify array 1 (Suc i) sz compare;
     sort_heap array (Suc i) sz compare
   }"

definition sort_array :: "u8 list \<Rightarrow> nat \<Rightarrow> nat \<Rightarrow> compare_func \<Rightarrow> u8 list option" where
  "sort_array array cnt sz compare = do {
     ASSERT (sz > 0);
     array \<leftarrow> build_heap array (cnt div 2) cnt sz compare;
     sort_heap array cnt sz compare
   }"

definition compare_thunk :: "elem \<Rightarrow> elem \<Rightarrow> compare_func \<Rightarrow> int" where
  "compare_thunk a b aux = aux a b"

definition qsort :: "u8 list \<Rightarrow> nat \<Rightarrow> nat \<Rightarrow> compare_func \<Rightarrow> u8 list option" where
  "qsort array cnt sz compare = sort_array array cnt sz (\<lambda>a b. compare_thunk a b compare)"

text \<open>Positions of \<^verbatim>\<open>first\<close>, \<^verbatim>\<open>last\<close> and \<^verbatim>\<open>middle\<close> are offsets into the array.\<close>

function search_loop :: "elem \<Rightarrow> u8 list \<Rightarrow> nat \<Rightarrow> nat \<Rightarrow> nat \<Rightarrow> compare_func \<Rightarrow> nat option option" where
  "search_loop key array first lst sz compare =
     (if first < lst then
        if sz = 0 then None
        else
          let range = (lst - first) div sz; middle = first + (range div 2) * sz in
          if length array < middle + sz then None
          else
            let c = compare key (chunk array middle sz) in
            if c < 0 then search_loop key array first middle sz compare
            else if c > 0 then search_loop key array (middle + sz) lst sz compare
            else Some (Some middle)
      else Some None)"
  by pat_completeness auto
termination
proof (relation "measure (\<lambda>(key, array, first, lst, sz, compare). lst - first)", goal_cases)
  case (2 key array first lst sz compare range middle c)
  let ?r = "(lst - first) div sz"
  have "?r div 2 * sz < lst - first"
  proof (cases "?r = 0")
    case False
    then have "?r div 2 * sz < ?r * sz" using 2 by simp
    also have "\<dots> \<le> lst - first" by simp
    finally show ?thesis .
  qed (use 2 in simp)
  then show ?case using 2 by simp
qed auto

definition binary_search :: "elem \<Rightarrow> u8 list \<Rightarrow> nat \<Rightarrow> nat \<Rightarrow> compare_func \<Rightarrow> nat option option" where
  "binary_search key array cnt sz compare = search_loop key array 0 (mul32 sz cnt) sz compare"

definition bsearch :: "elem \<Rightarrow> u8 list \<Rightarrow> nat \<Rightarrow> nat \<Rightarrow> compare_func \<Rightarrow> nat option option" where
  "bsearch key array cnt sz compare =
     binary_search key array cnt sz (\<lambda>a b. compare_thunk a b compare)"

declare search_loop.simps [simp del]

section \<open>Elements\<close>

definition elems :: "nat \<Rightarrow> nat \<Rightarrow> u8 list \<Rightarrow> elem list" where
  "elems cnt sz array = map (\<lambda>i. chunk array (i * sz) sz) [0..<cnt]"

lemma length_elems [simp]: "length (elems cnt sz array) = cnt"
  by (simp add: elems_def)

lemma nth_elems [simp]: "i < cnt \<Longrightarrow> elems cnt sz array ! i = chunk array (i * sz) sz"
  by (simp add: elems_def)

definition warray :: "nat \<Rightarrow> nat \<Rightarrow> u8 list \<Rightarrow> bool" where
  "warray cnt sz array \<longleftrightarrow> 0 < sz \<and> length array = cnt * sz \<and> cnt * sz < two32 \<and> 2 * cnt + 1 < two32"

lemma in_chunk_iff: "k < sz \<Longrightarrow> a * sz \<le> i * sz + k \<and> i * sz + k < a * sz + sz \<longleftrightarrow> i = (a :: nat)"
proof -
  assume k: "k < sz"
  have "(i * sz + k) div sz = i" using k by simp
  moreover have "(i * sz + k) div sz = a" if "a * sz \<le> i * sz + k" "i * sz + k < a * sz + sz"
    using that by (intro div_nat_eqI) (simp_all add: mult.commute)
  ultimately show ?thesis using k by auto
qed

lemma do_swap_loop_nth:
  assumes "a + i + left \<le> length array" "b + i + left \<le> length array" "a = b \<or> a + i + left \<le> b \<or> b + i + left \<le> a"
  shows "length (do_swap_loop array a b i left) = length array
    \<and> (k < length array \<longrightarrow> do_swap_loop array a b i left ! k =
        (if a + i \<le> k \<and> k < a + i + left then array ! (b + (k - a))
         else if b + i \<le> k \<and> k < b + i + left then array ! (a + (k - b)) else array ! k))"
  using assms
proof (induction array a b i left rule: do_swap_loop.induct)
  case (1 array a b i)
  then show ?case by auto
next
  case (2 array a b i left)
  define array' where "array' = (let t = array ! (a + i); array = array[a + i := array ! (b + i)] in array[b + i := t])"
  have len: "length array' = length array" by (simp add: array'_def Let_def)
  have nth: "array' ! m = (if m = a + i then array ! (b + i) else if m = b + i then array ! (a + i) else array ! m)"
    if "m < length array" for m
    using that "2.prems" by (auto simp: array'_def Let_def nth_list_update)
  have IH: "length (do_swap_loop array' a b (Suc i) left) = length array
    \<and> (k < length array \<longrightarrow> do_swap_loop array' a b (Suc i) left ! k =
        (if a + Suc i \<le> k \<and> k < a + Suc i + left then array' ! (b + (k - a))
         else if b + Suc i \<le> k \<and> k < b + Suc i + left then array' ! (a + (k - b)) else array' ! k))"
    using "2.IH" [folded array'_def] "2.prems" len by simp
  have 1: "array' ! (b + (k - a)) = array ! (b + (k - a))" if "a + Suc i \<le> k" "k < a + Suc i + left"
    using that "2.prems" by (subst nth) auto
  have 2: "array' ! (a + (k - b)) = array ! (a + (k - b))" if "b + Suc i \<le> k" "k < b + Suc i + left"
    using that "2.prems" by (subst nth) auto
  have step: "do_swap_loop array a b i (Suc left) = do_swap_loop array' a b (Suc i) left"
    by (simp add: array'_def)
  show ?case
  proof (intro conjI impI)
    show "length (do_swap_loop array a b i (Suc left)) = length array" using IH step by simp
    assume k: "k < length array"
    then show "do_swap_loop array a b i (Suc left) ! k =
        (if a + i \<le> k \<and> k < a + i + Suc left then array ! (b + (k - a))
         else if b + i \<le> k \<and> k < b + i + Suc left then array ! (a + (k - b)) else array ! k)"
      using IH step 1 2 nth [OF k] "2.prems"(3)
      by (cases "k = a + i"; cases "k = b + i") auto
  qed
qed

definition swap_at :: "'a list \<Rightarrow> nat \<Rightarrow> nat \<Rightarrow> 'a list" where
  "swap_at xs i j = xs[i := xs ! j, j := xs ! i]"

lemma length_swap_at [simp]: "length (swap_at xs i j) = length xs"
  by (simp add: swap_at_def)

lemma nth_swap_at: "k < length xs \<Longrightarrow> swap_at xs i j ! k = (if k = j then xs ! i else if k = i then xs ! j else xs ! k)"
  by (auto simp: swap_at_def nth_list_update)

lemma elem_off_eq: "warray cnt sz array \<Longrightarrow> 1 \<le> i \<Longrightarrow> i \<le> cnt \<Longrightarrow> elem_off i sz = (i - 1) * sz"
proof -
  assume w: "warray cnt sz array" and i: "1 \<le> i" "i \<le> cnt"
  have "(i - 1) * sz \<le> cnt * sz" using i by (intro mult_le_mono1) simp
  moreover have "cnt * sz < two32" using w by (simp add: warray_def)
  ultimately have "(i - 1) * sz < two32" by (rule le_less_trans)
  then show ?thesis using w i by (simp add: elem_off_def warray_def)
qed

lemma elem_in_array: "1 \<le> i \<Longrightarrow> i \<le> cnt \<Longrightarrow> (i - 1) * sz + sz \<le> cnt * (sz :: nat)"
  using mult_le_mono1 [of i cnt sz] by (cases i) simp_all

lemma do_swap_elems:
  assumes w: "warray cnt sz array" and a: "1 \<le> a" "a \<le> cnt" and b: "1 \<le> b" "b \<le> cnt"
  shows "\<exists>array'. do_swap array a b sz = Some array' \<and> warray cnt sz array'
    \<and> elems cnt sz array' = swap_at (elems cnt sz array) (a - 1) (b - 1)"
proof -
  let ?a = "(a - 1) * sz" and ?b = "(b - 1) * sz"
  define array' where "array' = do_swap_loop array ?a ?b 0 sz"
  have len: "length array = cnt * sz" using w by (simp add: warray_def)
  have in_array: "?a + sz \<le> length array" "?b + sz \<le> length array"
    using elem_in_array [OF a] elem_in_array [OF b] len by simp_all
  have disj: "?a = ?b \<or> ?a + 0 + sz \<le> ?b \<or> ?b + 0 + sz \<le> ?a"
    using mult_le_mono1 [of a "b - 1" sz] mult_le_mono1 [of b "a - 1" sz] a b
    by (cases a b rule: linorder_cases) (auto simp: diff_mult_distrib)
  have len': "length array' = length array"
    and nth: "\<And>k. k < length array \<Longrightarrow> array' ! k =
        (if ?a \<le> k \<and> k < ?a + sz then array ! (?b + (k - ?a))
         else if ?b \<le> k \<and> k < ?b + sz then array ! (?a + (k - ?b)) else array ! k)"
    using do_swap_loop_nth [of ?a 0 sz array ?b] in_array disj unfolding array'_def by simp_all
  have "elems cnt sz array' ! i = swap_at (elems cnt sz array) (a - 1) (b - 1) ! i" if "i < cnt" for i
  proof (rule nth_equalityI)
    have ie: "i * sz + sz \<le> length array" using elem_in_array [of "Suc i" cnt sz] that len by simp
    then show "length (elems cnt sz array' ! i) = length (swap_at (elems cnt sz array) (a - 1) (b - 1) ! i)"
      using that a b in_array len' by (simp add: nth_swap_at chunk_def)
    fix k assume "k < length (elems cnt sz array' ! i)"
    then have k: "k < sz" using that by (simp add: chunk_def)
    then have "elems cnt sz array' ! i ! k = array' ! (i * sz + k)" using that ie len' by (simp add: chunk_def)
    also have "\<dots> = (if i = a - 1 then array ! (?b + k) else if i = b - 1 then array ! (?a + k) else array ! (i * sz + k))"
      using k ie by (simp add: nth in_chunk_iff)
    finally show "elems cnt sz array' ! i ! k = swap_at (elems cnt sz array) (a - 1) (b - 1) ! i ! k"
      using that k a b ie in_array by (simp add: nth_swap_at chunk_def)
  qed
  then have "elems cnt sz array' = swap_at (elems cnt sz array) (a - 1) (b - 1)"
    by (intro nth_equalityI) simp_all
  moreover have "do_swap array a b sz = Some array'"
    using in_array elem_off_eq [OF w a] elem_off_eq [OF w b] by (simp add: do_swap_def array'_def)
  ultimately show ?thesis using w len' by (simp add: warray_def)
qed

lemma do_compare_elems:
  assumes w: "warray cnt sz array" and a: "1 \<le> a" "a \<le> cnt" and b: "1 \<le> b" "b \<le> cnt"
  shows "do_compare array a b sz compare = Some (compare (elems cnt sz array ! (a - 1)) (elems cnt sz array ! (b - 1)))"
  using elem_in_array [OF a, of sz] elem_in_array [OF b, of sz] elem_off_eq [OF w a] elem_off_eq [OF w b] w a b
  by (simp add: do_compare_def warray_def)

section \<open>Heaps\<close>

text \<open>The contract of a comparison function: it decides a total preorder.\<close>

definition cmp_order :: "('a \<Rightarrow> 'a \<Rightarrow> int) \<Rightarrow> bool" where
  "cmp_order compare \<longleftrightarrow> (\<forall>a b. compare a b > 0 \<longleftrightarrow> compare b a < 0)
     \<and> (\<forall>a b c. compare a b \<le> 0 \<longrightarrow> compare b c \<le> 0 \<longrightarrow> compare a c \<le> 0)"

lemma cmp_order_anti: "cmp_order compare \<Longrightarrow> compare a b > 0 \<longleftrightarrow> compare b a < 0"
  unfolding cmp_order_def by blast

lemma cmp_order_gt: "cmp_order compare \<Longrightarrow> compare a b > 0 \<Longrightarrow> compare b a \<le> 0"
  using cmp_order_anti [of compare a b] by simp

lemma cmp_order_refl: "cmp_order compare \<Longrightarrow> compare a a \<le> 0"
  using cmp_order_anti [of compare a a] by linarith

lemma cmp_order_trans: "cmp_order compare \<Longrightarrow> compare a b \<le> 0 \<Longrightarrow> compare b c \<le> 0 \<Longrightarrow> compare a c \<le> 0"
  unfolding cmp_order_def by blast

lemma cmp_order_less_le: "cmp_order compare \<Longrightarrow> compare a b < 0 \<Longrightarrow> compare b c \<le> 0 \<Longrightarrow> compare a c < 0"
  using cmp_order_anti [of compare c a] cmp_order_anti [of compare b a] cmp_order_trans [of compare b c a]
  by linarith

lemma cmp_order_le_less: "cmp_order compare \<Longrightarrow> compare a b \<le> 0 \<Longrightarrow> compare b c < 0 \<Longrightarrow> compare a c < 0"
  using cmp_order_anti [of compare c a] cmp_order_anti [of compare c b] cmp_order_trans [of compare c a b]
  by linarith

text \<open>Nodes of a heap are numbered from 1; \<open>dom\<close>: a node is at least its children up to \<open>n\<close>.\<close>

definition el :: "'a list \<Rightarrow> nat \<Rightarrow> 'a" where
  "el xs k = xs ! (k - 1)"

definition dominates :: "('a \<Rightarrow> 'a \<Rightarrow> int) \<Rightarrow> 'a list \<Rightarrow> nat \<Rightarrow> nat \<Rightarrow> bool" where
  "dominates compare xs n k \<longleftrightarrow> (\<forall>c \<in> {2 * k, 2 * k + 1}. c \<le> n \<longrightarrow> compare (el xs c) (el xs k) \<le> 0)"

definition heap_from :: "('a \<Rightarrow> 'a \<Rightarrow> int) \<Rightarrow> 'a list \<Rightarrow> nat \<Rightarrow> nat \<Rightarrow> bool" where
  "heap_from compare xs i n \<longleftrightarrow> (\<forall>k \<ge> i. dominates compare xs n k)"

definition sift_inv :: "('a \<Rightarrow> 'a \<Rightarrow> int) \<Rightarrow> 'a list \<Rightarrow> nat \<Rightarrow> nat \<Rightarrow> nat \<Rightarrow> bool" where
  "sift_inv compare xs i n j \<longleftrightarrow> (\<forall>k \<ge> i. k \<noteq> j \<longrightarrow> dominates compare xs n k)
     \<and> (i \<le> j div 2 \<longrightarrow> (\<forall>c \<in> {2 * j, 2 * j + 1}. c \<le> n \<longrightarrow> compare (el xs c) (el xs (j div 2)) \<le> 0))"

lemma el_swap_at:
  assumes "1 \<le> i" "1 \<le> j" "1 \<le> k" "k \<le> length xs"
  shows "el (swap_at xs (i - 1) (j - 1)) k = (if k = j then el xs i else if k = i then el xs j else el xs k)"
  using assms by (auto simp: el_def nth_swap_at)

lemma sift_step:
  assumes ord: "cmp_order compare" and inv: "sift_inv compare xs i n j"
    and j: "1 \<le> i" "i \<le> j" and m: "m = 2 * j \<or> m = 2 * j + 1" "m \<le> n" and n: "n \<le> length xs"
    and big: "compare (el xs j) (el xs m) \<le> 0"
      "\<forall>c \<in> {2 * j, 2 * j + 1}. c \<le> n \<longrightarrow> compare (el xs c) (el xs m) \<le> 0"
  shows "sift_inv compare (swap_at xs (j - 1) (m - 1)) i n m"
proof -
  let ?ys = "swap_at xs (j - 1) (m - 1)"
  have m2: "m div 2 = j" "j < m" using m j by auto
  have e: "el ?ys k = (if k = m then el xs j else if k = j then el xs m else el xs k)"
    if "1 \<le> k" "k \<le> n" for k
    using el_swap_at [of j m k xs] that m j n m2 by simp
  have "compare (el ?ys c) (el ?ys k) \<le> 0" if k: "i \<le> k" "k \<noteq> m" and c: "c \<in> {2 * k, 2 * k + 1}" "c \<le> n" for k c
  proof -
    have ck: "c div 2 = k" "1 \<le> c" "1 \<le> k" "k \<le> n" "k < c" using c k j by auto
    have ec: "el ?ys c = (if c = m then el xs j else if c = j then el xs m else el xs c)" using e c ck by blast
    have ek: "el ?ys k = (if k = j then el xs m else el xs k)" using e [of k] k ck by simp
    consider "k = j" | "k \<noteq> j" "c = j" | "k \<noteq> j" "c \<noteq> j" by blast
    then show ?thesis
    proof cases
      case 1
      then show ?thesis using big c ck(5) unfolding ec ek by auto
    next
      case 2
      then have "compare (el xs m) (el xs k) \<le> 0"
        using inv ck(1) k(1) m unfolding sift_inv_def by blast
      then show ?thesis using 2 m2 unfolding ec ek by simp
    next
      case 3
      then have "c \<noteq> m" using m2 ck by auto
      moreover have "compare (el xs c) (el xs k) \<le> 0"
        using inv k 3(1) c unfolding sift_inv_def dominates_def by blast
      ultimately show ?thesis using 3 unfolding ec ek by simp
    qed
  qed
  then have 1: "\<forall>k \<ge> i. k \<noteq> m \<longrightarrow> dominates compare ?ys n k" unfolding dominates_def by blast
  have 2: "compare (el ?ys c) (el ?ys (m div 2)) \<le> 0" if c: "c \<in> {2 * m, 2 * m + 1}" "c \<le> n" for c
  proof -
    have "dominates compare xs n m" using inv m2(2) j unfolding sift_inv_def by simp
    then have d: "compare (el xs c) (el xs m) \<le> 0" using c unfolding dominates_def by blast
    have c': "1 \<le> c" "c \<noteq> m" "c \<noteq> j" "1 \<le> j" "j \<le> n" using c m2 m j by auto
    have "el ?ys c = el xs c" using e [OF c'(1) c(2)] c' by simp
    moreover have "el ?ys j = el xs m" using e [OF c'(4,5)] m2(2) by simp
    ultimately show ?thesis using d m2(1) by simp
  qed
  show ?thesis unfolding sift_inv_def using 1 2 by blast
qed

lemma larger_child_elems:
  assumes "warray cnt sz array" "n \<le> cnt" "1 \<le> c" "1 \<le> m" "m \<le> cnt"
  shows "larger_child array c m n sz compare = Some (if c \<le> n \<and>
    compare (el (elems cnt sz array) c) (el (elems cnt sz array) m) > 0 then c else m)"
  using do_compare_elems [OF assms(1,3) _ assms(4,5)] assms(2) by (simp add: larger_child_def el_def)

lemma pick_max:
  assumes ord: "cmp_order compare" and w: "warray cnt sz array" "n \<le> cnt" "1 \<le> j" "j \<le> cnt"
  defines "xs \<equiv> elems cnt sz array"
  shows "\<exists>m1 m. larger_child array (2 * j) j n sz compare = Some m1
    \<and> larger_child array (2 * j + 1) m1 n sz compare = Some m
    \<and> (m = j \<or> m \<in> {2 * j, 2 * j + 1} \<and> m \<le> n) \<and> compare (el xs j) (el xs m) \<le> 0
    \<and> (\<forall>c \<in> {2 * j, 2 * j + 1}. c \<le> n \<longrightarrow> compare (el xs c) (el xs m) \<le> 0)"
proof -
  define m1 where "m1 = (if 2 * j \<le> n \<and> compare (el xs (2 * j)) (el xs j) > 0 then 2 * j else j)"
  define m where "m = (if 2 * j + 1 \<le> n \<and> compare (el xs (2 * j + 1)) (el xs m1) > 0 then 2 * j + 1 else m1)"
  have m1: "1 \<le> m1" "m1 \<le> cnt" "m1 = j \<or> m1 = 2 * j \<and> m1 \<le> n" using w(2-) by (auto simp: m1_def)
  have a: "compare (el xs j) (el xs m1) \<le> 0" "2 * j \<le> n \<longrightarrow> compare (el xs (2 * j)) (el xs m1) \<le> 0"
    using cmp_order_refl [OF ord] cmp_order_gt [OF ord] by (auto simp: m1_def not_less)
  have b: "compare (el xs m1) (el xs m) \<le> 0" "2 * j + 1 \<le> n \<longrightarrow> compare (el xs (2 * j + 1)) (el xs m) \<le> 0"
    using cmp_order_refl [OF ord] cmp_order_gt [OF ord] by (auto simp: m_def not_less)
  have "larger_child array (2 * j) j n sz compare = Some m1"
    using larger_child_elems [OF w(1,2), of "2 * j" j] w(3,4) by (simp add: m1_def xs_def)
  moreover have "larger_child array (2 * j + 1) m1 n sz compare = Some m"
    using larger_child_elems [OF w(1,2), of "2 * j + 1" m1] m1 by (simp add: m_def xs_def)
  moreover have "m = j \<or> m \<in> {2 * j, 2 * j + 1} \<and> m \<le> n" using m1(3) by (auto simp: m_def)
  moreover have "compare (el xs j) (el xs m) \<le> 0" using a(1) b(1) by (rule cmp_order_trans [OF ord])
  moreover have "\<forall>c \<in> {2 * j, 2 * j + 1}. c \<le> n \<longrightarrow> compare (el xs c) (el xs m) \<le> 0"
    using a(2) b cmp_order_trans [OF ord _ b(1)] by blast
  ultimately show ?thesis by blast
qed

lemma mset_swap_at: "i < length xs \<Longrightarrow> j < length xs \<Longrightarrow> mset (swap_at xs i j) = mset xs"
  unfolding swap_at_def by (rule mset_swap)

lemma take_swap_at: "i < n \<Longrightarrow> j < n \<Longrightarrow> take n (swap_at xs i j) = swap_at (take n xs) i j"
  by (simp add: swap_at_def take_update_swap)

lemma drop_swap_at: "i < n \<Longrightarrow> j < n \<Longrightarrow> drop n (swap_at xs i j) = drop n xs"
  by (simp add: swap_at_def)

lemma heapify_heap:
  assumes ord: "cmp_order compare" and w: "warray cnt sz array" "n \<le> cnt" "1 \<le> i" "i \<le> j" "j \<le> cnt"
    and inv: "sift_inv compare (elems cnt sz array) i n j"
  shows "\<exists>array'. heapify array j n sz compare = Some array' \<and> warray cnt sz array'
    \<and> heap_from compare (elems cnt sz array') i n
    \<and> mset (take n (elems cnt sz array')) = mset (take n (elems cnt sz array))
    \<and> drop n (elems cnt sz array') = drop n (elems cnt sz array)"
  using w inv
proof (induction "cnt - j" arbitrary: array j rule: less_induct)
  case less
  let ?xs = "elems cnt sz array"
  have j: "1 \<le> j" using less.prems(3,4) by simp
  obtain m1 m where m: "larger_child array (2 * j) j n sz compare = Some m1"
      "larger_child array (2 * j + 1) m1 n sz compare = Some m" "m = j \<or> m \<in> {2 * j, 2 * j + 1} \<and> m \<le> n"
      "compare (el ?xs j) (el ?xs m) \<le> 0"
      "\<forall>c \<in> {2 * j, 2 * j + 1}. c \<le> n \<longrightarrow> compare (el ?xs c) (el ?xs m) \<le> 0"
    using pick_max [OF ord less.prems(1,2) j less.prems(5)] by blast
  have "2 * j + 1 < two32" using less.prems(1,5) by (simp add: warray_def)
  then have ar: "mul32 2 j = 2 * j" "add32 (2 * j) 1 = 2 * j + 1" by simp_all
  have unf: "heapify array j n sz compare = (if m = j then Some array else do {
       array \<leftarrow> do_swap array j m sz; heapify array m n sz compare })"
    using m(1,2) ar by (subst heapify.simps) simp
  show ?case
  proof (cases "m = j")
    case True
    then have "dominates compare ?xs n j" using m(5) by (simp add: dominates_def)
    then have "heap_from compare ?xs i n"
      using less.prems(6) unfolding heap_from_def sift_inv_def by blast
    then show ?thesis using True unf less.prems(1) by simp
  next
    case False
    then have mc: "m \<in> {2 * j, 2 * j + 1}" "m \<le> n" using m(3) by blast+
    then have mj: "1 \<le> m" "m \<le> cnt" "j < m" using j less.prems(2) by auto
    obtain array' where s: "do_swap array j m sz = Some array'" "warray cnt sz array'"
        "elems cnt sz array' = swap_at ?xs (j - 1) (m - 1)"
      using do_swap_elems [OF less.prems(1) j less.prems(5) mj(1,2)] by blast
    have "sift_inv compare (elems cnt sz array') i n m"
      unfolding s(3) by (rule sift_step [OF ord less.prems(6) less.prems(3,4) _ mc(2) _ m(4,5)])
        (use mc less.prems(2) in auto)
    moreover have "cnt - m < cnt - j" "i \<le> m" using mj less.prems(4) by simp_all
    ultimately obtain array'' where h: "heapify array' m n sz compare = Some array''" "warray cnt sz array''"
        "heap_from compare (elems cnt sz array'') i n"
        "mset (take n (elems cnt sz array'')) = mset (take n (elems cnt sz array'))"
        "drop n (elems cnt sz array'') = drop n (elems cnt sz array')"
      using less.hyps [of m array'] s(2) less.prems(2,3) mj(2) by blast
    have b: "j - 1 < n" "m - 1 < n" using mj(3) mc(2) j by simp_all
    have "mset (take n (elems cnt sz array')) = mset (take n ?xs)"
      using b less.prems(2) by (simp add: s(3) take_swap_at mset_swap_at)
    moreover have "drop n (elems cnt sz array') = drop n ?xs" using b by (simp add: s(3) drop_swap_at)
    ultimately show ?thesis using h s(1) False unf by simp
  qed
qed

section \<open>Sorting\<close>

lemma heap_from_sift: "heap_from compare xs (Suc i) n \<Longrightarrow> sift_inv compare xs i n i \<or> i = 0"
  by (auto simp: heap_from_def sift_inv_def)

lemma heap_from_half: "heap_from compare xs (Suc (n div 2)) n"
  by (auto simp: heap_from_def dominates_def)

lemma build_heap_heap:
  assumes ord: "cmp_order compare" and w: "warray cnt sz array" "i \<le> cnt"
    and heap: "heap_from compare (elems cnt sz array) (Suc i) cnt"
  shows "\<exists>array'. build_heap array i cnt sz compare = Some array' \<and> warray cnt sz array'
    \<and> heap_from compare (elems cnt sz array') 1 cnt
    \<and> mset (elems cnt sz array') = mset (elems cnt sz array)"
  using w heap
proof (induction i arbitrary: array)
  case 0
  then show ?case by simp
next
  case (Suc i)
  have "sift_inv compare (elems cnt sz array) (Suc i) cnt (Suc i)"
    using heap_from_sift [OF Suc.prems(3)] by simp
  from heapify_heap [OF ord Suc.prems(1) order_refl _ order_refl Suc.prems(2) this]
  obtain array1 where a1: "heapify array (Suc i) cnt sz compare = Some array1" "warray cnt sz array1"
      "heap_from compare (elems cnt sz array1) (Suc i) cnt" "mset (elems cnt sz array1) = mset (elems cnt sz array)"
    by auto
  with Suc.IH [OF a1(2) _ a1(3)] Suc.prems(2) show ?case by auto
qed

lemma heap_max:
  assumes ord: "cmp_order compare" and heap: "heap_from compare xs 1 n"
  shows "1 \<le> k \<Longrightarrow> k \<le> n \<Longrightarrow> compare (el xs k) (el xs 1) \<le> 0"
proof (induction k rule: less_induct)
  case (less k)
  show ?case
  proof (cases "k = 1")
    case True
    then show ?thesis using cmp_order_refl [OF ord] by simp
  next
    case False
    then have k: "1 \<le> k div 2" "k div 2 < k" "k div 2 \<le> n" "k \<in> {2 * (k div 2), 2 * (k div 2) + 1}"
      using less.prems by auto
    have "compare (el xs k) (el xs (k div 2)) \<le> 0"
      using heap k(1,4) less.prems(2) unfolding heap_from_def dominates_def by blast
    moreover have "compare (el xs (k div 2)) (el xs 1) \<le> 0" using less.IH k by blast
    ultimately show ?thesis by (rule cmp_order_trans [OF ord])
  qed
qed

lemma heap_max_take:
  assumes "cmp_order compare" "heap_from compare xs 1 n" "x \<in> set (take n xs)"
  shows "compare x (xs ! 0) \<le> 0"
proof -
  obtain k where "k < n" "k < length xs" "x = xs ! k" using assms(3) by (auto simp: in_set_conv_nth)
  then show ?thesis using heap_max [OF assms(1,2), of "Suc k"] by (simp add: el_def)
qed

text \<open>The loop invariant of the second phase: a heap in front, a sorted tail of larger elements.\<close>

definition sorting :: "('a \<Rightarrow> 'a \<Rightarrow> int) \<Rightarrow> 'a list \<Rightarrow> nat \<Rightarrow> bool" where
  "sorting compare xs m \<longleftrightarrow> heap_from compare xs 1 m
     \<and> sorted_wrt (\<lambda>x y. compare x y \<le> 0) (drop m xs)
     \<and> (\<forall>x \<in> set (take m xs). \<forall>y \<in> set (drop m xs). compare x y \<le> 0)"

lemma swap_root:
  assumes "Suc p \<le> length xs" "1 \<le> p"
  shows "take p (swap_at xs 0 p) = xs ! p # tl (take p xs)" "drop p (swap_at xs 0 p) = xs ! 0 # drop (Suc p) xs"
    "mset (take p (swap_at xs 0 p)) + {#xs ! 0#} = mset (take (Suc p) xs)"
proof -
  show 1: "take p (swap_at xs 0 p) = xs ! p # tl (take p xs)"
    using assms by (intro nth_equalityI) (auto simp: nth_swap_at nth_Cons' nth_tl)
  show "drop p (swap_at xs 0 p) = xs ! 0 # drop (Suc p) xs"
    using assms by (intro nth_equalityI) (auto simp: nth_swap_at nth_Cons')
  have "take (Suc p) xs = xs ! 0 # tl (take p xs) @ [xs ! p]"
    using assms by (cases xs; cases p) (auto simp: take_Suc_conv_app_nth)
  then show "mset (take p (swap_at xs 0 p)) + {#xs ! 0#} = mset (take (Suc p) xs)" using 1 by simp
qed

lemma swap_root_sift:
  assumes "heap_from compare xs 1 (Suc p)" "Suc p \<le> length xs"
  shows "sift_inv compare (swap_at xs 0 p) 1 p 1"
proof -
  have e: "el (swap_at xs 0 p) k = el xs k" if "2 \<le> k" "k \<le> p" for k
    using that assms(2) by (auto simp: el_def nth_swap_at)
  have "dominates compare (swap_at xs 0 p) p k" if "1 \<le> k" "k \<noteq> 1" for k
  proof -
    have "dominates compare xs (Suc p) k" using assms(1) that by (simp add: heap_from_def)
    then show ?thesis using that e unfolding dominates_def by auto
  qed
  then show ?thesis by (simp add: sift_inv_def)
qed

lemma sort_heap_sorted:
  assumes ord: "cmp_order compare" and w: "warray cnt sz array" "m \<le> cnt" "sorting compare (elems cnt sz array) m"
  shows "\<exists>array'. sort_heap array m sz compare = Some array' \<and> warray cnt sz array'
    \<and> sorted_wrt (\<lambda>x y. compare x y \<le> 0) (elems cnt sz array')
    \<and> mset (elems cnt sz array') = mset (elems cnt sz array)"
  using ord w
proof (induction array m sz compare rule: sort_heap.induct)
  case (1 array sz compare)
  then show ?case by (simp add: sorting_def)
next
  case (2 array sz compare)
  then show ?case by (cases "elems cnt sz array") (auto simp: sorting_def)
next
  case (3 array i sz compare)
  let ?p = "Suc i" and ?xs = "elems cnt sz array"
  have s: "heap_from compare ?xs 1 (Suc ?p)" "sorted_wrt (\<lambda>x y. compare x y \<le> 0) (drop (Suc ?p) ?xs)"
      "\<forall>x \<in> set (take (Suc ?p) ?xs). \<forall>y \<in> set (drop (Suc ?p) ?xs). compare x y \<le> 0"
    using "3.prems"(4) by (simp_all add: sorting_def)
  have len: "Suc ?p \<le> length ?xs" "1 \<le> ?p" using "3.prems"(3) by simp_all
  obtain a1 where a1: "do_swap array 1 (Suc ?p) sz = Some a1" "warray cnt sz a1"
      "elems cnt sz a1 = swap_at ?xs 0 ?p"
    using do_swap_elems [OF "3.prems"(2), of 1 "Suc ?p"] "3.prems"(3) by auto
  have "sift_inv compare (elems cnt sz a1) 1 ?p 1" unfolding a1(3) by (rule swap_root_sift [OF s(1) len(1)])
  from heapify_heap [OF "3.prems"(1) a1(2) _ order_refl order_refl _ this] "3.prems"(3)
  obtain a2 where a2: "heapify a1 1 ?p sz compare = Some a2" "warray cnt sz a2"
      "heap_from compare (elems cnt sz a2) 1 ?p"
      "mset (take ?p (elems cnt sz a2)) = mset (take ?p (swap_at ?xs 0 ?p))"
      "drop ?p (elems cnt sz a2) = drop ?p (swap_at ?xs 0 ?p)"
    by (auto simp: a1(3))
  note root = swap_root [OF len]
  have x0: "?xs ! 0 \<in> set (take (Suc ?p) ?xs)" using len(1) by (auto simp: in_set_conv_nth intro!: exI [of _ 0])
  have sub: "x \<in> set (take (Suc ?p) ?xs)" if "x \<in> set (take ?p (elems cnt sz a2))" for x
    using that root(3) a2(4) by (metis mset_eq_setD set_mset_mset union_iff)
  have "sorting compare (elems cnt sz a2) ?p"
    using a2(3) s(2,3) x0 sub heap_max_take [OF "3.prems"(1) s(1)] unfolding sorting_def a2(5) root(2) by auto
  from "3.IH" [OF a1(1) a2(1) "3.prems"(1) a2(2) _ this] "3.prems"(3)
  obtain a3 where a3: "sort_heap a2 ?p sz compare = Some a3" "warray cnt sz a3"
      "sorted_wrt (\<lambda>x y. compare x y \<le> 0) (elems cnt sz a3)"
      "mset (elems cnt sz a3) = mset (elems cnt sz a2)"
    by auto
  have "mset (elems cnt sz a2) = mset (swap_at ?xs 0 ?p)"
    using a2(4,5) by (metis append_take_drop_id mset_append)
  also have "\<dots> = mset ?xs" using len(1) by (intro mset_swap_at) simp_all
  finally show ?case using a3 a1(1) a2(1) by auto
qed

lemma sort_array_sorted:
  assumes "cmp_order compare" "warray cnt sz array"
  shows "\<exists>array'. sort_array array cnt sz compare = Some array' \<and> length array' = length array
    \<and> sorted_wrt (\<lambda>x y. compare x y \<le> 0) (elems cnt sz array')
    \<and> mset (elems cnt sz array') = mset (elems cnt sz array)"
proof -
  obtain a1 where a1: "build_heap array (cnt div 2) cnt sz compare = Some a1" "warray cnt sz a1"
      "heap_from compare (elems cnt sz a1) 1 cnt" "mset (elems cnt sz a1) = mset (elems cnt sz array)"
    using build_heap_heap [OF assms _ heap_from_half] by auto
  then have "sorting compare (elems cnt sz a1) cnt" by (simp add: sorting_def)
  from sort_heap_sorted [OF assms(1) a1(2) order_refl this] obtain a2 where
      "sort_heap a1 cnt sz compare = Some a2" "warray cnt sz a2"
      "sorted_wrt (\<lambda>x y. compare x y \<le> 0) (elems cnt sz a2)"
      "mset (elems cnt sz a2) = mset (elems cnt sz a1)"
    by blast
  then show ?thesis using a1 assms(2) by (simp add: sort_array_def warray_def)
qed

section \<open>Binary search\<close>

text \<open>\<open>lo\<close> and \<open>hi\<close> are the element numbers of \<^verbatim>\<open>first\<close> and \<^verbatim>\<open>last\<close>.\<close>

lemma search_loop_step:
  assumes "warray cnt sz array" "lo < hi" "hi \<le> cnt"
  defines "mid \<equiv> lo + (hi - lo) div 2"
  shows "search_loop key array (lo * sz) (hi * sz) sz compare =
     (let c = compare key (elems cnt sz array ! mid) in
      if c < 0 then search_loop key array (lo * sz) (mid * sz) sz compare
      else if c > 0 then search_loop key array (Suc mid * sz) (hi * sz) sz compare
      else Some (Some (mid * sz)))"
proof -
  have sz: "0 < sz" "length array = cnt * sz" using assms(1) by (simp_all add: warray_def)
  have mid: "mid < hi" "mid < cnt" using assms(2,3) by (simp_all add: mid_def)
  have "(hi * sz - lo * sz) div sz = hi - lo" using sz(1) by (simp flip: diff_mult_distrib)
  then have middle: "lo * sz + (hi * sz - lo * sz) div sz div 2 * sz = mid * sz"
    by (simp add: mid_def add_mult_distrib)
  have "Suc mid * sz \<le> cnt * sz" using mid(2) by (intro mult_le_mono1) simp
  then have "\<not> length array < mid * sz + sz" using sz(2) by simp
  moreover have "lo * sz < hi * sz" using assms(2) sz(1) by simp
  ultimately show ?thesis
    using sz(1) mid(2) by (subst search_loop.simps) (simp add: middle Let_def add.commute)
qed

lemma search_loop_correct:
  assumes ord: "cmp_order compare" and w: "warray cnt sz array"
    and sorted: "sorted_wrt (\<lambda>x y. compare x y \<le> 0) (elems cnt sz array)"
    and "lo \<le> hi" "hi \<le> cnt"
    and "\<forall>i < lo. compare key (elems cnt sz array ! i) > 0"
    and "\<forall>i. hi \<le> i \<and> i < cnt \<longrightarrow> compare key (elems cnt sz array ! i) < 0"
  shows "\<exists>r. search_loop key array (lo * sz) (hi * sz) sz compare = Some r
    \<and> (case r of None \<Rightarrow> \<forall>x \<in> set (elems cnt sz array). compare key x \<noteq> 0
       | Some off \<Rightarrow> \<exists>i < cnt. off = i * sz \<and> compare key (elems cnt sz array ! i) = 0)"
  using assms(4-)
proof (induction "hi - lo" arbitrary: lo hi rule: less_induct)
  case less
  let ?xs = "elems cnt sz array"
  have le: "compare (?xs ! i) (?xs ! k) \<le> 0" if "i \<le> k" "k < cnt" for i k
    using that sorted_wrt_nth_less [OF sorted, of i k] cmp_order_refl [OF ord]
    by (cases "i = k") (simp_all del: nth_elems)
  show ?case
  proof (cases "lo < hi")
    case False
    then have "compare key (?xs ! i) \<noteq> 0" if "i < cnt" for i
      using less.prems(1) less.prems(3,4) [rule_format, of i] that by linarith
    then have "\<forall>x \<in> set ?xs. compare key x \<noteq> 0" unfolding set_conv_nth by auto
    moreover have "search_loop key array (lo * sz) (hi * sz) sz compare = Some None"
      using False by (subst search_loop.simps) simp
    ultimately show ?thesis by simp
  next
    case True
    define mid where "mid = lo + (hi - lo) div 2"
    have mid: "lo \<le> mid" "mid < hi" "mid < cnt" using True less.prems(2) by (simp_all add: mid_def)
    note step = search_loop_step [OF w True less.prems(2), of key compare, folded mid_def]
    consider "compare key (?xs ! mid) < 0" | "compare key (?xs ! mid) > 0" | "compare key (?xs ! mid) = 0" by linarith
    then show ?thesis
    proof cases
      case 1
      have "compare key (?xs ! i) < 0" if "mid \<le> i" "i < cnt" for i
        using cmp_order_less_le [OF ord 1 le [OF that]] .
      then show ?thesis using less.hyps [of mid lo] mid less.prems 1 step
        by (simp add: Let_def del: nth_elems)
    next
      case 2
      have "compare key (?xs ! i) > 0" if "i < Suc mid" for i
        using cmp_order_le_less [OF ord le [of i mid], of key] 2 that mid(3)
        by (simp add: cmp_order_anti [OF ord] del: nth_elems)
      moreover have "search_loop key array (lo * sz) (hi * sz) sz compare
          = search_loop key array (Suc mid * sz) (hi * sz) sz compare"
        unfolding step Let_def using 2 less_not_sym [OF 2] by (simp only: if_True if_False)
      ultimately show ?thesis using less.hyps [of hi "Suc mid"] mid less.prems by auto
    next
      case 3
      then show ?thesis using mid(3) step by (auto simp: Let_def)
    qed
  qed
qed

section \<open>Properties\<close>

text \<open>
  C28. The library sort is correct: for a comparison function that decides a total preorder
  and any array of \<open>cnt\<close> elements of \<open>sz > 0\<close> bytes, \<^verbatim>\<open>qsort\<close> (heap sort over byte-wise
  swaps) terminates without leaving the array, and the resulting elements are sorted and a
  permutation of the original elements.
\<close>

theorem qsort_correct:
  assumes "cmp_order compare" "warray cnt sz array"
  shows "\<exists>array'. qsort array cnt sz compare = Some array' \<and> length array' = length array
    \<and> sorted_wrt (\<lambda>x y. compare x y \<le> 0) (elems cnt sz array')
    \<and> mset (elems cnt sz array') = mset (elems cnt sz array)"
  using sort_array_sorted [OF assms] by (simp add: qsort_def compare_thunk_def)

theorem qsort_correct_witness:
  "\<exists>array'. qsort [3, 0, 1, 0, 2, 0] 3 2 (\<lambda>a b. uint (hd a) - uint (hd b)) = Some array'
    \<and> length array' = length [3, 0, 1, 0, 2, 0 :: u8]
    \<and> sorted_wrt (\<lambda>x y. uint (hd x) - uint (hd y) \<le> 0) (elems 3 2 array')
    \<and> mset (elems 3 2 array') = mset (elems 3 2 [3, 0, 1, 0, 2, 0])"
  by (rule qsort_correct) (auto simp: cmp_order_def warray_def)

text \<open>
  C31. Binary search is correct on sorted arrays: \<^verbatim>\<open>binary_search\<close> always returns; a non-null
  result is the address of an element that compares equal to the key, and a null result means
  that no element does.
\<close>

theorem binary_search_correct:
  assumes "cmp_order compare" "warray cnt sz array"
    and "sorted_wrt (\<lambda>x y. compare x y \<le> 0) (elems cnt sz array)"
  shows "\<exists>r. binary_search key array cnt sz compare = Some r
    \<and> (case r of None \<Rightarrow> \<forall>x \<in> set (elems cnt sz array). compare key x \<noteq> 0
       | Some off \<Rightarrow> \<exists>i < cnt. off = i * sz \<and> compare key (elems cnt sz array ! i) = 0)"
proof -
  have "mul32 sz cnt = cnt * sz" using assms(2) by (simp add: warray_def mult.commute)
  then show ?thesis
    using search_loop_correct [OF assms, of 0 cnt key] by (simp add: binary_search_def del: nth_elems)
qed

theorem binary_search_correct_witness:
  "\<exists>r. binary_search [2, 9] [1, 0, 2, 0, 3, 0] 3 2 (\<lambda>a b. uint (hd a) - uint (hd b)) = Some r
    \<and> (case r of None \<Rightarrow> \<forall>x \<in> set (elems 3 2 [1, 0, 2, 0, 3, 0 :: u8]). uint (hd [2 :: u8, 9]) - uint (hd x) \<noteq> 0
       | Some off \<Rightarrow> \<exists>i < 3. off = i * 2 \<and> uint (hd [2 :: u8, 9]) - uint (hd (elems 3 2 [1, 0, 2, 0, 3, 0 :: u8] ! i)) = 0)"
  by (rule binary_search_correct)
    (auto simp: cmp_order_def warray_def elems_def chunk_def upt_rec)

end
