(* ===== verification/VAddr.thy ===== *)
theory VAddr
  imports Prelude
begin

text \<open>
  Virtual addresses and page table entries (\<^verbatim>\<open>threads/vaddr.h\<close>, \<^verbatim>\<open>threads/pte.h\<close>). Addresses are
  natural numbers below \<open>2 ^ 32\<close>, entries are 32-bit words. The lemmas express masks and shifts as
  division with remainder, and show that an entry yields the page it was made from.
\<close>

section \<open>Virtual addresses\<close>

abbreviation (input) PGSIZE :: nat where
  "PGSIZE \<equiv> 4096"

definition PGMASK :: nat where
  "PGMASK = 2 ^ 12 - 1"

text \<open>The complement of the mask in 32 bits.\<close>

definition PGMASK_NOT :: nat where
  "PGMASK_NOT = 2 ^ 32 - 2 ^ 12"

definition pg_ofs :: "ptr \<Rightarrow> nat" where
  "pg_ofs va = va AND PGMASK"

definition pg_no :: "ptr \<Rightarrow> nat" where
  "pg_no va = drop_bit 12 va"

definition pg_round_up :: "ptr \<Rightarrow> ptr" where
  "pg_round_up va = sub32 (add32 va PGSIZE) 1 AND PGMASK_NOT"

definition pg_round_down :: "ptr \<Rightarrow> ptr" where
  "pg_round_down va = va AND PGMASK_NOT"

abbreviation (input) PHYS_BASE :: ptr where
  "PHYS_BASE \<equiv> 0xc0000000"

definition is_user_vaddr :: "ptr \<Rightarrow> bool" where
  "is_user_vaddr vaddr \<longleftrightarrow> vaddr < PHYS_BASE"

definition is_kernel_vaddr :: "ptr \<Rightarrow> bool" where
  "is_kernel_vaddr vaddr \<longleftrightarrow> vaddr \<ge> PHYS_BASE"

definition ptov :: "nat \<Rightarrow> ptr option" where
  "ptov paddr = do {
     ASSERT (paddr < PHYS_BASE);
     Some (add32 paddr PHYS_BASE)
   }"

definition vtop :: "ptr \<Rightarrow> nat option" where
  "vtop vaddr = do {
     ASSERT (is_kernel_vaddr vaddr);
     Some (sub32 vaddr PHYS_BASE)
   }"

section \<open>Page table entries\<close>

definition pt_no :: "ptr \<Rightarrow> nat" where
  "pt_no va = drop_bit 12 (va AND push_bit 12 (2 ^ 10 - 1))"

definition pd_no :: "ptr \<Rightarrow> nat" where
  "pd_no va = drop_bit 22 va"

definition PTE_ADDR :: u32 where
  "PTE_ADDR = 0xfffff000"

definition PTE_P :: u32 where
  "PTE_P = 0x1"

definition PTE_W :: u32 where
  "PTE_W = 0x2"

definition PTE_U :: u32 where
  "PTE_U = 0x4"

definition PTE_A :: u32 where
  "PTE_A = 0x20"

definition PTE_D :: u32 where
  "PTE_D = 0x40"

definition pde_create :: "ptr \<Rightarrow> u32 option" where
  "pde_create pt = do {
     ASSERT (pg_ofs pt = 0);
     v \<leftarrow> vtop pt;
     Some (word_of_nat v OR PTE_U OR PTE_P OR PTE_W)
   }"

definition pde_get_pt :: "u32 \<Rightarrow> ptr option" where
  "pde_get_pt pde = do {
     ASSERT (pde AND PTE_P \<noteq> 0);
     ptov (unat (pde AND PTE_ADDR))
   }"

definition pte_create_kernel :: "ptr \<Rightarrow> bool \<Rightarrow> u32 option" where
  "pte_create_kernel page writable = do {
     ASSERT (pg_ofs page = 0);
     v \<leftarrow> vtop page;
     Some (word_of_nat v OR PTE_P OR (if writable then PTE_W else 0))
   }"

definition pte_create_user :: "ptr \<Rightarrow> bool \<Rightarrow> u32 option" where
  "pte_create_user page writable = map_option (\<lambda>pte. pte OR PTE_U) (pte_create_kernel page writable)"

definition pte_get_page :: "u32 \<Rightarrow> ptr option" where
  "pte_get_page pte = ptov (unat (pte AND PTE_ADDR))"

section \<open>Addresses as page and offset\<close>

lemma pg_ofs_mod: "pg_ofs va = va mod PGSIZE"
proof -
  have "pg_ofs va = take_bit 12 va" by (simp add: pg_ofs_def PGMASK_def take_bit_eq_mask mask_eq_exp_minus_1)
  then show ?thesis by (simp add: take_bit_eq_mod)
qed

lemma pg_no_div: "pg_no va = va div PGSIZE"
  by (simp add: pg_no_def drop_bit_eq_div)

lemma and_PGMASK_NOT: "va < two32 \<Longrightarrow> va AND PGMASK_NOT = PGSIZE * (va div PGSIZE)"
proof -
  assume va: "va < two32"
  have m: "PGMASK_NOT = push_bit 12 (mask 20)" by (simp add: PGMASK_NOT_def mask_eq_exp_minus_1 push_bit_eq_mult)
  have "bit va n \<Longrightarrow> n < 32" for n
    using va bit_take_bit_iff [of 32 va n] take_bit_nat_eq_self [of va 32] by simp
  then have "va AND PGMASK_NOT = push_bit 12 (drop_bit 12 va)"
    unfolding m by (intro bit_eqI) (fastforce simp: bit_simps)
  then show ?thesis by (simp add: push_bit_eq_mult drop_bit_eq_div)
qed

lemma pg_round_down_div: "va < two32 \<Longrightarrow> pg_round_down va = PGSIZE * (va div PGSIZE)"
  by (simp add: pg_round_down_def and_PGMASK_NOT)

lemma pd_no_div: "pd_no va = va div PGSIZE div 1024"
  by (simp add: pd_no_def drop_bit_eq_div div_mult2_eq [symmetric])

lemma pt_no_mod: "pt_no va = va div PGSIZE mod 1024"
proof -
  have "pt_no va = take_bit 10 (drop_bit 12 va)"
    unfolding pt_no_def mask_eq_exp_minus_1 [symmetric] by (intro bit_eqI) (auto simp: bit_simps)
  then show ?thesis by (simp add: take_bit_eq_mod drop_bit_eq_div)
qed

text \<open>An address is determined by its two indices and its offset.\<close>

lemma page_indices: "pd_no va = pd_no wa \<Longrightarrow> pt_no va = pt_no wa \<Longrightarrow> va div PGSIZE = wa div PGSIZE"
  unfolding pd_no_div pt_no_mod by (metis div_mult_mod_eq)

lemma vtop_kernel: "PHYS_BASE \<le> va \<Longrightarrow> va < two32 \<Longrightarrow> vtop va = Some (va - PHYS_BASE)"
  by (simp add: vtop_def is_kernel_vaddr_def)

lemma ptov_vtop: "PHYS_BASE \<le> va \<Longrightarrow> va < two32 \<Longrightarrow> ptov (va - PHYS_BASE) = Some va"
  by (simp add: ptov_def)

section \<open>Entries\<close>

lemma PTE_ADDR_bits: "bit PTE_ADDR n \<longleftrightarrow> 12 \<le> n \<and> n < 32"
proof -
  have e: "PTE_ADDR = NOT (mask 12)" by (simp add: PTE_ADDR_def mask_eq_exp_minus_1)
  show ?thesis unfolding e bit_not_iff bit_mask_iff by auto
qed

text \<open>The address part of an entry for a page, whatever its flags.\<close>

lemma entry_addr:
  fixes w f :: u32
  assumes "v mod PGSIZE = 0" "v < two32" "\<And>n. bit f n \<Longrightarrow> n < 12" "w = word_of_nat v OR f"
  shows "unat (w AND PTE_ADDR) = v"
proof -
  have low: "\<not> bit v n" if "n < 12" for n
  proof -
    have "take_bit 12 v = 0" using assms(1) by (simp add: take_bit_eq_mod)
    then show ?thesis using that by (metis bit_take_bit_iff bit_0_eq bot_apply bot_bool_def)
  qed
  have "w AND PTE_ADDR = word_of_nat v"
  proof (rule bit_eqI)
    fix n assume "possible_bit TYPE(u32) n"
    then have n: "n < 32" by simp
    show "bit (w AND PTE_ADDR) n \<longleftrightarrow> bit (word_of_nat v :: u32) n"
      using n low [of n] assms(3) [of n] by (cases "n < 12") (auto simp: assms(4) bit_and_iff bit_or_iff PTE_ADDR_bits bit_of_nat_iff)
  qed
  then show ?thesis using assms(2) by (simp add: take_bit_nat_eq_self unsigned_of_nat)
qed

lemma flag_bits [simp]: "bit PTE_P n \<longleftrightarrow> n = 0" "bit PTE_W n \<longleftrightarrow> n = 1" "bit PTE_U n \<longleftrightarrow> n = 2"
proof -
  have p: "PTE_P = 2 ^ 0" "PTE_W = 2 ^ 1" "PTE_U = 2 ^ 2" by (simp_all add: PTE_P_def PTE_W_def PTE_U_def)
  show "bit PTE_P n \<longleftrightarrow> n = 0" "bit PTE_W n \<longleftrightarrow> n = 1" "bit PTE_U n \<longleftrightarrow> n = 2"
    unfolding p bit_exp_iff by auto
qed

lemma present_bit: "w AND PTE_P \<noteq> 0 \<longleftrightarrow> bit (w :: u32) 0"
proof
  assume "w AND PTE_P \<noteq> 0"
  then obtain n where "bit (w AND PTE_P) n" using bit_eqI [of "w AND PTE_P" 0] by auto
  then show "bit w 0" by (auto simp: bit_and_iff)
next
  assume "bit w 0"
  then have "bit (w AND PTE_P) 0" by (simp add: bit_and_iff)
  then show "w AND PTE_P \<noteq> 0" by (metis bit_0_eq bot_apply bot_bool_def)
qed

text \<open>A page of kernel memory.\<close>

definition kpage :: "ptr \<Rightarrow> bool" where
  "kpage p \<longleftrightarrow> p mod PGSIZE = 0 \<and> PHYS_BASE \<le> p \<and> p < two32"

lemma kpage_phys: "kpage p \<Longrightarrow> (p - PHYS_BASE) mod PGSIZE = 0"
proof -
  assume p: "kpage p"
  then obtain q where q: "p = PGSIZE * q" by (auto simp: kpage_def elim: dvdE)
  then have "p - PHYS_BASE = PGSIZE * (q - 786432)" by simp
  then show ?thesis by simp
qed

lemma pde_roundtrip:
  assumes "kpage pt"
  obtains e where "pde_create pt = Some e" "bit e 0" "pde_get_pt e = Some pt"
proof -
  have pt: "PHYS_BASE \<le> pt" "pt < two32" "pg_ofs pt = 0" using assms by (simp_all add: kpage_def pg_ofs_mod)
  let ?e = "word_of_nat (pt - PHYS_BASE) OR PTE_U OR PTE_P OR PTE_W :: u32"
  have "unat (?e AND PTE_ADDR) = pt - PHYS_BASE"
    by (rule entry_addr [OF kpage_phys [OF assms], of "PTE_U OR PTE_P OR PTE_W"]) (use pt in \<open>auto simp: bit_or_iff or.assoc\<close>)
  moreover have "bit ?e 0" by (simp add: bit_or_iff)
  ultimately show thesis using pt
    by (intro that [of ?e]) (simp_all add: pde_create_def pde_get_pt_def vtop_kernel ptov_vtop present_bit)
qed

lemma pte_roundtrip:
  assumes "kpage p"
  obtains e where "pte_create_user p w = Some e" "bit e 0" "bit e 1 \<longleftrightarrow> w" "bit e 2" "pte_get_page e = Some p"
proof -
  have p: "PHYS_BASE \<le> p" "p < two32" "pg_ofs p = 0" using assms by (simp_all add: kpage_def pg_ofs_mod)
  have low: "\<not> bit (p - PHYS_BASE) n" if "n < 12" for n
  proof -
    have "take_bit 12 (p - PHYS_BASE) = 0" using kpage_phys [OF assms] by (simp add: take_bit_eq_mod)
    then show ?thesis using that by (metis bit_take_bit_iff bit_0_eq bot_apply bot_bool_def)
  qed
  let ?e = "(word_of_nat (p - PHYS_BASE) OR PTE_P OR (if w then PTE_W else 0)) OR PTE_U :: u32"
  have "unat (?e AND PTE_ADDR) = p - PHYS_BASE"
    by (rule entry_addr [OF kpage_phys [OF assms], of "PTE_P OR (if w then PTE_W else 0) OR PTE_U"])
      (use p in \<open>auto simp: bit_or_iff or.assoc split: if_splits\<close>)
  moreover have "bit ?e 0" "bit ?e 1 \<longleftrightarrow> w" "bit ?e 2" using low [of 1] by (auto simp: bit_or_iff bit_of_nat_iff)
  ultimately show thesis using p
    by (intro that [of ?e]) (simp_all add: pte_create_user_def pte_create_kernel_def pte_get_page_def vtop_kernel ptov_vtop)
qed

end
