(* ===== verification/Palloc.thy ===== *)
theory Palloc
  imports VAddr KBitmap
begin

text \<open>
  The page allocator (\<^verbatim>\<open>threads/palloc.c\<close>). Memory is a function from the addresses of 32-bit words to
  their contents. The two pools allocate runs of pages first fit from their bitmaps. The theory shows
  that pages handed out are free, lie in the right pool and are zeroed on demand, and that freeing
  them makes exactly them available again. The lock of a pool makes its search and update of the
  bitmap one step.
\<close>

section \<open>Pools\<close>

record pool =
  used_map :: bitmap
  p_base :: ptr

text \<open>Physical memory as seen through the kernel's mapping, and the page allocator.\<close>

record pmem =
  words :: "nat \<Rightarrow> u32"
  kernel_pool :: pool
  user_pool :: pool
  init_ram_pages :: nat

definition PAL_ASSERT :: nat where
  "PAL_ASSERT = 1"

definition PAL_ZERO :: nat where
  "PAL_ZERO = 2"

definition PAL_USER :: nat where
  "PAL_USER = 4"

definition has_flag :: "nat \<Rightarrow> nat \<Rightarrow> bool" where
  "has_flag flags f \<longleftrightarrow> flags AND f \<noteq> 0"

text \<open>\<^verbatim>\<open>memset\<close> on whole words, with the byte repeated in \<open>v\<close>.\<close>

definition fill_words :: "(nat \<Rightarrow> u32) \<Rightarrow> ptr \<Rightarrow> nat \<Rightarrow> u32 \<Rightarrow> nat \<Rightarrow> u32" where
  "fill_words m p n v a = (if p \<le> a \<and> a < p + n then v else m a)"

definition get_pool :: "pmem \<Rightarrow> bool \<Rightarrow> pool" where
  "get_pool s user = (if user then user_pool s else kernel_pool s)"

definition set_pool :: "pmem \<Rightarrow> bool \<Rightarrow> pool \<Rightarrow> pmem" where
  "set_pool s user p = (if user then s\<lparr>user_pool := p\<rparr> else s\<lparr>kernel_pool := p\<rparr>)"

text \<open>\<open>ws\<close> is what the memory for the bits holds.\<close>

definition init_pool :: "ptr \<Rightarrow> nat \<Rightarrow> u32 list \<Rightarrow> pool option" where
  "init_pool base page_cnt ws = do {
     let bm_pages = DIV_ROUND_UP (bitmap_buf_size page_cnt) PGSIZE;
     if bm_pages > page_cnt then None
     else do {
       let page_cnt = page_cnt - bm_pages;
       b \<leftarrow> bitmap_create_in_buf page_cnt ws (mul32 bm_pages PGSIZE);
       Some \<lparr>used_map = b, p_base = add32 base (mul32 bm_pages PGSIZE)\<rparr>
     }
   }"

definition palloc_init :: "pmem \<Rightarrow> nat \<Rightarrow> u32 list \<Rightarrow> u32 list \<Rightarrow> pmem option" where
  "palloc_init s user_page_limit ws1 ws2 = do {
     free_start \<leftarrow> ptov (1024 * 1024);
     free_end \<leftarrow> ptov (mul32 (init_ram_pages s) PGSIZE);
     let free_pages = sub32 free_end free_start div PGSIZE;
     let user_pages = free_pages div 2;
     let user_pages = (if user_pages > user_page_limit then user_page_limit else user_pages);
     let kernel_pages = free_pages - user_pages;
     k \<leftarrow> init_pool free_start kernel_pages ws1;
     u \<leftarrow> init_pool (add32 free_start (mul32 kernel_pages PGSIZE)) user_pages ws2;
     Some (s\<lparr>kernel_pool := k, user_pool := u\<rparr>)
   }"

section \<open>Allocation\<close>

definition palloc_get_multiple :: "pmem \<Rightarrow> nat \<Rightarrow> nat \<Rightarrow> (pmem \<times> ptr) option" where
  "palloc_get_multiple s flags page_cnt = do {
     let user = (has_flag flags PAL_USER);
     let pool = get_pool s user;
     if page_cnt = 0 then Some (s, NULL)
     else do {
       (b, page_idx) \<leftarrow> bitmap_scan_and_flip (used_map pool) 0 page_cnt False;
       let s = set_pool s user (pool\<lparr>used_map := b\<rparr>);
       let pages = (if page_idx \<noteq> BITMAP_ERROR then add32 (p_base pool) (mul32 PGSIZE page_idx) else NULL);
       if pages \<noteq> NULL then
         Some (if has_flag flags PAL_ZERO then s\<lparr>words := fill_words (words s) pages (mul32 PGSIZE page_cnt) 0\<rparr> else s, pages)
       else if has_flag flags PAL_ASSERT then None
       else Some (s, pages)
     }
   }"

definition palloc_get_page :: "pmem \<Rightarrow> nat \<Rightarrow> (pmem \<times> ptr) option" where
  "palloc_get_page s flags = palloc_get_multiple s flags 1"

definition page_from_pool :: "pool \<Rightarrow> ptr \<Rightarrow> bool" where
  "page_from_pool pool page =
     (let page_no = pg_no page; start_page = pg_no (p_base pool);
        end_page = add32 start_page (bitmap_size (used_map pool))
      in page_no \<ge> start_page \<and> page_no < end_page)"

definition palloc_free_multiple :: "pmem \<Rightarrow> ptr \<Rightarrow> nat \<Rightarrow> pmem option" where
  "palloc_free_multiple s pages page_cnt = do {
     ASSERT (pg_ofs pages = 0);
     if pages = NULL \<or> page_cnt = 0 then Some s
     else do {
       user \<leftarrow> (if page_from_pool (kernel_pool s) pages then Some False
         else if page_from_pool (user_pool s) pages then Some True else None);
       let pool = get_pool s user;
       let page_idx = sub32 (pg_no pages) (pg_no (p_base pool));
       let s = s\<lparr>words := fill_words (words s) pages (mul32 PGSIZE page_cnt) 0xcccccccc\<rparr>;
       a \<leftarrow> bitmap_all (used_map pool) page_idx page_cnt;
       ASSERT a;
       b \<leftarrow> bitmap_set_multiple (used_map pool) page_idx page_cnt False;
       Some (set_pool s user (pool\<lparr>used_map := b\<rparr>))
     }
   }"

definition palloc_free_page :: "pmem \<Rightarrow> ptr \<Rightarrow> pmem option" where
  "palloc_free_page s page = palloc_free_multiple s page 1"

section \<open>Well-formed pools\<close>

definition pool_ok :: "pool \<Rightarrow> bool" where
  "pool_ok p \<longleftrightarrow> wf_bitmap (used_map p) \<and> kpage (p_base p) \<and> p_base p + PGSIZE * bit_cnt (used_map p) \<le> two32"

definition pool_end :: "pool \<Rightarrow> ptr" where
  "pool_end p = p_base p + PGSIZE * bit_cnt (used_map p)"

definition palloc_ok :: "pmem \<Rightarrow> bool" where
  "palloc_ok s \<longleftrightarrow> pool_ok (kernel_pool s) \<and> pool_ok (user_pool s) \<and> pool_end (kernel_pool s) \<le> p_base (user_pool s)"

text \<open>The pages of a pool, and those in use.\<close>

definition page_at :: "pool \<Rightarrow> nat \<Rightarrow> ptr" where
  "page_at p i = p_base p + PGSIZE * i"

definition in_use :: "pool \<Rightarrow> ptr set" where
  "in_use p = {page_at p i | i. i < bit_cnt (used_map p) \<and> bbit (used_map p) i}"

definition pages_from :: "ptr \<Rightarrow> nat \<Rightarrow> ptr set" where
  "pages_from p n = {p + PGSIZE * i | i. i < n}"

lemma page_at_inj: "page_at p i = page_at p j \<longleftrightarrow> i = j"
  by (simp add: page_at_def)

lemma page_at_kpage:
  assumes "pool_ok p" "i < bit_cnt (used_map p)"
  shows "kpage (page_at p i)" "page_at p i + PGSIZE \<le> pool_end p" "pool_end p \<le> two32"
proof -
  have "PGSIZE * i + PGSIZE \<le> PGSIZE * bit_cnt (used_map p)" using assms(2) by simp
  then show "kpage (page_at p i)" "page_at p i + PGSIZE \<le> pool_end p" "pool_end p \<le> two32"
    using assms(1) by (auto simp: pool_ok_def page_at_def pool_end_def kpage_def)
qed

lemma get_set_pool [simp]:
  "get_pool (set_pool s u p) v = (if u = v then p else get_pool s v)" "words (set_pool s u p) = words s"
  "init_ram_pages (set_pool s u p) = init_ram_pages s"
  by (simp_all add: get_pool_def set_pool_def)

lemma get_pool_words [simp]: "get_pool (s\<lparr>words := m\<rparr>) u = get_pool s u"
  by (simp add: get_pool_def)

lemma set_pool_words: "set_pool (s\<lparr>words := m\<rparr>) u p = (set_pool s u p)\<lparr>words := m\<rparr>"
  by (simp add: set_pool_def)

lemma palloc_ok_pool: "palloc_ok s \<longleftrightarrow> pool_ok (get_pool s False) \<and> pool_ok (get_pool s True)
    \<and> pool_end (get_pool s False) \<le> p_base (get_pool s True)"
  by (simp add: palloc_ok_def get_pool_def)

lemma palloc_ok_update:
  assumes "palloc_ok s" "wf_bitmap b" "bit_cnt b = bit_cnt (used_map (get_pool s u))"
  shows "palloc_ok ((set_pool s u ((get_pool s u)\<lparr>used_map := b\<rparr>))\<lparr>words := m\<rparr>)"
    "palloc_ok (set_pool s u ((get_pool s u)\<lparr>used_map := b\<rparr>))"
  using assms by (cases u; simp add: palloc_ok_pool pool_ok_def pool_end_def)+

text \<open>
  Allocation either reports that no run of free pages exists or returns one, marks exactly
  these pages as used and zeroes exactly these, if asked to.
\<close>

lemma palloc_get_ok:
  fixes flags :: nat
  defines "user \<equiv> has_flag flags PAL_USER"
  assumes "palloc_ok s" "0 < n"
  shows "(\<exists>s' p i. palloc_get_multiple s flags n = Some (s', p) \<and> palloc_ok s' \<and> p = page_at (get_pool s user) i
      \<and> i + n \<le> bit_cnt (used_map (get_pool s user)) \<and> (\<forall>j. i \<le> j \<and> j < i + n \<longrightarrow> \<not> bbit (used_map (get_pool s user)) j)
      \<and> p \<noteq> NULL \<and> pages_from p n \<inter> in_use (get_pool s user) = {}
      \<and> in_use (get_pool s' user) = in_use (get_pool s user) \<union> pages_from p n
      \<and> get_pool s' (\<not> user) = get_pool s (\<not> user) \<and> p_base (get_pool s' user) = p_base (get_pool s user)
      \<and> bit_cnt (used_map (get_pool s' user)) = bit_cnt (used_map (get_pool s user)) \<and> init_ram_pages s' = init_ram_pages s
      \<and> words s' = (if has_flag flags PAL_ZERO then fill_words (words s) p (PGSIZE * n) 0 else words s))
    \<or> (\<nexists>i. free_run (bit_cnt (used_map (get_pool s user))) (bbit (used_map (get_pool s user))) i n)
      \<and> palloc_get_multiple s flags n = (if has_flag flags PAL_ASSERT then None else Some (s, NULL))"
proof -
  let ?P = "get_pool s user" and ?B = "used_map (get_pool s user)"
  have P: "pool_ok ?P" using assms(2) by (cases user) (simp_all add: palloc_ok_pool)
  then have wf: "wf_bitmap ?B" by (simp add: pool_ok_def)
  obtain b r where sc: "bitmap_scan_and_flip ?B 0 n False = Some (b, r)" "wf_bitmap b" "bit_cnt b = bit_cnt ?B"
      "r = BITMAP_ERROR \<and> b = ?B \<and> (\<forall>k \<ge> 0. \<not> run_at ?B k n False)
       \<or> 0 \<le> r \<and> r < BITMAP_ERROR \<and> run_at ?B r n False \<and> (\<forall>k. 0 \<le> k \<and> k < r \<longrightarrow> \<not> run_at ?B k n False)
         \<and> (\<forall>j. bbit b j \<longleftrightarrow> (if r \<le> j \<and> j < r + n then \<not> False else bbit ?B j))"
    using bitmap_scan_and_flip_Some [OF wf, of 0 n False] by auto
  show ?thesis
  proof (cases "r = BITMAP_ERROR")
    case True
    then have "b = ?B" "\<nexists>i. free_run (bit_cnt ?B) (bbit ?B) i n" using sc(4) by (auto simp: run_at_free_run)
    moreover have "set_pool s user ?P = s" by (simp add: set_pool_def get_pool_def)
    ultimately show ?thesis using True sc(1) assms(3)
      by (intro disjI2) (simp add: palloc_get_multiple_def user_def [symmetric] Let_def)
  next
    case False
    then have r: "run_at ?B r n False" "\<forall>j. bbit b j \<longleftrightarrow> (r \<le> j \<and> j < r + n) \<or> bbit ?B j" using sc(4) by auto
    then have fr: "r + n \<le> bit_cnt ?B" "\<forall>j. r \<le> j \<and> j < r + n \<longrightarrow> \<not> bbit ?B j" by (auto simp: run_at_free_run free_run_def)
    let ?p = "page_at ?P r" and ?s = "set_pool s user (?P\<lparr>used_map := b\<rparr>)"
    have lim: "PGSIZE * r + PGSIZE * n \<le> PGSIZE * bit_cnt ?B" using mult_le_mono2 [OF fr(1), of PGSIZE] by (simp only: add_mult_distrib2)
    have top: "p_base ?P + PGSIZE * bit_cnt ?B \<le> two32" "0 < p_base ?P" using P by (auto simp: pool_ok_def kpage_def)
    have ar: "add32 (p_base ?P) (mul32 PGSIZE r) = ?p" "mul32 PGSIZE n = PGSIZE * n" "?p \<noteq> NULL"
      using lim top assms(3) by (simp_all add: page_at_def)
    have get: "palloc_get_multiple s flags n = Some (if has_flag flags PAL_ZERO
        then ?s\<lparr>words := fill_words (words s) ?p (PGSIZE * n) 0\<rparr> else ?s, ?p)"
      using sc(1) False assms(3) ar by (simp add: palloc_get_multiple_def user_def [symmetric] Let_def)
    have pf: "pages_from ?p n = {page_at ?P j | j. r \<le> j \<and> j < r + n}"
    proof -
      have "pages_from ?p n = {page_at ?P (r + i) | i. i < n}" by (auto simp: pages_from_def page_at_def algebra_simps)
      also have "\<dots> = {page_at ?P j | j. r \<le> j \<and> j < r + n}" by (auto simp: le_iff_add)
      finally show ?thesis .
    qed
    have disj: "pages_from ?p n \<inter> in_use ?P = {}" unfolding pf in_use_def using fr(2) by (auto simp: page_at_inj)
    have un: "in_use (?P\<lparr>used_map := b\<rparr>) = in_use ?P \<union> pages_from ?p n"
      unfolding pf in_use_def using r(2) fr(1) sc(3) by (auto simp: page_at_def)
    define s' where "s' = (if has_flag flags PAL_ZERO then ?s\<lparr>words := fill_words (words s) ?p (PGSIZE * n) 0\<rparr> else ?s)"
    have ok: "palloc_ok s'" using palloc_ok_update [OF assms(2) sc(2,3)] by (simp add: s'_def)
    have s': "get_pool s' user = ?P\<lparr>used_map := b\<rparr>" "get_pool s' (\<not> user) = get_pool s (\<not> user)" "init_ram_pages s' = init_ram_pages s"
        "words s' = (if has_flag flags PAL_ZERO then fill_words (words s) ?p (PGSIZE * n) 0 else words s)"
      by (auto simp: s'_def)
    show ?thesis using get fr disj un ok s' sc(3) ar(3) unfolding s'_def [symmetric]
      by (intro disjI1 exI [of _ s'] exI [of _ ?p] exI [of _ r]) simp
  qed
qed

section \<open>Freeing\<close>

lemma page_from_pool_iff:
  assumes "pool_ok p" "page = PGSIZE * k"
  shows "page_from_pool p page \<longleftrightarrow> (\<exists>i < bit_cnt (used_map p). page = page_at p i)"
proof -
  obtain b where b: "p_base p = PGSIZE * b" using assms(1) by (auto simp: pool_ok_def kpage_def elim: dvdE)
  have "b + bit_cnt (used_map p) < two32"
    using assms(1) b by (auto simp: pool_ok_def wf_bitmap_def)
  then have "page_from_pool p page \<longleftrightarrow> b \<le> k \<and> k < b + bit_cnt (used_map p)"
    using assms(2) b by (simp add: page_from_pool_def Let_def pg_no_div bitmap_size_def)
  also have "\<dots> \<longleftrightarrow> (\<exists>i < bit_cnt (used_map p). k = b + i)" by (auto simp: le_iff_add)
  also have "\<dots> \<longleftrightarrow> (\<exists>i < bit_cnt (used_map p). page = page_at p i)"
  proof -
    have "page = page_at p i \<longleftrightarrow> k = b + i" for i unfolding assms(2) page_at_def b by linarith
    then show ?thesis by simp
  qed
  finally show ?thesis .
qed

lemma pages_from_page_at: "pages_from (page_at p i) n = {page_at p j | j. i \<le> j \<and> j < i + n}"
proof -
  have "pages_from (page_at p i) n = {page_at p (i + k) | k. k < n}" by (auto simp: pages_from_def page_at_def algebra_simps)
  also have "\<dots> = {page_at p j | j. i \<le> j \<and> j < i + n}" by (auto simp: le_iff_add)
  finally show ?thesis .
qed

text \<open>Freeing a run of used pages of a pool makes exactly them free and overwrites only their contents.\<close>

lemma palloc_free_ok:
  assumes "palloc_ok s" "i + n \<le> bit_cnt (used_map (get_pool s u))" "\<forall>j. i \<le> j \<and> j < i + n \<longrightarrow> bbit (used_map (get_pool s u)) j" "0 < n"
  shows "\<exists>s'. palloc_free_multiple s (page_at (get_pool s u) i) n = Some s' \<and> palloc_ok s'
    \<and> in_use (get_pool s' u) = in_use (get_pool s u) - pages_from (page_at (get_pool s u) i) n
    \<and> get_pool s' (\<not> u) = get_pool s (\<not> u) \<and> p_base (get_pool s' u) = p_base (get_pool s u)
    \<and> bit_cnt (used_map (get_pool s' u)) = bit_cnt (used_map (get_pool s u)) \<and> init_ram_pages s' = init_ram_pages s
    \<and> words s' = fill_words (words s) (page_at (get_pool s u) i) (PGSIZE * n) 0xcccccccc"
proof -
  let ?P = "get_pool s u" and ?B = "used_map (get_pool s u)" let ?p = "page_at ?P i"
  have P: "pool_ok ?P" "pool_ok (get_pool s False)" "pool_ok (get_pool s True)" "pool_end (get_pool s False) \<le> p_base (get_pool s True)"
    using assms(1) by (cases u; simp add: palloc_ok_pool)+
  have wf: "wf_bitmap ?B" using P(1) by (simp add: pool_ok_def)
  obtain b where b: "p_base ?P = PGSIZE * b" "0 < b" using P(1) by (auto simp: pool_ok_def kpage_def elim!: dvdE)
  then have p: "?p = PGSIZE * (b + i)" "pg_ofs ?p = 0" "?p \<noteq> NULL" by (simp_all add: page_at_def pg_ofs_mod add_mult_distrib2)
  have ii: "i < bit_cnt ?B" using assms(2,4) by simp
  have which: "(if page_from_pool (kernel_pool s) ?p then Some False else if page_from_pool (user_pool s) ?p then Some True else None) = Some u"
  proof (cases u)
    case False
    then have "page_from_pool (kernel_pool s) ?p" using page_from_pool_iff [OF P(1) p(1)] ii by (auto simp: get_pool_def)
    then show ?thesis using False by simp
  next
    case True
    have "\<not> page_from_pool (get_pool s False) ?p"
    proof
      assume "page_from_pool (get_pool s False) ?p"
      then obtain j where "j < bit_cnt (used_map (get_pool s False))" "?p = page_at (get_pool s False) j"
        using page_from_pool_iff [OF P(2) p(1)] by blast
      then have "?p + PGSIZE \<le> p_base ?P" using page_at_kpage(2) [OF P(2)] P(4) True by fastforce
      then show False by (simp add: page_at_def)
    qed
    moreover have "page_from_pool (get_pool s True) ?p" using page_from_pool_iff [OF P(1) p(1)] ii True by auto
    ultimately show ?thesis using True by (simp add: get_pool_def)
  qed
  have bb: "b + i < two32" using P(1) b ii by (auto simp: pool_ok_def)
  have idx: "sub32 (pg_no ?p) (pg_no (p_base ?P)) = i" using p(1) b bb by (simp add: pg_no_div)
  have n: "mul32 PGSIZE n = PGSIZE * n"
  proof -
    have "PGSIZE * n \<le> PGSIZE * bit_cnt ?B" using assms(2) by simp
    then show ?thesis using P(1) b by (simp add: pool_ok_def)
  qed
  have all: "bitmap_all ?B i n = Some True" using bitmap_all_Some [OF wf assms(2)] assms(3) by auto
  obtain b' where b': "bitmap_set_multiple ?B i n False = Some b'" "wf_bitmap b'" "bit_cnt b' = bit_cnt ?B"
      "\<forall>j. bbit b' j \<longleftrightarrow> (if i \<le> j \<and> j < i + n then False else bbit ?B j)"
    using bitmap_set_multiple_Some [OF wf assms(2), of False] by blast
  let ?m = "fill_words (words s) ?p (PGSIZE * n) 0xcccccccc"
  let ?s = "(set_pool s u (?P\<lparr>used_map := b'\<rparr>))\<lparr>words := ?m\<rparr>"
  have "palloc_free_multiple s ?p n = Some ?s"
    unfolding palloc_free_multiple_def which using p(2,3) assms(4) idx n all b'(1) by (simp add: Let_def set_pool_words)
  moreover have "palloc_ok ?s" using palloc_ok_update(1) [OF assms(1) b'(2,3)] .
  moreover have "in_use (?P\<lparr>used_map := b'\<rparr>) = in_use ?P - pages_from ?p n"
    unfolding pages_from_page_at in_use_def using b'(3,4) by (auto simp: page_at_def)
  ultimately show ?thesis using b'(3) by (intro exI [of _ ?s]) simp
qed

section \<open>Single pages\<close>

lemma in_use_kpage: "palloc_ok s \<Longrightarrow> q \<in> in_use (get_pool s u) \<Longrightarrow> kpage q \<and> p_base (get_pool s u) \<le> q \<and> q + PGSIZE \<le> pool_end (get_pool s u)"
proof -
  assume a: "palloc_ok s" "q \<in> in_use (get_pool s u)"
  then have "pool_ok (get_pool s u)" by (cases u) (simp_all add: palloc_ok_pool)
  then show ?thesis using a(2) page_at_kpage(1,2) unfolding in_use_def by (fastforce simp: page_at_def)
qed

lemma pool_sides:
  assumes "palloc_ok s" "i < bit_cnt (used_map (get_pool s u))"
  shows "kpage (page_at (get_pool s u) i)" "page_at (get_pool s u) i \<notin> in_use (get_pool s (\<not> u))"
proof -
  have P: "pool_ok (get_pool s u)" "pool_end (get_pool s False) \<le> p_base (get_pool s True)"
    using assms(1) by (cases u; simp add: palloc_ok_pool)+
  let ?q = "page_at (get_pool s u) i"
  show "kpage ?q" using page_at_kpage(1) [OF P(1) assms(2)] .
  have q: "p_base (get_pool s u) \<le> ?q" "?q + PGSIZE \<le> pool_end (get_pool s u)"
    using page_at_kpage(2) [OF P(1) assms(2)] by (simp_all add: page_at_def)
  show "?q \<notin> in_use (get_pool s (\<not> u))"
  proof
    assume "?q \<in> in_use (get_pool s (\<not> u))"
    then have "p_base (get_pool s (\<not> u)) \<le> ?q" "?q + PGSIZE \<le> pool_end (get_pool s (\<not> u))"
      using in_use_kpage [OF assms(1)] by blast+
    then show False using q P(2) by (cases u) auto
  qed
qed

lemma pools_disjoint: "palloc_ok s \<Longrightarrow> in_use (kernel_pool s) \<inter> in_use (user_pool s) = {}"
proof -
  assume a: "palloc_ok s"
  have "q \<notin> in_use (get_pool s (\<not> False))" if "q \<in> in_use (get_pool s False)" for q
    using that pool_sides(2) [OF a] unfolding in_use_def [of "get_pool s False"] by blast
  then show ?thesis by (auto simp: get_pool_def)
qed

lemma pages_from_1 [simp]: "pages_from p (Suc 0) = {p}"
  by (simp add: pages_from_def)

text \<open>The extent of the pools and of memory, which no operation changes.\<close>

definition extent :: "pmem \<Rightarrow> ptr \<times> ptr \<times> ptr \<times> ptr \<times> nat" where
  "extent s = (p_base (kernel_pool s), pool_end (kernel_pool s), p_base (user_pool s), pool_end (user_pool s), init_ram_pages s)"

lemma extent_eqI:
  assumes "p_base (get_pool s' u) = p_base (get_pool s u)" "bit_cnt (used_map (get_pool s' u)) = bit_cnt (used_map (get_pool s u))"
    "get_pool s' (\<not> u) = get_pool s (\<not> u)" "init_ram_pages s' = init_ram_pages s"
  shows "extent s' = extent s"
  using assms by (cases u) (simp_all add: extent_def pool_end_def get_pool_def)

lemma palloc_get_page_ok:
  assumes "palloc_ok s"
  shows "(\<exists>s' p. palloc_get_page s flags = Some (s', p) \<and> palloc_ok s' \<and> p \<noteq> NULL \<and> kpage p
      \<and> p \<notin> in_use (kernel_pool s) \<and> p \<notin> in_use (user_pool s) \<and> extent s' = extent s
      \<and> in_use (kernel_pool s') = (if has_flag flags PAL_USER then in_use (kernel_pool s) else insert p (in_use (kernel_pool s)))
      \<and> in_use (user_pool s') = (if has_flag flags PAL_USER then insert p (in_use (user_pool s)) else in_use (user_pool s))
      \<and> words s' = (if has_flag flags PAL_ZERO then fill_words (words s) p PGSIZE 0 else words s))
    \<or> (\<nexists>i. free_run (bit_cnt (used_map (get_pool s (has_flag flags PAL_USER))))
          (bbit (used_map (get_pool s (has_flag flags PAL_USER)))) i 1)
      \<and> palloc_get_page s flags = (if has_flag flags PAL_ASSERT then None else Some (s, NULL))"
  using palloc_get_ok [OF assms zero_less_one, of flags]
proof (elim disjE exE conjE)
  let ?u = "has_flag flags PAL_USER"
  fix s' p i
  assume a: "palloc_get_multiple s flags 1 = Some (s', p)" "palloc_ok s'" "p = page_at (get_pool s ?u) i"
    "i + 1 \<le> bit_cnt (used_map (get_pool s ?u))" "p \<noteq> NULL"
    "pages_from p 1 \<inter> in_use (get_pool s ?u) = {}" "in_use (get_pool s' ?u) = in_use (get_pool s ?u) \<union> pages_from p 1"
    "get_pool s' (\<not> ?u) = get_pool s (\<not> ?u)" "p_base (get_pool s' ?u) = p_base (get_pool s ?u)"
    "bit_cnt (used_map (get_pool s' ?u)) = bit_cnt (used_map (get_pool s ?u))" "init_ram_pages s' = init_ram_pages s"
    "words s' = (if has_flag flags PAL_ZERO then fill_words (words s) p (PGSIZE * 1) 0 else words s)"
  have "kpage p" "p \<notin> in_use (get_pool s (\<not> ?u))" using pool_sides [OF assms] a(3,4) by auto
  moreover have "extent s' = extent s" by (rule extent_eqI [OF a(9,10,8,11)])
  ultimately show ?thesis using a(1,2,5-8,12)
    by (intro disjI1 exI [of _ s'] exI [of _ p]) (auto simp: palloc_get_page_def get_pool_def split: if_splits)
qed (simp_all add: palloc_get_page_def)

lemma palloc_free_page_ok:
  assumes "palloc_ok s" "p \<in> in_use (get_pool s u)"
  shows "\<exists>s'. palloc_free_page s p = Some s' \<and> palloc_ok s' \<and> extent s' = extent s
    \<and> in_use (get_pool s' u) = in_use (get_pool s u) - {p} \<and> get_pool s' (\<not> u) = get_pool s (\<not> u)
    \<and> words s' = fill_words (words s) p PGSIZE 0xcccccccc"
proof -
  obtain i where i: "p = page_at (get_pool s u) i" "i < bit_cnt (used_map (get_pool s u))" "bbit (used_map (get_pool s u)) i"
    using assms(2) by (auto simp: in_use_def)
  then have j: "i + 1 \<le> bit_cnt (used_map (get_pool s u))" "\<forall>j. i \<le> j \<and> j < i + 1 \<longrightarrow> bbit (used_map (get_pool s u)) j"
    by (auto simp: less_Suc_eq_le dest: le_antisym)
  from palloc_free_ok [OF assms(1) j] obtain s' where s': "palloc_free_multiple s p 1 = Some s'" "palloc_ok s'"
      "in_use (get_pool s' u) = in_use (get_pool s u) - pages_from p 1" "get_pool s' (\<not> u) = get_pool s (\<not> u)"
      "p_base (get_pool s' u) = p_base (get_pool s u)" "bit_cnt (used_map (get_pool s' u)) = bit_cnt (used_map (get_pool s u))"
      "init_ram_pages s' = init_ram_pages s" "words s' = fill_words (words s) p (PGSIZE * 1) 0xcccccccc"
    unfolding i(1) by auto
  then show ?thesis using extent_eqI [OF s'(5,6,4,7)] by (intro exI [of _ s']) (simp add: palloc_free_page_def)
qed

section \<open>Initialisation\<close>

lemma init_pool_ok:
  fixes cnt :: nat and bm :: nat
  defines "bm \<equiv> DIV_ROUND_UP (bitmap_buf_size cnt) PGSIZE"
  assumes "kpage base" "base + PGSIZE * cnt \<le> two32" "bm < cnt" "elem_cnt (cnt - bm) \<le> length ws"
  shows "\<exists>p. init_pool base cnt ws = Some p \<and> pool_ok p \<and> in_use p = {} \<and> base \<le> p_base p \<and> pool_end p = base + PGSIZE * cnt
    \<and> bit_cnt (used_map p) = cnt - bm"
proof -
  have c: "cnt < 2 ^ 20" using assms(2,3) by (simp add: kpage_def)
  have e: "elem_cnt n \<le> cnt div 32 + 1" if "n \<le> cnt" for n
  proof -
    have "elem_cnt n = (n + 31) div 32" using c that by (simp add: elem_cnt_def DIV_ROUND_UP_eq)
    also have "\<dots> \<le> (cnt + 31) div 32" using that by (intro div_le_mono) simp
    also have "\<dots> \<le> cnt div 32 + 1" by simp
    finally show ?thesis .
  qed
  have byc: "byte_cnt n = 4 * elem_cnt n" if "n \<le> cnt" for n using e [OF that] c by (simp add: byte_cnt_def)
  have bs: "bitmap_buf_size n = 8 + 4 * elem_cnt n" if "n \<le> cnt" for n
    using e [OF that] c by (simp add: bitmap_buf_size_def byc [OF that])
  have mono: "elem_cnt (cnt - bm) \<le> elem_cnt cnt"
    using c by (simp add: elem_cnt_def DIV_ROUND_UP_eq div_le_mono)
  have bmp: "bitmap_buf_size cnt \<le> bm * PGSIZE"
    unfolding bm_def by (rule DIV_ROUND_UP_ge) (use bs [of cnt] e [of cnt] c in simp_all)
  have sz: "bitmap_buf_size (cnt - bm) \<le> mul32 bm PGSIZE"
    using bmp bs [of cnt] bs [of "cnt - bm"] mono assms(4) c by simp
  let ?b = "\<lparr>bit_cnt = cnt - bm, bits = ws\<rparr>"
  have wf: "wf_bitmap ?b" using assms(5) c by (simp add: wf_bitmap_def)
  obtain b where b: "bitmap_set_all ?b False = Some b" "wf_bitmap b" "bit_cnt b = cnt - bm" "\<forall>j < cnt - bm. \<not> bbit b j"
    using bitmap_set_all_Some [OF wf, of False] by auto
  let ?p = "\<lparr>used_map = b, p_base = base + PGSIZE * bm\<rparr>"
  have le: "base + PGSIZE * bm + PGSIZE * (cnt - bm) = base + PGSIZE * cnt"
    using assms(4) by linarith
  have lt: "base + PGSIZE * bm < two32" using le assms(2-4) by linarith
  have "init_pool base cnt ws = Some ?p"
    using b(1) sz assms(4) lt c by (simp add: init_pool_def Let_def bm_def [symmetric] bitmap_create_in_buf_def mult.commute)
  moreover have "pool_ok ?p" using b(2,3) le lt assms(2,3) by (simp add: pool_ok_def kpage_def)
  moreover have "in_use ?p = {}" using b(3,4) by (auto simp: in_use_def)
  ultimately show ?thesis using le b(3) by (intro exI [of _ ?p]) (simp add: pool_end_def)
qed

lemma palloc_init_ok:
  fixes s :: pmem and limit :: nat
  defines "free \<equiv> init_ram_pages s - 256"
  defines "user \<equiv> min (free div 2) limit"
  assumes "256 \<le> init_ram_pages s" "init_ram_pages s < 262144"
    "DIV_ROUND_UP (bitmap_buf_size (free - user)) PGSIZE < free - user" "DIV_ROUND_UP (bitmap_buf_size user) PGSIZE < user"
    "free \<le> length ws1" "free \<le> length ws2"
  shows "\<exists>s'. palloc_init s limit ws1 ws2 = Some s' \<and> palloc_ok s' \<and> in_use (kernel_pool s') = {} \<and> in_use (user_pool s') = {}"
proof -
  have fs: "ptov (1024 * 1024) = Some 0xc0100000" by (simp add: ptov_def)
  have fe: "ptov (mul32 (init_ram_pages s) PGSIZE) = Some (0xc0000000 + init_ram_pages s * PGSIZE)" using assms(4) by (simp add: ptov_def)
  have fp: "sub32 (0xc0000000 + init_ram_pages s * PGSIZE) 0xc0100000 div PGSIZE = free"
  proof -
    have "sub32 (0xc0000000 + init_ram_pages s * PGSIZE) 0xc0100000 = free * PGSIZE" using assms(3,4) by (simp add: free_def)
    then show ?thesis by simp
  qed
  have le: "elem_cnt n \<le> free" if "n \<le> free" for n
  proof (cases "n = 0")
    case False
    have "elem_cnt n = (n + 31) div 32" using that assms(4) by (simp add: elem_cnt_def DIV_ROUND_UP_eq free_def)
    also have "\<dots> \<le> n" using False by simp
    finally show ?thesis using that by simp
  qed (simp add: elem_cnt_def DIV_ROUND_UP_eq)
  have u: "user \<le> free" by (simp add: user_def)
  have kb: "kpage 0xc0100000" "0xc0100000 + PGSIZE * (free - user) \<le> two32" using assms(3,4) by (simp_all add: kpage_def free_def)
  have le1: "elem_cnt (free - user - DIV_ROUND_UP (bitmap_buf_size (free - user)) PGSIZE) \<le> length ws1"
    using le [of "free - user - DIV_ROUND_UP (bitmap_buf_size (free - user)) PGSIZE"] assms(7) by linarith
  obtain k where k: "init_pool 0xc0100000 (free - user) ws1 = Some k" "pool_ok k" "in_use k = {}"
      "pool_end k = 0xc0100000 + PGSIZE * (free - user)"
    using init_pool_ok [OF kb assms(5) le1] by (elim exE conjE) (rule that)
  let ?ub = "0xc0100000 + (free - user) * PGSIZE"
  have add: "add32 0xc0100000 (mul32 (free - user) PGSIZE) = ?ub" using assms(3,4) u by (simp add: free_def)
  have ub: "kpage ?ub" "?ub + PGSIZE * user \<le> two32" using assms(3,4) u by (auto simp: kpage_def free_def)
  have le2: "elem_cnt (user - DIV_ROUND_UP (bitmap_buf_size user) PGSIZE) \<le> length ws2"
    using le [of "user - DIV_ROUND_UP (bitmap_buf_size user) PGSIZE"] assms(8) u by linarith
  obtain v where v: "init_pool ?ub user ws2 = Some v" "pool_ok v" "in_use v = {}" "?ub \<le> p_base v"
    using init_pool_ok [OF ub assms(6) le2] by (elim exE conjE) (rule that)
  have um: "(if limit < free div 2 then limit else free div 2) = user" by (simp add: user_def)
  have "palloc_init s limit ws1 ws2 = Some (s\<lparr>kernel_pool := k, user_pool := v\<rparr>)"
    unfolding palloc_init_def fs fe Let_def Option.bind.simps fp um add k(1) v(1) by simp
  then show ?thesis using k v by (simp add: palloc_ok_def mult.commute)
qed

section \<open>Properties\<close>

definition tiny_pools :: pmem where
  "tiny_pools = \<lparr>words = \<lambda>_. 5, kernel_pool = \<lparr>used_map = \<lparr>bit_cnt = 8, bits = [3]\<rparr>, p_base = 0xc0100000\<rparr>,
     user_pool = \<lparr>used_map = \<lparr>bit_cnt = 8, bits = [0]\<rparr>, p_base = 0xc0200000\<rparr>, init_ram_pages = 1024\<rparr>"

lemma tiny_pools_ok: "palloc_ok tiny_pools"
  by (simp add: palloc_ok_def tiny_pools_def pool_ok_def wf_bitmap_def elem_cnt_def DIV_ROUND_UP_eq kpage_def pool_end_def)

text \<open>
  C14. Safety of page allocation: pages that the allocator returns were in use in neither pool, lie
  in the pool asked for, on page boundaries in kernel memory, and are all zero if that was asked for, while
  no other memory changes; giving them back succeeds and restores the pages in use. The allocator
  returns a null pointer, or panics if so told, only if the pool has no run of free pages of that length.
\<close>

theorem palloc_safe:
  assumes "palloc_ok s" "0 < n"
  shows "(\<exists>s1 p s2. palloc_get_multiple s flags n = Some (s1, p) \<and> palloc_ok s1 \<and> p \<noteq> NULL
      \<and> (\<forall>q \<in> pages_from p n. kpage q \<and> q \<notin> in_use (kernel_pool s) \<and> q \<notin> in_use (user_pool s)
           \<and> q \<in> in_use (get_pool s1 (has_flag flags PAL_USER)))
      \<and> words s1 = (if has_flag flags PAL_ZERO then fill_words (words s) p (PGSIZE * n) 0 else words s)
      \<and> palloc_free_multiple s1 p n = Some s2 \<and> palloc_ok s2
      \<and> in_use (kernel_pool s2) = in_use (kernel_pool s) \<and> in_use (user_pool s2) = in_use (user_pool s))
    \<or> (\<nexists>i. free_run (bit_cnt (used_map (get_pool s (has_flag flags PAL_USER))))
          (bbit (used_map (get_pool s (has_flag flags PAL_USER)))) i n)
      \<and> palloc_get_multiple s flags n = (if has_flag flags PAL_ASSERT then None else Some (s, NULL))"
  using palloc_get_ok [OF assms, of flags]
proof (elim disjE exE conjE)
  let ?u = "has_flag flags PAL_USER"
  fix s1 p i
  assume a: "palloc_get_multiple s flags n = Some (s1, p)" "palloc_ok s1" "p = page_at (get_pool s ?u) i"
    "i + n \<le> bit_cnt (used_map (get_pool s ?u))" "\<forall>j. i \<le> j \<and> j < i + n \<longrightarrow> \<not> bbit (used_map (get_pool s ?u)) j"
    "p \<noteq> NULL" "pages_from p n \<inter> in_use (get_pool s ?u) = {}" "in_use (get_pool s1 ?u) = in_use (get_pool s ?u) \<union> pages_from p n"
    "get_pool s1 (\<not> ?u) = get_pool s (\<not> ?u)" "p_base (get_pool s1 ?u) = p_base (get_pool s ?u)"
    "bit_cnt (used_map (get_pool s1 ?u)) = bit_cnt (used_map (get_pool s ?u))"
    "words s1 = (if has_flag flags PAL_ZERO then fill_words (words s) p (PGSIZE * n) 0 else words s)"
  have other: "kpage q \<and> q \<notin> in_use (get_pool s (\<not> ?u))" if "q \<in> pages_from p n" for q
    using that a(4) pool_sides [OF assms(1)] unfolding a(3) pages_from_page_at by fastforce
  have used: "bbit (used_map (get_pool s1 ?u)) j" if "i \<le> j \<and> j < i + n" for j
  proof -
    have "page_at (get_pool s ?u) j \<in> pages_from p n" unfolding a(3) pages_from_page_at using that by blast
    then have "page_at (get_pool s1 ?u) j \<in> in_use (get_pool s1 ?u)" unfolding a(8) using a(10) by (simp add: page_at_def)
    then show ?thesis by (auto simp: in_use_def page_at_inj)
  qed
  obtain s2 where s2: "palloc_free_multiple s1 (page_at (get_pool s1 ?u) i) n = Some s2" "palloc_ok s2"
      "in_use (get_pool s2 ?u) = in_use (get_pool s1 ?u) - pages_from (page_at (get_pool s1 ?u) i) n"
      "get_pool s2 (\<not> ?u) = get_pool s1 (\<not> ?u)"
    using palloc_free_ok [OF a(2), of i n ?u] a(4,11) used assms(2) by auto
  have p1: "page_at (get_pool s1 ?u) i = p" using a(3,10) by (simp add: page_at_def)
  have same: "in_use (get_pool s2 v) = in_use (get_pool s v)" for v
    using s2(3,4) a(7-9) p1 by (cases "v = ?u") auto
  have notin: "q \<notin> in_use (get_pool s v)" if "q \<in> pages_from p n" for q v
    using other [OF that] a(7) that by (cases "v = ?u") auto
  have k: "get_pool x False = kernel_pool x" "get_pool x True = user_pool x" for x by (simp_all add: get_pool_def)
  have all: "\<forall>q \<in> pages_from p n. kpage q \<and> q \<notin> in_use (kernel_pool s) \<and> q \<notin> in_use (user_pool s) \<and> q \<in> in_use (get_pool s1 ?u)"
    using notin [of _ False] notin [of _ True] other a(8) by (auto simp: k)
  show ?thesis using a(1,2,6,12) all s2(1,2) p1 same [of False] same [of True] by (intro disjI1) (auto simp: k)
qed simp

theorem palloc_safe_witness:
  "(\<exists>s1 p s2. palloc_get_multiple tiny_pools 2 3 = Some (s1, p) \<and> palloc_ok s1 \<and> p \<noteq> NULL
      \<and> (\<forall>q \<in> pages_from p 3. kpage q \<and> q \<notin> in_use (kernel_pool tiny_pools) \<and> q \<notin> in_use (user_pool tiny_pools)
           \<and> q \<in> in_use (get_pool s1 (has_flag 2 PAL_USER)))
      \<and> words s1 = (if has_flag 2 PAL_ZERO then fill_words (words tiny_pools) p (PGSIZE * 3) 0 else words tiny_pools)
      \<and> palloc_free_multiple s1 p 3 = Some s2 \<and> palloc_ok s2
      \<and> in_use (kernel_pool s2) = in_use (kernel_pool tiny_pools) \<and> in_use (user_pool s2) = in_use (user_pool tiny_pools))
    \<or> (\<nexists>i. free_run (bit_cnt (used_map (get_pool tiny_pools (has_flag 2 PAL_USER))))
          (bbit (used_map (get_pool tiny_pools (has_flag 2 PAL_USER)))) i 3)
      \<and> palloc_get_multiple tiny_pools 2 3 = (if has_flag 2 PAL_ASSERT then None else Some (tiny_pools, NULL))"
  by (rule palloc_safe [OF tiny_pools_ok]) simp

end
