(* ===== verification/Pagedir.thy ===== *)
theory Pagedir
  imports Palloc
begin

text \<open>
  Page directories (\<^verbatim>\<open>userprog/pagedir.c\<close>). Directories and page tables live in the memory of the page
  allocator. The processor is modelled by its page directory base register and its translation
  lookaside buffer, which may hold any entry of the active directory that was present when the
  processor last used it and which reloading the register empties. The theory shows that directories stay
  disjoint whatever sequence of operations the kernel performs, that the buffer never holds a stale
  translation, and that each operation acts on a directory as on a finite map from pages to frames.
\<close>

section \<open>State\<close>

record mmu =
  mem :: pmem
  m_cr3 :: nat
  m_init_page_dir :: ptr
  tlb :: "nat \<Rightarrow> u32 option"

definition load_word :: "mmu \<Rightarrow> ptr \<Rightarrow> u32" where
  "load_word s a = words (mem s) a"

definition store_word :: "mmu \<Rightarrow> ptr \<Rightarrow> u32 \<Rightarrow> mmu" where
  "store_word s a v = s\<lparr>mem := (mem s)\<lparr>words := (words (mem s))(a := v)\<rparr>\<rparr>"

text \<open>\<^verbatim>\<open>memcpy\<close> on whole words.\<close>

definition copy_words :: "(nat \<Rightarrow> u32) \<Rightarrow> ptr \<Rightarrow> ptr \<Rightarrow> nat \<Rightarrow> nat \<Rightarrow> u32" where
  "copy_words m d p n a = (if d \<le> a \<and> a < d + n then m (p + (a - d)) else m a)"

section \<open>Operations\<close>

definition pagedir_create :: "mmu \<Rightarrow> (mmu \<times> ptr) option" where
  "pagedir_create s = do {
     (m, pd) \<leftarrow> palloc_get_page (mem s) 0;
     let m = (if pd \<noteq> NULL then m\<lparr>words := copy_words (words m) pd (m_init_page_dir s) PGSIZE\<rparr> else m);
     Some (s\<lparr>mem := m\<rparr>, pd)
   }"

text \<open>
  The inner and the outer loop of \<^verbatim>\<open>pagedir_destroy\<close>. Pointers and ends are multiples of four, so that
  advancing a pointer below the end does not overflow.
\<close>

function destroy_ptes :: "mmu \<Rightarrow> ptr \<Rightarrow> ptr \<Rightarrow> mmu option" where
  "destroy_ptes s pte pt_end =
     (if pte < pt_end then do {
        s \<leftarrow> (if load_word s pte AND PTE_P \<noteq> 0 then do {
             page \<leftarrow> pte_get_page (load_word s pte);
             m \<leftarrow> palloc_free_page (mem s) page;
             Some (s\<lparr>mem := m\<rparr>)
           } else Some s);
        destroy_ptes s (pte + 4) pt_end
      } else Some s)"
  by pat_completeness auto
termination by (relation "measure (\<lambda>(s, pte, pt_end). pt_end - pte)") auto

function destroy_pdes :: "mmu \<Rightarrow> ptr \<Rightarrow> ptr \<Rightarrow> mmu option" where
  "destroy_pdes s pde pd_end =
     (if pde < pd_end then do {
        s \<leftarrow> (if load_word s pde AND PTE_P \<noteq> 0 then do {
             pt \<leftarrow> pde_get_pt (load_word s pde);
             s \<leftarrow> destroy_ptes s pt (add32 pt (4 * (PGSIZE div 4)));
             m \<leftarrow> palloc_free_page (mem s) pt;
             Some (s\<lparr>mem := m\<rparr>)
           } else Some s);
        destroy_pdes s (pde + 4) pd_end
      } else Some s)"
  by pat_completeness auto
termination by (relation "measure (\<lambda>(s, pde, pd_end). pd_end - pde)") auto

declare destroy_ptes.simps [simp del] destroy_pdes.simps [simp del]

definition pagedir_destroy :: "mmu \<Rightarrow> ptr \<Rightarrow> mmu option" where
  "pagedir_destroy s pd =
     (if pd = NULL then Some s
      else do {
        ASSERT (pd \<noteq> m_init_page_dir s);
        s \<leftarrow> destroy_pdes s pd (add32 pd (4 * pd_no PHYS_BASE));
        m \<leftarrow> palloc_free_page (mem s) pd;
        Some (s\<lparr>mem := m\<rparr>)
      })"

definition lookup_page :: "mmu \<Rightarrow> ptr \<Rightarrow> ptr \<Rightarrow> bool \<Rightarrow> (mmu \<times> ptr) option" where
  "lookup_page s pd vaddr create = do {
     ASSERT (pd \<noteq> NULL);
     ASSERT (\<not> create \<or> is_user_vaddr vaddr);
     let pde = add32 pd (4 * pd_no vaddr);
     (s, found) \<leftarrow>
       (if load_word s pde = 0 then
          if create then do {
            (m, pt) \<leftarrow> palloc_get_page (mem s) PAL_ZERO;
            let s = s\<lparr>mem := m\<rparr>;
            if pt = NULL then Some (s, False)
            else do {
              e \<leftarrow> pde_create pt;
              Some (store_word s pde e, True)
            }
          }
          else Some (s, False)
        else Some (s, True));
     if found then do {
       pt \<leftarrow> pde_get_pt (load_word s pde);
       Some (s, add32 pt (4 * pt_no vaddr))
     }
     else Some (s, NULL)
   }"

definition pagedir_set_page :: "mmu \<Rightarrow> ptr \<Rightarrow> ptr \<Rightarrow> ptr \<Rightarrow> bool \<Rightarrow> (mmu \<times> bool) option" where
  "pagedir_set_page s pd upage kp writable = do {
     ASSERT (pg_ofs upage = 0);
     ASSERT (pg_ofs kp = 0);
     ASSERT (is_user_vaddr upage);
     v \<leftarrow> vtop kp;
     ASSERT (drop_bit 12 v < init_ram_pages (mem s));
     ASSERT (pd \<noteq> m_init_page_dir s);
     (s, pte) \<leftarrow> lookup_page s pd upage True;
     if pte \<noteq> NULL then do {
       ASSERT (load_word s pte AND PTE_P = 0);
       e \<leftarrow> pte_create_user kp writable;
       Some (store_word s pte e, True)
     }
     else Some (s, False)
   }"

definition pagedir_get_page :: "mmu \<Rightarrow> ptr \<Rightarrow> ptr \<Rightarrow> ptr option" where
  "pagedir_get_page s pd uaddr = do {
     ASSERT (is_user_vaddr uaddr);
     (s, pte) \<leftarrow> lookup_page s pd uaddr False;
     if pte \<noteq> NULL \<and> load_word s pte AND PTE_P \<noteq> 0 then do {
       page \<leftarrow> pte_get_page (load_word s pte);
       Some (add32 page (pg_ofs uaddr))
     }
     else Some NULL
   }"

definition pagedir_activate :: "mmu \<Rightarrow> ptr \<Rightarrow> mmu option" where
  "pagedir_activate s pd = do {
     let pd = (if pd = NULL then m_init_page_dir s else pd);
     v \<leftarrow> vtop pd;
     Some (s\<lparr>m_cr3 := v, tlb := \<lambda>_. None\<rparr>)
   }"

definition active_pd :: "mmu \<Rightarrow> ptr option" where
  "active_pd s = ptov (m_cr3 s)"

definition invalidate_pagedir :: "mmu \<Rightarrow> ptr \<Rightarrow> mmu option" where
  "invalidate_pagedir s pd = do {
     a \<leftarrow> active_pd s;
     if a = pd then pagedir_activate s pd else Some s
   }"

definition pagedir_clear_page :: "mmu \<Rightarrow> ptr \<Rightarrow> ptr \<Rightarrow> mmu option" where
  "pagedir_clear_page s pd upage = do {
     ASSERT (pg_ofs upage = 0);
     ASSERT (is_user_vaddr upage);
     (s, pte) \<leftarrow> lookup_page s pd upage False;
     if pte \<noteq> NULL \<and> load_word s pte AND PTE_P \<noteq> 0
     then invalidate_pagedir (store_word s pte (load_word s pte AND NOT PTE_P)) pd
     else Some s
   }"

text \<open>The dirty and the accessed bit.\<close>

definition pagedir_is_dirty :: "mmu \<Rightarrow> ptr \<Rightarrow> ptr \<Rightarrow> bool option" where
  "pagedir_is_dirty s pd vpage = do {
     (s, pte) \<leftarrow> lookup_page s pd vpage False;
     Some (pte \<noteq> NULL \<and> load_word s pte AND PTE_D \<noteq> 0)
   }"

definition pagedir_set_dirty :: "mmu \<Rightarrow> ptr \<Rightarrow> ptr \<Rightarrow> bool \<Rightarrow> mmu option" where
  "pagedir_set_dirty s pd vpage dirty = do {
     (s, pte) \<leftarrow> lookup_page s pd vpage False;
     if pte \<noteq> NULL then
       if dirty then Some (store_word s pte (load_word s pte OR PTE_D))
       else invalidate_pagedir (store_word s pte (load_word s pte AND NOT PTE_D)) pd
     else Some s
   }"

definition pagedir_is_accessed :: "mmu \<Rightarrow> ptr \<Rightarrow> ptr \<Rightarrow> bool option" where
  "pagedir_is_accessed s pd vpage = do {
     (s, pte) \<leftarrow> lookup_page s pd vpage False;
     Some (pte \<noteq> NULL \<and> load_word s pte AND PTE_A \<noteq> 0)
   }"

definition pagedir_set_accessed :: "mmu \<Rightarrow> ptr \<Rightarrow> ptr \<Rightarrow> bool \<Rightarrow> mmu option" where
  "pagedir_set_accessed s pd vpage accessed = do {
     (s, pte) \<leftarrow> lookup_page s pd vpage False;
     if pte \<noteq> NULL then
       if accessed then Some (store_word s pte (load_word s pte OR PTE_A))
       else invalidate_pagedir (store_word s pte (load_word s pte AND NOT PTE_A)) pd
     else Some s
   }"

section \<open>Directories as maps\<close>

text \<open>
  The page table of entry \<open>i\<close> of a directory, the entry of page number \<open>k\<close> and the frame it maps to.
\<close>

definition table :: "pmem \<Rightarrow> ptr \<Rightarrow> nat \<Rightarrow> ptr option" where
  "table m pd i = (if words m (pd + 4 * i) = 0 then None else pde_get_pt (words m (pd + 4 * i)))"

definition entry :: "pmem \<Rightarrow> ptr \<Rightarrow> nat \<Rightarrow> u32 option" where
  "entry m pd k = map_option (\<lambda>pt. words m (pt + 4 * (k mod 1024))) (table m pd (k div 1024))"

definition frame :: "pmem \<Rightarrow> ptr \<Rightarrow> nat \<Rightarrow> ptr option" where
  "frame m pd k = (case entry m pd k of Some e \<Rightarrow> if bit e 0 then pte_get_page e else None | None \<Rightarrow> None)"

text \<open>The number of page tables and of pages below \<^const>\<open>PHYS_BASE\<close>.\<close>

abbreviation (input) user_tables :: nat where
  "user_tables \<equiv> 768"

abbreviation (input) user_pages :: nat where
  "user_pages \<equiv> 786432"

text \<open>
  What the processor may have cached of an entry: the same translation and permissions, and
  accessed and dirty only if the entry in memory is.
\<close>

definition cached :: "u32 \<Rightarrow> u32 \<Rightarrow> bool" where
  "cached e e' \<longleftrightarrow> bit e 0 \<and> (\<forall>n. n \<noteq> 5 \<and> n \<noteq> 6 \<longrightarrow> bit e n = bit e' n) \<and> (bit e 5 \<longrightarrow> bit e' 5) \<and> (bit e 6 \<longrightarrow> bit e' 6)"

definition active :: "mmu \<Rightarrow> ptr" where
  "active s = PHYS_BASE + m_cr3 s"

definition tlb_ok :: "mmu \<Rightarrow> bool" where
  "tlb_ok s \<longleftrightarrow> (\<forall>k < user_pages. \<forall>e. tlb s k = Some e \<longrightarrow> (\<exists>e'. entry (mem s) (active s) k = Some e' \<and> cached e e'))"

text \<open>Tables and frames belong to one directory each and are in use in the right pool.\<close>

definition dirs_ok :: "pmem \<Rightarrow> ptr set \<Rightarrow> bool" where
  "dirs_ok m D \<longleftrightarrow> D \<subseteq> in_use (kernel_pool m)
     \<and> (\<forall>pd \<in> D. \<forall>i < user_tables. words m (pd + 4 * i) \<noteq> 0 \<longrightarrow> table m pd i \<noteq> None)
     \<and> (\<forall>pd \<in> D. \<forall>i < user_tables. \<forall>t. table m pd i = Some t \<longrightarrow> t \<in> in_use (kernel_pool m) - D)
     \<and> (\<forall>pd \<in> D. \<forall>pd' \<in> D. \<forall>i < user_tables. \<forall>j < user_tables. \<forall>t.
          table m pd i = Some t \<and> table m pd' j = Some t \<longrightarrow> pd = pd' \<and> i = j)
     \<and> (\<forall>pd \<in> D. \<forall>k < user_pages. \<forall>e. entry m pd k = Some e \<and> bit e 0 \<longrightarrow> frame m pd k \<noteq> None)
     \<and> (\<forall>pd \<in> D. \<forall>k < user_pages. \<forall>p. frame m pd k = Some p \<longrightarrow> p \<in> in_use (user_pool m))
     \<and> (\<forall>pd \<in> D. \<forall>pd' \<in> D. \<forall>k < user_pages. \<forall>l < user_pages. \<forall>p.
          frame m pd k = Some p \<and> frame m pd' l = Some p \<longrightarrow> pd = pd' \<and> k = l)"

text \<open>Physical memory is below the 1 GB that the kernel can map.\<close>

definition ram_ok :: "pmem \<Rightarrow> bool" where
  "ram_ok m \<longleftrightarrow> palloc_ok m \<and> init_ram_pages m < 2 ^ 18 \<and> pool_end (user_pool m) \<le> PHYS_BASE + PGSIZE * init_ram_pages m"

definition vm_ok :: "mmu \<Rightarrow> ptr set \<Rightarrow> bool" where
  "vm_ok s D \<longleftrightarrow> ram_ok (mem s) \<and> dirs_ok (mem s) D \<and> m_init_page_dir s \<in> D
     \<and> (\<forall>i < user_tables. table (mem s) (m_init_page_dir s) i = None) \<and> active s \<in> D \<and> tlb_ok s"

section \<open>Updates of memory\<close>

definition present_frame :: "u32 option \<Rightarrow> ptr option" where
  "present_frame e = (case e of Some e \<Rightarrow> if bit e 0 then pte_get_page e else None | None \<Rightarrow> None)"

lemma frame_entry: "frame m pd k = present_frame (entry m pd k)"
  by (simp add: frame_def present_frame_def)

lemma page_offset_eq:
  assumes "kpage p" "kpage q" "a < PGSIZE" "b < PGSIZE"
  shows "p + a = q + b \<longleftrightarrow> p = q \<and> a = b"
proof
  assume e: "p + a = q + b"
  have "(p + a) mod PGSIZE = a" "(q + b) mod PGSIZE = b" using assms by (auto simp: kpage_def mod_add_eq [symmetric, of p] mod_add_eq [symmetric, of q])
  then show "p = q \<and> a = b" using e by auto
qed simp

lemma kernel_kpage: "palloc_ok m \<Longrightarrow> q \<in> in_use (kernel_pool m) \<Longrightarrow> kpage q"
  using in_use_kpage [of m q False] by (simp add: get_pool_def)

lemma user_kpage: "palloc_ok m \<Longrightarrow> q \<in> in_use (user_pool m) \<Longrightarrow> kpage q"
  using in_use_kpage [of m q True] by (simp add: get_pool_def)

lemma dirs_okD:
  assumes "dirs_ok m D"
  shows "pd \<in> D \<Longrightarrow> pd \<in> in_use (kernel_pool m)"
    "pd \<in> D \<Longrightarrow> i < user_tables \<Longrightarrow> words m (pd + 4 * i) \<noteq> 0 \<Longrightarrow> table m pd i \<noteq> None"
    "pd \<in> D \<Longrightarrow> i < user_tables \<Longrightarrow> table m pd i = Some t \<Longrightarrow> t \<in> in_use (kernel_pool m)"
    "pd \<in> D \<Longrightarrow> i < user_tables \<Longrightarrow> table m pd i = Some t \<Longrightarrow> t \<notin> D"
    "pd \<in> D \<Longrightarrow> pd' \<in> D \<Longrightarrow> i < user_tables \<Longrightarrow> j < user_tables \<Longrightarrow> table m pd i = Some t \<Longrightarrow> table m pd' j = Some t \<Longrightarrow> pd = pd' \<and> i = j"
    "pd \<in> D \<Longrightarrow> k < user_pages \<Longrightarrow> entry m pd k = Some e \<Longrightarrow> bit e 0 \<Longrightarrow> frame m pd k \<noteq> None"
    "pd \<in> D \<Longrightarrow> k < user_pages \<Longrightarrow> frame m pd k = Some p \<Longrightarrow> p \<in> in_use (user_pool m)"
    "pd \<in> D \<Longrightarrow> pd' \<in> D \<Longrightarrow> k < user_pages \<Longrightarrow> l < user_pages \<Longrightarrow> frame m pd k = Some p \<Longrightarrow> frame m pd' l = Some p \<Longrightarrow> pd = pd' \<and> k = l"
proof -
  note d = assms [unfolded dirs_ok_def]
  note c = conjunct1 [OF d] conjunct1 [OF conjunct2 [OF d]] conjunct1 [OF conjunct2 [OF conjunct2 [OF d]]]
  note d' = conjunct2 [OF conjunct2 [OF conjunct2 [OF d]]]
  note c' = conjunct1 [OF d'] conjunct1 [OF conjunct2 [OF d']] conjunct1 [OF conjunct2 [OF conjunct2 [OF d']]] conjunct2 [OF conjunct2 [OF conjunct2 [OF d']]]
  show "pd \<in> D \<Longrightarrow> pd \<in> in_use (kernel_pool m)" using c(1) by blast
  show "pd \<in> D \<Longrightarrow> i < user_tables \<Longrightarrow> words m (pd + 4 * i) \<noteq> 0 \<Longrightarrow> table m pd i \<noteq> None" using c(2) by blast
  show "pd \<in> D \<Longrightarrow> i < user_tables \<Longrightarrow> table m pd i = Some t \<Longrightarrow> t \<in> in_use (kernel_pool m)" using c(3) by blast
  show "pd \<in> D \<Longrightarrow> i < user_tables \<Longrightarrow> table m pd i = Some t \<Longrightarrow> t \<notin> D" using c(3) by blast
  show "pd \<in> D \<Longrightarrow> pd' \<in> D \<Longrightarrow> i < user_tables \<Longrightarrow> j < user_tables \<Longrightarrow> table m pd i = Some t \<Longrightarrow> table m pd' j = Some t \<Longrightarrow> pd = pd' \<and> i = j"
    using c'(1) by blast
  show "pd \<in> D \<Longrightarrow> k < user_pages \<Longrightarrow> entry m pd k = Some e \<Longrightarrow> bit e 0 \<Longrightarrow> frame m pd k \<noteq> None" using c'(2) by blast
  show "pd \<in> D \<Longrightarrow> k < user_pages \<Longrightarrow> frame m pd k = Some p \<Longrightarrow> p \<in> in_use (user_pool m)" using c'(3) by blast
  show "pd \<in> D \<Longrightarrow> pd' \<in> D \<Longrightarrow> k < user_pages \<Longrightarrow> l < user_pages \<Longrightarrow> frame m pd k = Some p \<Longrightarrow> frame m pd' l = Some p \<Longrightarrow> pd = pd' \<and> k = l"
    using c'(4) by blast
qed

text \<open>A write outside the pages that make up the directories is not seen by any of them.\<close>

definition own :: "pmem \<Rightarrow> ptr set \<Rightarrow> ptr set" where
  "own m D = D \<union> {t. \<exists>pd \<in> D. \<exists>i < user_tables. table m pd i = Some t}"

definition agree :: "ptr set \<Rightarrow> (nat \<Rightarrow> u32) \<Rightarrow> (nat \<Rightarrow> u32) \<Rightarrow> bool" where
  "agree P m m' \<longleftrightarrow> (\<forall>q \<in> P. \<forall>a < PGSIZE. m' (q + a) = m (q + a))"

lemma own_in_use: "dirs_ok m D \<Longrightarrow> own m D \<subseteq> in_use (kernel_pool m)"
  using dirs_okD(1,3) unfolding own_def by blast

lemma agree_dirs:
  assumes "agree (own m D) (words m) (words m')" "pd \<in> D"
  shows "i < user_tables \<Longrightarrow> words m' (pd + 4 * i) = words m (pd + 4 * i)" "i < user_tables \<Longrightarrow> table m' pd i = table m pd i"
    "k < user_pages \<Longrightarrow> entry m' pd k = entry m pd k" "k < user_pages \<Longrightarrow> frame m' pd k = frame m pd k"
proof -
  show w: "words m' (pd + 4 * i) = words m (pd + 4 * i)" if "i < user_tables" for i
    using assms that by (simp add: agree_def own_def)
  show t: "table m' pd i = table m pd i" if "i < user_tables" for i using w [OF that] by (simp add: table_def)
  show e: "entry m' pd k = entry m pd k" if "k < user_pages" for k
  proof (cases "table m pd (k div 1024)")
    case (Some pt)
    have k: "k div 1024 < user_tables" using that by auto
    then have "pt \<in> own m D" using Some assms(2) by (auto simp: own_def)
    then show ?thesis using assms(1) t [OF k] Some by (simp add: agree_def entry_def)
  next
    case None
    have "k div 1024 < user_tables" using that by auto
    then show ?thesis using t None by (simp add: entry_def)
  qed
  show "k < user_pages \<Longrightarrow> frame m' pd k = frame m pd k" by (simp add: frame_entry e)
qed

lemma own_agree:
  assumes "agree (own m D) (words m) (words m')"
  shows "own m' D = own m D"
proof -
  have "(\<exists>i < user_tables. table m' pd i = Some t) \<longleftrightarrow> (\<exists>i < user_tables. table m pd i = Some t)" if "pd \<in> D" for pd t
    using agree_dirs(2) [OF assms that] by auto
  then show ?thesis unfolding own_def by simp
qed

lemma dirs_ok_agree:
  assumes "dirs_ok m D" "agree (own m D) (words m) (words m')" "own m D \<subseteq> in_use (kernel_pool m')"
    "\<And>pd k p. pd \<in> D \<Longrightarrow> k < user_pages \<Longrightarrow> frame m pd k = Some p \<Longrightarrow> p \<in> in_use (user_pool m')"
  shows "dirs_ok m' D"
  unfolding dirs_ok_def
proof (intro conjI ballI allI impI)
  fix pd k e assume "pd \<in> D" "k < user_pages" "entry m' pd k = Some e \<and> bit e 0"
  then show "frame m' pd k \<noteq> None" using agree_dirs(3,4) [OF assms(2)] dirs_okD(6) [OF assms(1)] by simp
next
  fix pd pd' k l p
  assume "pd \<in> D" "pd' \<in> D" "k < user_pages" "l < user_pages" "frame m' pd k = Some p \<and> frame m' pd' l = Some p"
  then show "pd = pd'" "k = l" using agree_dirs(4) [OF assms(2)] dirs_okD(8) [OF assms(1), of pd pd' k l p] by simp_all
next
  fix pd pd' i j t
  assume "pd \<in> D" "pd' \<in> D" "i < user_tables" "j < user_tables" "table m' pd i = Some t \<and> table m' pd' j = Some t"
  then show "pd = pd'" "i = j" using agree_dirs(2) [OF assms(2)] dirs_okD(5) [OF assms(1), of pd pd' i j t] by simp_all
next
  show "D \<subseteq> in_use (kernel_pool m')" using assms(3) by (auto simp: own_def)
next
  fix pd k p assume "pd \<in> D" "k < user_pages" "frame m' pd k = Some p"
  then show "p \<in> in_use (user_pool m')" using agree_dirs(4) [OF assms(2)] assms(4) by simp
next
  fix pd i t assume a: "pd \<in> D" "i < user_tables" "table m' pd i = Some t"
  then have "table m pd i = Some t" using agree_dirs(2) [OF assms(2)] by simp
  then show "t \<in> in_use (kernel_pool m') - D" using a dirs_okD(4) [OF assms(1) a(1,2)] assms(3) by (auto simp: own_def)
next
  fix pd i assume "pd \<in> D" "i < user_tables" "words m' (pd + 4 * i) \<noteq> 0"
  then show "table m' pd i \<noteq> None" using agree_dirs(1,2) [OF assms(2)] dirs_okD(2) [OF assms(1)] by simp
qed

lemma dirs_ok_subset:
  assumes "dirs_ok m D" "E \<subseteq> D"
  shows "dirs_ok m E"
proof -
  have sub: "pd \<in> D" if "pd \<in> E" for pd using that assms(2) by blast
  note d = dirs_okD [OF assms(1)]
  show ?thesis unfolding dirs_ok_def
  proof (intro conjI ballI allI impI)
    show "E \<subseteq> in_use (kernel_pool m)" using d(1) sub by blast
  next
    fix pd i t assume "pd \<in> E" "i < user_tables" "table m pd i = Some t"
    then show "t \<in> in_use (kernel_pool m) - E" using d(3,4) [OF sub, of pd i t] sub by blast
  next
    fix pd pd' i j t assume "pd \<in> E" "pd' \<in> E" "i < user_tables" "j < user_tables" "table m pd i = Some t \<and> table m pd' j = Some t"
    then show "pd = pd'" "i = j" using d(5) [OF sub sub, of pd pd' i j t] by simp_all
  next
    fix pd pd' k l p assume "pd \<in> E" "pd' \<in> E" "k < user_pages" "l < user_pages" "frame m pd k = Some p \<and> frame m pd' l = Some p"
    then show "pd = pd'" "k = l" using d(8) [OF sub sub, of pd pd' k l p] by simp_all
  next
    fix pd i assume "pd \<in> E" "i < user_tables" "words m (pd + 4 * i) \<noteq> 0"
    then show "table m pd i \<noteq> None" using d(2) [OF sub] by simp
  next
    fix pd k e assume "pd \<in> E" "k < user_pages" "entry m pd k = Some e \<and> bit e 0"
    then show "frame m pd k \<noteq> None" using d(6) [OF sub] by simp
  next
    fix pd k p assume "pd \<in> E" "k < user_pages" "frame m pd k = Some p"
    then show "p \<in> in_use (user_pool m)" using d(7) [OF sub] by simp
  qed
qed

text \<open>Writes to one page are not seen in others.\<close>

lemma agree_page:
  assumes "\<forall>q \<in> P. kpage q" "kpage p" "p \<notin> P" "\<forall>a. \<not> (p \<le> a \<and> a < p + PGSIZE) \<longrightarrow> m' a = m a"
  shows "agree P m m'"
proof -
  have "\<not> (p \<le> q + a \<and> q + a < p + PGSIZE)" if q: "q \<in> P" "a < PGSIZE" for q a
  proof
    assume c: "p \<le> q + a \<and> q + a < p + PGSIZE"
    then have "q + a = p + (q + a - p)" "q + a - p < PGSIZE" by auto
    then have "q = p" using page_offset_eq [of q p a "q + a - p"] assms(1,2) q by metis
    then show False using q(1) assms(3) by simp
  qed
  then show ?thesis unfolding agree_def using assms(4) by blast
qed

lemma agree_fill: "\<forall>q \<in> P. kpage q \<Longrightarrow> kpage p \<Longrightarrow> p \<notin> P \<Longrightarrow> agree P m (fill_words m p PGSIZE v)"
  by (erule (2) agree_page) (simp add: fill_words_def)

lemma agree_copy: "\<forall>q \<in> P. kpage q \<Longrightarrow> kpage p \<Longrightarrow> p \<notin> P \<Longrightarrow> agree P m (copy_words m p q PGSIZE)"
  by (erule (2) agree_page) (simp add: copy_words_def)

lemma agree_mono: "agree P m m' \<Longrightarrow> Q \<subseteq> P \<Longrightarrow> agree Q m m'"
  unfolding agree_def by blast

lemma agree_trans: "agree P m m' \<Longrightarrow> agree P m' m'' \<Longrightarrow> agree P m m''"
  by (simp add: agree_def)

text \<open>Writing an entry of a page table changes the mapping of one page of one directory.\<close>

lemma store_entry:
  assumes "palloc_ok m" "dirs_ok m D" "pd \<in> D" "k < user_pages" "table m pd (k div 1024) = Some t"
    and m'_def: "m' = m\<lparr>words := (words m)(t + 4 * (k mod 1024) := e)\<rparr>"
  shows "pd' \<in> D \<Longrightarrow> i < user_tables \<Longrightarrow> words m' (pd' + 4 * i) = words m (pd' + 4 * i)"
    "pd' \<in> D \<Longrightarrow> i < user_tables \<Longrightarrow> table m' pd' i = table m pd' i"
    "pd' \<in> D \<Longrightarrow> l < user_pages \<Longrightarrow> entry m' pd' l = (if pd' = pd \<and> l = k then Some e else entry m pd' l)"
proof -
  have kk: "k div 1024 < user_tables" using assms(4) by auto
  have t: "t \<in> in_use (kernel_pool m)" "t \<notin> D" "kpage t" using dirs_okD(3,4) [OF assms(2,3) kk assms(5)] kernel_kpage [OF assms(1)] by auto
  show w: "words m' (pd' + 4 * i) = words m (pd' + 4 * i)" if "pd' \<in> D" "i < user_tables" for pd' i
  proof -
    have "pd' + 4 * i \<noteq> t + 4 * (k mod 1024)"
      using page_offset_eq [of pd' t "4 * i" "4 * (k mod 1024)"] that t kernel_kpage [OF assms(1) dirs_okD(1) [OF assms(2)]] by auto
    then show ?thesis by (simp add: m'_def)
  qed
  then show tb: "table m' pd' i = table m pd' i" if "pd' \<in> D" "i < user_tables" for pd' i using that by (simp add: table_def)
  show "entry m' pd' l = (if pd' = pd \<and> l = k then Some e else entry m pd' l)" if l: "pd' \<in> D" "l < user_pages" for pd' l
  proof -
    have ll: "l div 1024 < user_tables" using l by auto
    show ?thesis
    proof (cases "table m pd' (l div 1024)")
      case (Some t')
      have "kpage t'" using dirs_okD(3) [OF assms(2) l(1) ll Some] kernel_kpage [OF assms(1)] by blast
      then have "t' + 4 * (l mod 1024) = t + 4 * (k mod 1024) \<longleftrightarrow> t' = t \<and> l mod 1024 = k mod 1024"
        using page_offset_eq [of t' t "4 * (l mod 1024)" "4 * (k mod 1024)"] t(3) by auto
      moreover have "t' = t \<longleftrightarrow> pd' = pd \<and> l div 1024 = k div 1024"
        using dirs_okD(5) [OF assms(2) l(1) assms(3) ll kk] Some assms(5) by auto
      moreover have "l = k \<longleftrightarrow> l div 1024 = k div 1024 \<and> l mod 1024 = k mod 1024" by (metis div_mult_mod_eq)
      ultimately have "t' + 4 * (l mod 1024) = t + 4 * (k mod 1024) \<longleftrightarrow> pd' = pd \<and> l = k" by blast
      then show ?thesis using Some tb [OF l(1) ll] by (simp add: entry_def m'_def)
    next
      case None
      then show ?thesis using tb [OF l(1) ll] assms(5) by (auto simp: entry_def)
    qed
  qed
qed

definition entry_fits :: "pmem \<Rightarrow> ptr set \<Rightarrow> ptr \<Rightarrow> nat \<Rightarrow> u32 \<Rightarrow> bool" where
  "entry_fits m D pd k e \<longleftrightarrow> (bit e 0 \<longrightarrow> present_frame (Some e) \<noteq> None) \<and> (\<forall>p. present_frame (Some e) = Some p \<longrightarrow>
     p \<in> in_use (user_pool m) \<and> (\<forall>pd' \<in> D. \<forall>l < user_pages. frame m pd' l = Some p \<longrightarrow> pd' = pd \<and> l = k))"

lemma entry_fitsD:
  assumes "entry_fits m D pd k e"
  shows "bit e 0 \<Longrightarrow> present_frame (Some e) \<noteq> None" "present_frame (Some e) = Some p \<Longrightarrow> p \<in> in_use (user_pool m)"
    "present_frame (Some e) = Some p \<Longrightarrow> pd' \<in> D \<Longrightarrow> l < user_pages \<Longrightarrow> frame m pd' l = Some p \<Longrightarrow> pd' = pd \<and> l = k"
  using assms unfolding entry_fits_def by (blast, blast, metis)

lemma dirs_ok_store:
  assumes "palloc_ok m" "dirs_ok m D" "pd \<in> D" "k < user_pages" "table m pd (k div 1024) = Some t" "entry_fits m D pd k e"
  shows "dirs_ok (m\<lparr>words := (words m)(t + 4 * (k mod 1024) := e)\<rparr>) D"
proof -
  let ?m = "m\<lparr>words := (words m)(t + 4 * (k mod 1024) := e)\<rparr>"
  note st = store_entry [OF assms(1-5) refl, of _ _ e]
  have fr: "frame ?m pd' l = (if pd' = pd \<and> l = k then present_frame (Some e) else frame m pd' l)" if "pd' \<in> D" "l < user_pages" for pd' l
    using st(3) [OF that] by (simp add: frame_entry)
  show ?thesis unfolding dirs_ok_def
  proof (intro conjI ballI allI impI)
    fix pd' l e' assume a: "pd' \<in> D" "l < user_pages" "entry ?m pd' l = Some e' \<and> bit e' 0"
    then show "frame ?m pd' l \<noteq> None"
      using st(3) [OF a(1,2)] fr [OF a(1,2)] entry_fitsD(1) [OF assms(6)] dirs_okD(6) [OF assms(2) a(1,2)] by (auto split: if_splits)
  next
    fix pd' l p assume a: "pd' \<in> D" "l < user_pages" "frame ?m pd' l = Some p"
    then show "p \<in> in_use (user_pool ?m)"
      using fr [OF a(1,2)] entry_fitsD(2) [OF assms(6)] dirs_okD(7) [OF assms(2) a(1,2)] by (auto split: if_splits)
  next
    fix pd1 pd2 l1 l2 p assume a: "pd1 \<in> D" "pd2 \<in> D" "l1 < user_pages" "l2 < user_pages" "frame ?m pd1 l1 = Some p \<and> frame ?m pd2 l2 = Some p"
    have f: "(if pd1 = pd \<and> l1 = k then present_frame (Some e) else frame m pd1 l1) = Some p"
        "(if pd2 = pd \<and> l2 = k then present_frame (Some e) else frame m pd2 l2) = Some p"
      using a(5) unfolding fr [OF a(1,3)] fr [OF a(2,4)] by blast+
    note u = entry_fitsD(3) [OF assms(6) _ a(1,3), of p] entry_fitsD(3) [OF assms(6) _ a(2,4), of p] dirs_okD(8) [OF assms(2) a(1-4), of p]
    have "pd1 = pd2 \<and> l1 = l2"
    proof (cases "pd1 = pd \<and> l1 = k"; cases "pd2 = pd \<and> l2 = k")
      assume c: "pd1 = pd \<and> l1 = k" "\<not> (pd2 = pd \<and> l2 = k)"
      show ?thesis using u(2) f(1) [unfolded if_P [OF c(1)]] f(2) [unfolded if_not_P [OF c(2)]] c by blast
    next
      assume c: "\<not> (pd1 = pd \<and> l1 = k)" "pd2 = pd \<and> l2 = k"
      show ?thesis using u(1) f(1) [unfolded if_not_P [OF c(1)]] f(2) [unfolded if_P [OF c(2)]] c by blast
    next
      assume c: "\<not> (pd1 = pd \<and> l1 = k)" "\<not> (pd2 = pd \<and> l2 = k)"
      show ?thesis using u(3) f(1) [unfolded if_not_P [OF c(1)]] f(2) [unfolded if_not_P [OF c(2)]] by blast
    qed blast
    then show "pd1 = pd2" "l1 = l2" by simp_all
  next
    fix pd1 pd2 i j u
    assume "pd1 \<in> D" "pd2 \<in> D" "i < user_tables" "j < user_tables" "table ?m pd1 i = Some u \<and> table ?m pd2 j = Some u"
    then show "pd1 = pd2" "i = j" using st(2) dirs_okD(5) [OF assms(2), of pd1 pd2 i j u] by simp_all
  next
    show "D \<subseteq> in_use (kernel_pool ?m)" using dirs_okD(1) [OF assms(2)] by auto
  next
    fix pd' i u assume "pd' \<in> D" "i < user_tables" "table ?m pd' i = Some u"
    then show "u \<in> in_use (kernel_pool ?m) - D" using st(2) dirs_okD(3,4) [OF assms(2), of pd' i u] by simp
  next
    fix pd' i assume "pd' \<in> D" "i < user_tables" "words ?m (pd' + 4 * i) \<noteq> 0"
    then show "table ?m pd' i \<noteq> None" using st(1,2) dirs_okD(2) [OF assms(2), of pd' i] by simp
  qed
qed

text \<open>Entering an empty page table changes no mapping.\<close>

lemma store_table:
  assumes "palloc_ok m" "dirs_ok m D" "pd \<in> D" "i < user_tables" "table m pd i = None"
    "t \<in> in_use (kernel_pool m)" "t \<notin> D" "\<forall>pd' \<in> D. \<forall>j < user_tables. table m pd' j \<noteq> Some t"
    "\<forall>a < 1024. words m (t + 4 * a) = 0" "pde_get_pt e = Some t" "e \<noteq> 0"
    and m'_def: "m' = m\<lparr>words := (words m)(pd + 4 * i := e)\<rparr>"
  shows "pd' \<in> D \<Longrightarrow> j < user_tables \<Longrightarrow> table m' pd' j = (if pd' = pd \<and> j = i then Some t else table m pd' j)"
    "pd' \<in> D \<Longrightarrow> l < user_pages \<Longrightarrow> entry m' pd' l = (if pd' = pd \<and> l div 1024 = i then Some 0 else entry m pd' l)"
    "pd' \<in> D \<Longrightarrow> j < user_tables \<Longrightarrow> words m' (pd' + 4 * j) = (if pd' = pd \<and> j = i then e else words m (pd' + 4 * j))"
proof -
  note kp = kernel_kpage [OF assms(1)]
  have pdk: "kpage pd'" if "pd' \<in> D" for pd' using that kp dirs_okD(1) [OF assms(2)] by blast
  show w: "words m' (pd' + 4 * j) = (if pd' = pd \<and> j = i then e else words m (pd' + 4 * j))" if "pd' \<in> D" "j < user_tables" for pd' j
    using page_offset_eq [of pd' pd "4 * j" "4 * i"] pdk that assms(3,4) by (auto simp: m'_def)
  show tb: "table m' pd' j = (if pd' = pd \<and> j = i then Some t else table m pd' j)" if "pd' \<in> D" "j < user_tables" for pd' j
    using w [OF that] assms(10,11) by (auto simp: table_def)
  have same: "words m' (u + 4 * a) = words m (u + 4 * a)" if "u \<in> in_use (kernel_pool m)" "u \<notin> D" "a < 1024" for u a
    using page_offset_eq [of u pd "4 * a" "4 * i"] kp [OF that(1)] pdk [OF assms(3)] that assms(3,4) by (auto simp: m'_def)
  show "entry m' pd' l = (if pd' = pd \<and> l div 1024 = i then Some 0 else entry m pd' l)" if l: "pd' \<in> D" "l < user_pages" for pd' l
  proof -
    have ll: "l div 1024 < user_tables" using l by auto
    show ?thesis
    proof (cases "pd' = pd \<and> l div 1024 = i")
      case True
      then show ?thesis using tb [OF l(1) ll] same [OF assms(6,7)] assms(9) by (simp add: entry_def)
    next
      case False
      then have "table m' pd' (l div 1024) = table m pd' (l div 1024)" using tb [OF l(1) ll] by auto
      moreover have "words m' (u + 4 * (l mod 1024)) = words m (u + 4 * (l mod 1024))" if "table m pd' (l div 1024) = Some u" for u
        using same dirs_okD(3,4) [OF assms(2) l(1) ll that] by simp
      ultimately show ?thesis using False by (cases "table m pd' (l div 1024)") (auto simp: entry_def)
    qed
  qed
qed

lemma present_frame_simps [simp]: "present_frame None = None" "present_frame (Some 0) = None"
  by (simp_all add: present_frame_def)

lemma entry_None: "table m pd (l div 1024) = None \<Longrightarrow> entry m pd l = None"
  by (simp add: entry_def)

lemma dirs_ok_table:
  assumes "palloc_ok m" "dirs_ok m D" "pd \<in> D" "i < user_tables" "table m pd i = None"
    "t \<in> in_use (kernel_pool m)" "t \<notin> D" "\<forall>pd' \<in> D. \<forall>j < user_tables. table m pd' j \<noteq> Some t"
    "\<forall>a < 1024. words m (t + 4 * a) = 0" "pde_get_pt e = Some t" "e \<noteq> 0"
    and m'_def: "m' = m\<lparr>words := (words m)(pd + 4 * i := e)\<rparr>"
  shows "dirs_ok m' D" "pd' \<in> D \<Longrightarrow> l < user_pages \<Longrightarrow> frame m' pd' l = frame m pd' l"
proof -
  note st = store_table [OF assms]
  show fr: "frame m' pd' l = frame m pd' l" if "pd' \<in> D" "l < user_pages" for pd' l
    using st(2) [OF that] assms(5) entry_None [of m pd l] by (auto simp: frame_entry)
  have iu: "in_use (kernel_pool m') = in_use (kernel_pool m)" "in_use (user_pool m') = in_use (user_pool m)" by (simp_all add: m'_def)
  show "dirs_ok m' D" unfolding dirs_ok_def iu
  proof (intro conjI ballI allI impI)
    fix pd1 pd2 a b u
    assume a: "pd1 \<in> D" "pd2 \<in> D" "a < user_tables" "b < user_tables" "table m' pd1 a = Some u \<and> table m' pd2 b = Some u"
    have n1: "table m pd1 a \<noteq> Some t" and n2: "table m pd2 b \<noteq> Some t" using assms(8) a by blast+
    have "pd1 = pd2 \<and> a = b"
      using a(5) st(1) [OF a(1,3)] st(1) [OF a(2,4)] n1 n2 dirs_okD(5) [OF assms(2) a(1-4), of u]
      by (cases "pd1 = pd \<and> a = i"; cases "pd2 = pd \<and> b = i") auto
    then show "pd1 = pd2" "a = b" by simp_all
  next
    fix pd1 l e' assume a: "pd1 \<in> D" "l < user_pages" "entry m' pd1 l = Some e' \<and> bit e' 0"
    then have "entry m pd1 l = Some e'" using st(2) [OF a(1,2)] by (auto split: if_splits)
    then show "frame m' pd1 l \<noteq> None" using fr [OF a(1,2)] dirs_okD(6) [OF assms(2) a(1,2)] a(3) by simp
  next
    fix pd1 l p assume "pd1 \<in> D" "l < user_pages" "frame m' pd1 l = Some p"
    then show "p \<in> in_use (user_pool m)" using fr dirs_okD(7) [OF assms(2)] by simp
  next
    fix pd1 pd2 k l p
    assume "pd1 \<in> D" "pd2 \<in> D" "k < user_pages" "l < user_pages" "frame m' pd1 k = Some p \<and> frame m' pd2 l = Some p"
    then show "pd1 = pd2" "k = l" using fr dirs_okD(8) [OF assms(2), of pd1 pd2 k l p] by simp_all
  next
    fix pd1 j u assume a: "pd1 \<in> D" "j < user_tables" "table m' pd1 j = Some u"
    then show "u \<in> in_use (kernel_pool m) - D" using st(1) [OF a(1,2)] assms(6,7) dirs_okD(3,4) [OF assms(2) a(1,2), of u] by (auto split: if_splits)
  next
    fix pd1 j assume a: "pd1 \<in> D" "j < user_tables" "words m' (pd1 + 4 * j) \<noteq> 0"
    then show "table m' pd1 j \<noteq> None" using st(1,3) [OF a(1,2)] dirs_okD(2) [OF assms(2) a(1,2)] by (auto split: if_splits)
  next
    show "D \<subseteq> in_use (kernel_pool m)" using dirs_okD(1) [OF assms(2)] by blast
  qed
qed

section \<open>Finding entries\<close>

lemma user_indices:
  assumes "va < PHYS_BASE"
  shows "va div PGSIZE < user_pages" "pd_no va < user_tables" "pd_no va = va div PGSIZE div 1024" "pt_no va = va div PGSIZE mod 1024"
proof -
  show "va div PGSIZE < user_pages" using assms by auto
  then show "pd_no va < user_tables" by (auto simp: pd_no_div)
qed (simp_all add: pd_no_div pt_no_mod)

lemma kpage_add: "kpage p \<Longrightarrow> a < PGSIZE \<Longrightarrow> add32 p a = p + a \<and> p + a \<noteq> 0"
proof -
  assume a: "kpage p" "a < PGSIZE"
  then obtain q where q: "p = PGSIZE * q" "q < 1048576" "0 < p" by (auto simp: kpage_def elim!: dvdE)
  then have "p + a < two32" using a(2) by simp
  then show ?thesis using q(3) by simp
qed

lemma vm_okD:
  assumes "vm_ok s D"
  shows "palloc_ok (mem s)" "dirs_ok (mem s) D" "m_init_page_dir s \<in> D" "active s \<in> D" "tlb_ok s" "ram_ok (mem s)"
    "i < user_tables \<Longrightarrow> table (mem s) (m_init_page_dir s) i = None"
  using assms by (auto simp: vm_ok_def ram_ok_def)

lemma lookup_found:
  assumes "vm_ok s D" "pd \<in> D" "va < PHYS_BASE" "table (mem s) pd (pd_no va) = Some t"
  shows "lookup_page s pd va create = Some (s, t + 4 * (va div PGSIZE mod 1024))" "t + 4 * (va div PGSIZE mod 1024) \<noteq> NULL" "kpage t"
proof -
  note ok = vm_okD [OF assms(1)] note ix = user_indices [OF assms(3)]
  have kp: "kpage pd" "kpage t" using kernel_kpage [OF ok(1)] dirs_okD(1,3) [OF ok(2) assms(2)] ix(2) assms(4) by blast+
  have ad: "add32 pd (4 * pd_no va) = pd + 4 * pd_no va" "add32 t (4 * pt_no va) = t + 4 * pt_no va" "pd \<noteq> NULL" "t + 4 * pt_no va \<noteq> NULL"
    using kpage_add [of pd "4 * pd_no va"] kpage_add [of t "4 * pt_no va"] kp ix(2,4) kpage_add [of pd 0] by auto
  have w: "words (mem s) (pd + 4 * pd_no va) \<noteq> 0" "pde_get_pt (words (mem s) (pd + 4 * pd_no va)) = Some t"
    using assms(4) by (auto simp: table_def split: if_splits)
  show "lookup_page s pd va create = Some (s, t + 4 * (va div PGSIZE mod 1024))" "t + 4 * (va div PGSIZE mod 1024) \<noteq> NULL"
    using ad w assms(3) ix(4) by (simp_all add: lookup_page_def load_word_def Let_def is_user_vaddr_def)
  show "kpage t" using kp(2) .
qed

lemma lookup_missing:
  assumes "vm_ok s D" "pd \<in> D" "va < PHYS_BASE" "table (mem s) pd (pd_no va) = None"
  shows "lookup_page s pd va False = Some (s, NULL)"
proof -
  note ok = vm_okD [OF assms(1)] note ix = user_indices [OF assms(3)]
  have kp: "kpage pd" using kernel_kpage [OF ok(1)] dirs_okD(1) [OF ok(2) assms(2)] by blast
  have ad: "add32 pd (4 * pd_no va) = pd + 4 * pd_no va" "pd \<noteq> NULL"
    using kpage_add [of pd "4 * pd_no va"] kp ix(2) kpage_add [of pd 0] by auto
  have "words (mem s) (pd + 4 * pd_no va) = 0" using dirs_okD(2) [OF ok(2) assms(2) ix(2)] assms(4) by blast
  then show ?thesis using ad by (simp add: lookup_page_def load_word_def Let_def)
qed

lemma pmem_words [simp]: "palloc_ok (m\<lparr>words := w\<rparr>) = palloc_ok m" "extent (m\<lparr>words := w\<rparr>) = extent m" "ram_ok (m\<lparr>words := w\<rparr>) = ram_ok m"
  by (simp_all add: palloc_ok_def extent_def ram_ok_def)

lemma ram_ok_extent: "ram_ok m \<Longrightarrow> palloc_ok m' \<Longrightarrow> extent m' = extent m \<Longrightarrow> ram_ok m'"
  by (simp add: ram_ok_def extent_def)

lemma flag_values [simp]: "\<not> has_flag PAL_ZERO PAL_USER" "has_flag PAL_ZERO PAL_ZERO" "\<not> has_flag PAL_ZERO PAL_ASSERT"
  "\<not> has_flag 0 f"
  by (simp_all add: has_flag_def PAL_ZERO_def PAL_USER_def PAL_ASSERT_def)

definition kernel_full :: "pmem \<Rightarrow> bool" where
  "kernel_full m \<longleftrightarrow> (\<nexists>i. free_run (bit_cnt (used_map (kernel_pool m))) (bbit (used_map (kernel_pool m))) i 1)"

lemma alloc_table:
  assumes "vm_ok s D" "pd \<in> D" "pd \<noteq> m_init_page_dir s" "i < user_tables" "table (mem s) pd i = None"
    "palloc_ok m" "extent m = extent (mem s)" "kpage t" "t \<notin> in_use (kernel_pool (mem s))" "in_use (user_pool m) = in_use (user_pool (mem s))"
    "in_use (kernel_pool m) = insert t (in_use (kernel_pool (mem s)))" "words m = fill_words (words (mem s)) t PGSIZE 0"
    "pde_get_pt e = Some t" "e \<noteq> 0"
    and s': "s' = store_word (s\<lparr>mem := m\<rparr>) (pd + 4 * i) e"
  shows "vm_ok s' D" "table (mem s') pd i = Some t" "pd' \<in> D \<Longrightarrow> l < user_pages \<Longrightarrow> frame (mem s') pd' l = frame (mem s) pd' l"
proof -
  note ok = vm_okD [OF assms(1)]
  have kp: "\<forall>q \<in> own (mem s) D. kpage q" "t \<notin> own (mem s) D" using own_in_use [OF ok(2)] kernel_kpage [OF ok(1)] assms(9) by blast+
  have ag: "agree (own (mem s) D) (words (mem s)) (words m)" unfolding assms(12) by (rule agree_fill [OF kp(1) assms(8) kp(2)])
  note ad = agree_dirs [OF ag]
  have dm: "dirs_ok m D"
    by (rule dirs_ok_agree [OF ok(2) ag]) (use own_in_use [OF ok(2)] assms(10,11) dirs_okD(7) [OF ok(2)] in auto)
  have n: "t \<notin> D" "\<forall>pd' \<in> D. \<forall>j < user_tables. table m pd' j \<noteq> Some t" using kp(2) ad(2) by (auto simp: own_def)
  have z: "\<forall>a < 1024. words m (t + 4 * a) = 0" by (simp add: assms(12) fill_words_def)
  have none: "table m pd i = None" using ad(2) [OF assms(2,4)] assms(5) by simp
  have t: "t \<in> in_use (kernel_pool m)" using assms(11) by simp
  have m': "mem s' = m\<lparr>words := (words m)(pd + 4 * i := e)\<rparr>" by (simp add: s' store_word_def)
  note st = store_table [OF assms(6) dm assms(2,4) none t n z assms(13,14) m']
  note dt = dirs_ok_table [OF assms(6) dm assms(2,4) none t n z assms(13,14) m']
  show "pd' \<in> D \<Longrightarrow> l < user_pages \<Longrightarrow> frame (mem s') pd' l = frame (mem s) pd' l" for pd' l using dt(2) ad(4) by simp
  show "table (mem s') pd i = Some t" using st(1) [OF assms(2,4)] by simp
  have s0: "active s' = active s" "tlb s' = tlb s" "m_init_page_dir s' = m_init_page_dir s" by (simp_all add: s' store_word_def active_def)
  have "entry (mem s') (active s) k = Some c" if "k < user_pages" "entry (mem s) (active s) k = Some c" for k c
    using that st(2) [OF ok(4) that(1)] ad(3) [OF ok(4) that(1)] entry_None [of "mem s" pd k] assms(5) by auto
  then have "tlb_ok s'" using ok(5) unfolding tlb_ok_def s0 by blast
  moreover have "ram_ok (mem s')" using ram_ok_extent [OF ok(6) assms(6,7)] by (simp add: m')
  moreover have "\<forall>i < user_tables. table (mem s') (m_init_page_dir s) i = None"
    using st(1) [OF ok(3)] ad(2) [OF ok(3)] ok(7) assms(3) by simp
  ultimately show "vm_ok s' D" using dt(1) ok(3,4) by (simp add: vm_ok_def s0)
qed

lemma lookup_create:
  assumes "vm_ok s D" "pd \<in> D" "pd \<noteq> m_init_page_dir s" "va < PHYS_BASE"
  shows "(\<exists>s' t. lookup_page s pd va True = Some (s', t + 4 * (va div PGSIZE mod 1024)) \<and> t + 4 * (va div PGSIZE mod 1024) \<noteq> NULL
      \<and> vm_ok s' D \<and> table (mem s') pd (pd_no va) = Some t \<and> (\<forall>pd' \<in> D. \<forall>l < user_pages. frame (mem s') pd' l = frame (mem s) pd' l)
      \<and> in_use (user_pool (mem s')) = in_use (user_pool (mem s)) \<and> extent (mem s') = extent (mem s)
      \<and> m_init_page_dir s' = m_init_page_dir s \<and> m_cr3 s' = m_cr3 s \<and> tlb s' = tlb s)
    \<or> lookup_page s pd va True = Some (s, NULL) \<and> kernel_full (mem s)"
proof (cases "table (mem s) pd (pd_no va)")
  case (Some t)
  then show ?thesis using lookup_found(1) [OF assms(1,2,4) Some, of True] lookup_found(2) [OF assms(1,2,4) Some] assms(1) by blast
next
  case None
  note ok = vm_okD [OF assms(1)] note ix = user_indices [OF assms(4)]
  have kp: "kpage pd" using kernel_kpage [OF ok(1)] dirs_okD(1) [OF ok(2) assms(2)] by blast
  have ad: "add32 pd (4 * pd_no va) = pd + 4 * pd_no va" "pd \<noteq> NULL"
    using kpage_add [of pd "4 * pd_no va"] kp ix(2) kpage_add [of pd 0] by auto
  have w: "words (mem s) (pd + 4 * pd_no va) = 0" using dirs_okD(2) [OF ok(2) assms(2) ix(2)] None by blast
  from palloc_get_page_ok [OF ok(1), of PAL_ZERO] show ?thesis
  proof (elim disjE exE conjE)
    fix m t
    assume a: "palloc_get_page (mem s) PAL_ZERO = Some (m, t)" "palloc_ok m" "t \<noteq> NULL" "kpage t"
      "t \<notin> in_use (kernel_pool (mem s))" "extent m = extent (mem s)"
      "in_use (kernel_pool m) = (if has_flag PAL_ZERO PAL_USER then in_use (kernel_pool (mem s)) else insert t (in_use (kernel_pool (mem s))))"
      "in_use (user_pool m) = (if has_flag PAL_ZERO PAL_USER then insert t (in_use (user_pool (mem s))) else in_use (user_pool (mem s)))"
      "words m = (if has_flag PAL_ZERO PAL_ZERO then fill_words (words (mem s)) t PGSIZE 0 else words (mem s))"
    obtain e where e: "pde_create t = Some e" "bit e 0" "pde_get_pt e = Some t" by (rule pde_roundtrip [OF a(4)])
    have e0: "e \<noteq> 0" using e(2) by auto
    let ?s = "store_word (s\<lparr>mem := m\<rparr>) (pd + 4 * pd_no va) e"
    have iu: "in_use (user_pool m) = in_use (user_pool (mem s))" "in_use (kernel_pool m) = insert t (in_use (kernel_pool (mem s)))"
        "words m = fill_words (words (mem s)) t PGSIZE 0" using a(7-9) by simp_all
    note al = alloc_table [OF assms(1-3) ix(2) None a(2,6,4,5) iu(1,2,3) e(3) e0 refl]
    have tt: "add32 t (4 * pt_no va) = t + 4 * (va div PGSIZE mod 1024)" "t + 4 * (va div PGSIZE mod 1024) \<noteq> NULL"
      using kpage_add [OF a(4), of "4 * (va div PGSIZE mod 1024)"] ix(4) by simp_all
    have "lookup_page s pd va True = Some (?s, t + 4 * (va div PGSIZE mod 1024))"
      unfolding lookup_page_def using ad w a(1,3) e(1,3) tt assms(4) by (simp add: Let_def load_word_def store_word_def is_user_vaddr_def)
    then show ?thesis using al tt(2) iu(1) a(6) by (intro disjI1 exI [of _ ?s] exI [of _ t]) (simp add: store_word_def)
  next
    assume a: "palloc_get_page (mem s) PAL_ZERO = (if has_flag PAL_ZERO PAL_ASSERT then None else Some (mem s, NULL))"
      "\<nexists>i. free_run (bit_cnt (used_map (get_pool (mem s) (has_flag PAL_ZERO PAL_USER)))) (bbit (used_map (get_pool (mem s) (has_flag PAL_ZERO PAL_USER)))) i 1"
    then have "lookup_page s pd va True = Some (s, NULL)"
      unfolding lookup_page_def using ad w assms(4) by (simp add: Let_def load_word_def is_user_vaddr_def)
    moreover have "kernel_full (mem s)" using a(2) by (simp add: kernel_full_def get_pool_def)
    ultimately show ?thesis by blast
  qed
qed

section \<open>Mapping, unmapping and flags\<close>

lemma store_word_sel [simp]: "m_cr3 (store_word s a v) = m_cr3 s" "m_init_page_dir (store_word s a v) = m_init_page_dir s"
  "tlb (store_word s a v) = tlb s" "mem (store_word s a v) = (mem s)\<lparr>words := (words (mem s))(a := v)\<rparr>" "active (store_word s a v) = active s"
  by (simp_all add: store_word_def active_def)

text \<open>
  A new value for the entry of page \<open>k\<close> that maps to no foreign frame. The buffer stays coherent if
  it is emptied or the entry is not cached with anything that the new value lacks.
\<close>

lemma vm_ok_store:
  assumes "vm_ok s D" "pd \<in> D" "k < user_pages" "table (mem s) pd (k div 1024) = Some t"
    "entry_fits (mem s) D pd k e"
    and s': "s' = store_word s (t + 4 * (k mod 1024)) e"
  shows "dirs_ok (mem s') D" "pd' \<in> D \<Longrightarrow> l < user_pages \<Longrightarrow> entry (mem s') pd' l = (if pd' = pd \<and> l = k then Some e else entry (mem s) pd' l)"
    "active s = pd \<Longrightarrow> vm_ok (s'\<lparr>tlb := \<lambda>_. None\<rparr>) D"
    "active s \<noteq> pd \<or> (\<forall>c. tlb s k = Some c \<longrightarrow> cached c e) \<Longrightarrow> vm_ok s' D"
proof -
  note ok = vm_okD [OF assms(1)]
  have m': "mem s' = (mem s)\<lparr>words := (words (mem s))(t + 4 * (k mod 1024) := e)\<rparr>" by (simp add: s')
  note st = store_entry [OF ok(1,2) assms(2-4) m']
  show d: "dirs_ok (mem s') D" unfolding m' by (rule dirs_ok_store [OF ok(1,2) assms(2-5)])
  show en: "entry (mem s') pd' l = (if pd' = pd \<and> l = k then Some e else entry (mem s) pd' l)" if "pd' \<in> D" "l < user_pages" for pd' l
    using st(3) [OF that] .
  have base: "ram_ok (mem s')" "m_init_page_dir s' \<in> D" "\<forall>i < user_tables. table (mem s') (m_init_page_dir s') i = None" "active s' \<in> D"
    using ok(3,4,6,7) st(2) [OF ok(3)] by (simp_all add: m') (simp_all add: s')
  show "vm_ok (s'\<lparr>tlb := \<lambda>_. None\<rparr>) D" if "active s = pd" using base d by (simp add: vm_ok_def tlb_ok_def active_def)
  show "vm_ok s' D" if c: "active s \<noteq> pd \<or> (\<forall>c. tlb s k = Some c \<longrightarrow> cached c e)"
  proof -
    have "\<exists>e'. entry (mem s') (active s) l = Some e' \<and> cached c e'" if l: "l < user_pages" "tlb s l = Some c" for l c
    proof (cases "active s = pd \<and> l = k")
      case True
      then show ?thesis using en [OF ok(4) l(1)] \<open>active s \<noteq> pd \<or> _\<close> l(2) by auto
    next
      case False
      then show ?thesis using en [OF ok(4) l(1)] ok(5) l unfolding tlb_ok_def by auto
    qed
    then have "tlb_ok s'" by (simp add: tlb_ok_def s')
    then show ?thesis using base d by (simp add: vm_ok_def)
  qed
qed

lemma vm_frame_store:
  assumes "pd' \<in> D \<Longrightarrow> l < user_pages \<Longrightarrow> entry m' pd' l = (if pd' = pd \<and> l = k then Some e else entry m pd' l)" "pd' \<in> D" "l < user_pages"
  shows "frame m' pd' l = (if pd' = pd \<and> l = k then present_frame (Some e) else frame m pd' l)"
  using assms by (simp add: frame_entry)

lemma pagedir_get_page_frame:
  assumes "vm_ok s D" "pd \<in> D" "va < PHYS_BASE"
  shows "pagedir_get_page s pd va = Some (case frame (mem s) pd (va div PGSIZE) of None \<Rightarrow> NULL | Some p \<Rightarrow> p + va mod PGSIZE)"
proof (cases "table (mem s) pd (pd_no va)")
  case None
  then show ?thesis using lookup_missing [OF assms None] user_indices(3) [OF assms(3)] entry_None assms(3)
    by (simp add: pagedir_get_page_def is_user_vaddr_def frame_entry)
next
  case (Some t)
  note ok = vm_okD [OF assms(1)] note ix = user_indices [OF assms(3)] note lk = lookup_found [OF assms Some]
  let ?e = "words (mem s) (t + 4 * (va div PGSIZE mod 1024))"
  have en: "entry (mem s) pd (va div PGSIZE) = Some ?e" using Some ix(3) by (simp add: entry_def)
  have "\<exists>p. pte_get_page ?e = Some p \<and> frame (mem s) pd (va div PGSIZE) = Some p \<and> add32 p (va mod PGSIZE) = p + va mod PGSIZE" if b: "bit ?e 0"
  proof -
    obtain p where p: "frame (mem s) pd (va div PGSIZE) = Some p" using dirs_okD(6) [OF ok(2) assms(2) ix(1) en b] by blast
    have "kpage p" using user_kpage [OF ok(1) dirs_okD(7) [OF ok(2) assms(2) ix(1) p]] .
    then show ?thesis using p b kpage_add [of p "va mod PGSIZE"] by (simp add: frame_def en)
  qed
  moreover have "frame (mem s) pd (va div PGSIZE) = None" if "\<not> bit ?e 0" using that by (simp add: frame_def en)
  ultimately show ?thesis using lk(1,2) assms(3) unfolding pagedir_get_page_def
    by (cases "bit ?e 0") (auto simp: is_user_vaddr_def load_word_def present_bit pg_ofs_mod)
qed

lemma vtop_frame_bound:
  assumes "ram_ok m" "p \<in> in_use (user_pool m)"
  shows "vtop p = Some (p - PHYS_BASE)" "drop_bit 12 (p - PHYS_BASE) < init_ram_pages m" "pg_ofs p = 0"
proof -
  have p: "kpage p" "p + PGSIZE \<le> pool_end (user_pool m)"
    using in_use_kpage [of m p True] assms by (auto simp: ram_ok_def get_pool_def)
  then show "vtop p = Some (p - PHYS_BASE)" "pg_ofs p = 0" by (simp_all add: kpage_def vtop_kernel pg_ofs_mod)
  have "p - PHYS_BASE + PGSIZE \<le> PGSIZE * init_ram_pages m" using p assms(1) unfolding ram_ok_def kpage_def by linarith
  then show "drop_bit 12 (p - PHYS_BASE) < init_ram_pages m" by (simp add: drop_bit_eq_div)
qed

lemma pagedir_set_page_ok:
  assumes "vm_ok s D" "pd \<in> D" "pd \<noteq> m_init_page_dir s" "u < PHYS_BASE" "u mod PGSIZE = 0" "kp \<in> in_use (user_pool (mem s))"
    "\<forall>pd' \<in> D. \<forall>l < user_pages. frame (mem s) pd' l \<noteq> Some kp" "frame (mem s) pd (u div PGSIZE) = None"
  shows "(\<exists>s'. pagedir_set_page s pd u kp w = Some (s', True) \<and> vm_ok s' D \<and> m_init_page_dir s' = m_init_page_dir s
      \<and> active s' = active s \<and> in_use (user_pool (mem s')) = in_use (user_pool (mem s))
      \<and> (\<forall>pd' \<in> D. \<forall>l < user_pages. frame (mem s') pd' l = (if pd' = pd \<and> l = u div PGSIZE then Some kp else frame (mem s) pd' l)))
    \<or> pagedir_set_page s pd u kp w = Some (s, False) \<and> kernel_full (mem s)"
proof -
  note ok = vm_okD [OF assms(1)] note ix = user_indices [OF assms(4)]
  note kp = vtop_frame_bound [OF ok(6) assms(6)]
  have pre: "pagedir_set_page s pd u kp w = do {
     (s, pte) \<leftarrow> lookup_page s pd u True;
     if pte \<noteq> NULL then do { ASSERT (load_word s pte AND PTE_P = 0); e \<leftarrow> pte_create_user kp w; Some (store_word s pte e, True) }
     else Some (s, False) }"
    unfolding pagedir_set_page_def using kp assms(3-5) by (simp add: is_user_vaddr_def pg_ofs_mod)
  from lookup_create [OF assms(1-4)] show ?thesis
  proof (elim disjE exE conjE)
    fix s1 t
    assume a: "lookup_page s pd u True = Some (s1, t + 4 * (u div PGSIZE mod 1024))" "t + 4 * (u div PGSIZE mod 1024) \<noteq> NULL"
      "vm_ok s1 D" "table (mem s1) pd (pd_no u) = Some t" "\<forall>pd' \<in> D. \<forall>l < user_pages. frame (mem s1) pd' l = frame (mem s) pd' l"
      "in_use (user_pool (mem s1)) = in_use (user_pool (mem s))" "m_init_page_dir s1 = m_init_page_dir s" "m_cr3 s1 = m_cr3 s" "tlb s1 = tlb s"
    note ok1 = vm_okD [OF a(3)]
    have tb: "table (mem s1) pd (u div PGSIZE div 1024) = Some t" using a(4) ix(3) by simp
    obtain e where e: "pte_create_user kp w = Some e" "bit e 0" "bit e 1 \<longleftrightarrow> w" "bit e 2" "pte_get_page e = Some kp"
      by (rule pte_roundtrip [OF user_kpage [OF ok(1) assms(6)]])
    let ?e = "words (mem s1) (t + 4 * (u div PGSIZE mod 1024))"
    have en: "entry (mem s1) pd (u div PGSIZE) = Some ?e" using tb by (simp add: entry_def)
    have np: "\<not> bit ?e 0" using dirs_okD(6) [OF ok1(2) assms(2) ix(1) en] a(5) assms(2,8) ix(1) by auto
    have pf: "present_frame (Some e) = Some kp" using e by (simp add: present_frame_def)
    have nc: "active s1 \<noteq> pd \<or> (\<forall>c. tlb s1 (u div PGSIZE) = Some c \<longrightarrow> cached c e)"
    proof (rule ccontr)
      assume "\<not> ?thesis"
      then obtain c where "active s1 = pd" "tlb s1 (u div PGSIZE) = Some c" by blast
      then have "cached c ?e" using ok1(5) ix(1) en unfolding tlb_ok_def by auto
      then show False using np unfolding cached_def by auto
    qed
    let ?s = "store_word s1 (t + 4 * (u div PGSIZE mod 1024)) e"
    have fits: "entry_fits (mem s1) D pd (u div PGSIZE) e" using pf a(5,6) assms(6,7) by (simp add: entry_fits_def)
    note st = vm_ok_store [OF a(3) assms(2) ix(1) tb fits refl]
    have fr: "\<forall>pd' \<in> D. \<forall>l < user_pages. frame (mem ?s) pd' l = (if pd' = pd \<and> l = u div PGSIZE then Some kp else frame (mem s) pd' l)"
      using vm_frame_store [OF st(2)] pf a(5) by simp
    have "pagedir_set_page s pd u kp w = Some (?s, True)"
      unfolding pre using a(1,2) np e(1) present_bit [of ?e] by (simp add: load_word_def)
    then show ?thesis using st(4) [OF nc] fr a(6-8) by (intro disjI1 exI [of _ ?s]) (simp add: active_def)
  qed (simp add: pre)
qed

lemma invalidate_eq:
  assumes "kpage (active s)"
  shows "invalidate_pagedir s pd = Some (if active s = pd then s\<lparr>tlb := \<lambda>_. None\<rparr> else s)"
proof -
  have c: "m_cr3 s < 0x40000000" "PHYS_BASE + m_cr3 s = active s" using assms by (simp_all add: kpage_def active_def)
  have "active_pd s = Some (active s)" using c by (simp add: active_pd_def ptov_def add.commute)
  moreover have "vtop (active s) = Some (m_cr3 s)" using assms by (simp add: vtop_kernel kpage_def) (simp add: active_def)
  moreover have "active s \<noteq> NULL" using assms by (simp add: kpage_def)
  ultimately show ?thesis by (auto simp: invalidate_pagedir_def pagedir_activate_def)
qed

lemma store_invalidate:
  assumes "vm_ok s D" "pd \<in> D" "k < user_pages" "table (mem s) pd (k div 1024) = Some t" "entry_fits (mem s) D pd k e"
    and s1: "s1 = store_word s (t + 4 * (k mod 1024)) e"
  shows "\<exists>s'. invalidate_pagedir s1 pd = Some s' \<and> vm_ok s' D \<and> mem s' = mem s1 \<and> active s' = active s \<and> m_init_page_dir s' = m_init_page_dir s"
proof -
  note ok = vm_okD [OF assms(1)] note st = vm_ok_store [OF assms]
  have "kpage (active s1)" using kernel_kpage [OF ok(1) dirs_okD(1) [OF ok(2,4)]] by (simp add: s1)
  from invalidate_eq [OF this, of pd] show ?thesis using st(3,4) by (simp add: s1 active_def)
qed

lemma unmap_fits: "\<not> bit e 0 \<Longrightarrow> entry_fits m D pd k e"
  by (simp add: entry_fits_def present_frame_def)

lemma pte_get_page_cong:
  assumes "\<And>n. 12 \<le> n \<Longrightarrow> bit e n = bit e' n"
  shows "pte_get_page e = pte_get_page e'"
proof -
  have "e AND PTE_ADDR = e' AND PTE_ADDR" by (rule bit_eqI) (use assms in \<open>auto simp: bit_and_iff PTE_ADDR_bits\<close>)
  then show ?thesis by (simp add: pte_get_page_def)
qed

lemma reflag_fits:
  assumes "dirs_ok m D" "pd \<in> D" "k < user_pages" "entry m pd k = Some e" "\<forall>n. n \<noteq> 5 \<and> n \<noteq> 6 \<longrightarrow> bit e' n = bit e n"
  shows "entry_fits m D pd k e'" "present_frame (Some e') = frame m pd k"
proof -
  show pf: "present_frame (Some e') = frame m pd k"
    using pte_get_page_cong [of e' e] assms(5) by (simp add: present_frame_def frame_def assms(4))
  show "entry_fits m D pd k e'" unfolding entry_fits_def pf
    using dirs_okD(6-8) [OF assms(1,2)] assms(3,4) spec [OF assms(5), of 0] by (intro conjI allI impI ballI) (simp, blast+)
qed

lemma pagedir_clear_page_ok:
  assumes "vm_ok s D" "pd \<in> D" "u < PHYS_BASE" "u mod PGSIZE = 0"
  shows "\<exists>s'. pagedir_clear_page s pd u = Some s' \<and> vm_ok s' D \<and> active s' = active s \<and> m_init_page_dir s' = m_init_page_dir s
    \<and> in_use (user_pool (mem s')) = in_use (user_pool (mem s))
    \<and> (\<forall>pd' \<in> D. \<forall>l < user_pages. frame (mem s') pd' l = (if pd' = pd \<and> l = u div PGSIZE then None else frame (mem s) pd' l))"
proof -
  note ok = vm_okD [OF assms(1)] note ix = user_indices [OF assms(3)]
  have pre: "pagedir_clear_page s pd u = do {
     (s, pte) \<leftarrow> lookup_page s pd u False;
     if pte \<noteq> NULL \<and> load_word s pte AND PTE_P \<noteq> 0 then invalidate_pagedir (store_word s pte (load_word s pte AND NOT PTE_P)) pd else Some s }"
    unfolding pagedir_clear_page_def using assms(3,4) by (simp add: is_user_vaddr_def pg_ofs_mod)
  show ?thesis
  proof (cases "frame (mem s) pd (u div PGSIZE)")
    case None
    have "pagedir_clear_page s pd u = Some s"
    proof (cases "table (mem s) pd (pd_no u)")
      case None
      then show ?thesis unfolding pre lookup_missing [OF assms(1-3) None] by simp
    next
      case (Some t)
      then have "entry (mem s) pd (u div PGSIZE) = Some (words (mem s) (t + 4 * (u div PGSIZE mod 1024)))" using ix(3) by (simp add: entry_def)
      then have "\<not> bit (words (mem s) (t + 4 * (u div PGSIZE mod 1024))) 0"
        using None dirs_okD(6) [OF ok(2) assms(2) ix(1)] by blast
      then show ?thesis unfolding pre lookup_found(1) [OF assms(1-3) Some] by (simp add: load_word_def present_bit)
    qed
    then show ?thesis using assms(1) None by simp
  next
    case (Some p)
    then obtain t where t: "table (mem s) pd (pd_no u) = Some t"
      using ix(3) by (auto simp: frame_def entry_def split: option.splits)
    let ?a = "t + 4 * (u div PGSIZE mod 1024)" let ?e = "words (mem s) ?a"
    have tb: "table (mem s) pd (u div PGSIZE div 1024) = Some t" using t ix(3) by simp
    have b: "bit ?e 0" using Some tb by (auto simp: frame_def entry_def split: if_splits)
    have nb: "\<not> bit (?e AND NOT PTE_P) 0" by (simp add: bit_and_iff bit_not_iff)
    obtain s' where s': "invalidate_pagedir (store_word s ?a (?e AND NOT PTE_P)) pd = Some s'" "vm_ok s' D"
        "mem s' = mem (store_word s ?a (?e AND NOT PTE_P))" "active s' = active s" "m_init_page_dir s' = m_init_page_dir s"
      using store_invalidate [OF assms(1,2) ix(1) tb unmap_fits [OF nb] refl] by blast
    note st = vm_ok_store(2) [OF assms(1,2) ix(1) tb unmap_fits [OF nb] refl]
    have "\<forall>pd' \<in> D. \<forall>l < user_pages. frame (mem s') pd' l = (if pd' = pd \<and> l = u div PGSIZE then None else frame (mem s) pd' l)"
      using vm_frame_store [OF st] nb unfolding s'(3) by (simp add: present_frame_def)
    moreover have "pagedir_clear_page s pd u = Some s'"
      unfolding pre using lookup_found(1,2) [OF assms(1-3) t] s'(1) present_bit [of ?e] b by (simp add: load_word_def)
    ultimately show ?thesis using s'(2-5) by (intro exI [of _ s']) simp
  qed
qed

text \<open>The two flags are handled alike.\<close>

definition set_flag :: "u32 \<Rightarrow> mmu \<Rightarrow> ptr \<Rightarrow> ptr \<Rightarrow> bool \<Rightarrow> mmu option" where
  "set_flag f s pd vpage v = do {
     (s, pte) \<leftarrow> lookup_page s pd vpage False;
     if pte \<noteq> NULL then
       if v then Some (store_word s pte (load_word s pte OR f))
       else invalidate_pagedir (store_word s pte (load_word s pte AND NOT f)) pd
     else Some s
   }"

lemma flag_ops: "pagedir_set_dirty = set_flag PTE_D" "pagedir_set_accessed = set_flag PTE_A"
  by (rule ext, rule ext, rule ext, rule ext, simp add: set_flag_def pagedir_set_dirty_def pagedir_set_accessed_def)+

lemma AD_bits: "bit PTE_A n \<longleftrightarrow> n = 5" "bit PTE_D n \<longleftrightarrow> n = 6"
proof -
  have p: "PTE_A = 2 ^ 5" "PTE_D = 2 ^ 6" by (simp_all add: PTE_A_def PTE_D_def)
  show "bit PTE_A n \<longleftrightarrow> n = 5" "bit PTE_D n \<longleftrightarrow> n = 6" unfolding p bit_exp_iff by auto
qed

lemma set_flag_ok:
  assumes "vm_ok s D" "pd \<in> D" "u < PHYS_BASE" "f = PTE_A \<and> fb = 5 \<or> f = PTE_D \<and> fb = 6"
  shows "\<exists>s'. set_flag f s pd u v = Some s' \<and> vm_ok s' D \<and> active s' = active s \<and> m_init_page_dir s' = m_init_page_dir s
    \<and> in_use (user_pool (mem s')) = in_use (user_pool (mem s))
    \<and> (\<forall>pd' \<in> D. \<forall>l < user_pages. frame (mem s') pd' l = frame (mem s) pd' l
        \<and> map_option (\<lambda>e. bit e fb) (entry (mem s') pd' l)
          = map_option (\<lambda>e. if pd' = pd \<and> l = u div PGSIZE then v else bit e fb) (entry (mem s) pd' l))"
proof (cases "table (mem s) pd (pd_no u)")
  case None
  then have "entry (mem s) pd (u div PGSIZE) = None" using user_indices(3) [OF assms(3)] by (simp add: entry_def)
  then have "map_option (\<lambda>e. bit e fb) (entry (mem s) pd' l)
      = map_option (\<lambda>e. if pd' = pd \<and> l = u div PGSIZE then v else bit e fb) (entry (mem s) pd' l)" for pd' l
    by (cases "pd' = pd \<and> l = u div PGSIZE") auto
  then show ?thesis unfolding set_flag_def lookup_missing [OF assms(1-3) None] using assms(1) by simp
next
  case (Some t)
  note ok = vm_okD [OF assms(1)] note ix = user_indices [OF assms(3)]
  let ?k = "u div PGSIZE" let ?a = "t + 4 * (?k mod 1024)" let ?e = "words (mem s) ?a"
  have tb: "table (mem s) pd (?k div 1024) = Some t" using Some ix(3) by simp
  have en: "entry (mem s) pd ?k = Some ?e" using tb by (simp add: entry_def)
  define e' where "e' = (if v then ?e OR f else ?e AND NOT f)"
  have eb: "bit e' n = (if n = fb then v else bit ?e n)" if "n < 32" for n
    using assms(4) that by (auto simp: e'_def bit_or_iff bit_and_iff bit_not_iff AD_bits)
  have e6: "\<forall>n. n \<noteq> 5 \<and> n \<noteq> 6 \<longrightarrow> bit e' n = bit ?e n"
    using assms(4) by (auto simp: e'_def bit_or_iff bit_and_iff bit_not_iff AD_bits dest: bit_imp_le_length)
  have fb: "fb < 32" using assms(4) by auto
  note fits = reflag_fits [OF ok(2) assms(2) ix(1) en e6]
  note st = vm_ok_store [OF assms(1,2) ix(1) tb fits(1) refl]
  let ?s1 = "store_word s ?a e'"
  have pre: "set_flag f s pd u v = (if v then Some ?s1 else invalidate_pagedir ?s1 pd)"
    unfolding set_flag_def lookup_found(1) [OF assms(1-3) Some] using lookup_found(2) [OF assms(1-3) Some] by (simp add: load_word_def e'_def)
  have "\<exists>s'. set_flag f s pd u v = Some s' \<and> vm_ok s' D \<and> mem s' = mem ?s1 \<and> active s' = active s \<and> m_init_page_dir s' = m_init_page_dir s"
  proof (cases v)
    case True
    have "cached c e'" if "active s = pd" "tlb s ?k = Some c" for c
    proof -
      have "cached c ?e" using ok(5) that ix(1) en unfolding tlb_ok_def by auto
      then show ?thesis using e6 eb [of 5] eb [of 6] True unfolding cached_def by auto
    qed
    then show ?thesis unfolding pre using True st(4) by auto
  next
    case False
    then show ?thesis unfolding pre using store_invalidate [OF assms(1,2) ix(1) tb fits(1) refl] by simp
  qed
  then obtain s' where s': "set_flag f s pd u v = Some s'" "vm_ok s' D" "mem s' = mem ?s1" "active s' = active s" "m_init_page_dir s' = m_init_page_dir s"
    by blast
  moreover have "frame (mem s') pd' l = frame (mem s) pd' l" if "pd' \<in> D" "l < user_pages" for pd' l
    unfolding s'(3) using vm_frame_store [OF st(2) that] fits(2) by simp
  moreover have "map_option (\<lambda>e. bit e fb) (entry (mem s') pd' l)
      = map_option (\<lambda>e. if pd' = pd \<and> l = ?k then v else bit e fb) (entry (mem s) pd' l)" if "pd' \<in> D" "l < user_pages" for pd' l
    unfolding s'(3) st(2) [OF that] using en eb [OF fb] by (cases "pd' = pd \<and> l = ?k") auto
  ultimately show ?thesis by (intro exI [of _ s']) simp
qed

lemma pagedir_activate_ok:
  assumes "vm_ok s D" "pd \<in> D \<or> pd = NULL"
  shows "\<exists>s'. pagedir_activate s pd = Some s' \<and> vm_ok s' D \<and> mem s' = mem s \<and> m_init_page_dir s' = m_init_page_dir s
    \<and> active s' = (if pd = NULL then m_init_page_dir s else pd)"
proof -
  note ok = vm_okD [OF assms(1)]
  let ?p = "if pd = NULL then m_init_page_dir s else pd"
  have p: "?p \<in> D" using assms(2) ok(3) by auto
  have "kpage ?p" using kernel_kpage [OF ok(1) dirs_okD(1) [OF ok(2) p]] .
  then have v: "vtop ?p = Some (?p - PHYS_BASE)" "PHYS_BASE + (?p - PHYS_BASE) = ?p" by (simp_all only: kpage_def vtop_kernel) linarith
  let ?s = "s\<lparr>m_cr3 := ?p - PHYS_BASE, tlb := \<lambda>_. None\<rparr>"
  have "pagedir_activate s pd = Some ?s" unfolding pagedir_activate_def Let_def v(1) by simp
  moreover have "active ?s = ?p" using v(2) unfolding active_def by simp
  ultimately show ?thesis using ok p by (intro exI [of _ ?s]) (simp add: vm_ok_def tlb_ok_def)
qed

section \<open>Creating directories\<close>

lemma dirs_ok_insert:
  assumes "dirs_ok m D" "pd \<in> in_use (kernel_pool m)" "pd \<notin> own m D" "\<forall>i < user_tables. words m (pd + 4 * i) = 0"
  shows "dirs_ok m (insert pd D)"
proof -
  note d = dirs_okD [OF assms(1)]
  have tn: "table m pd i = None" if "i < user_tables" for i using assms(4) that by (simp add: table_def)
  have fn: "entry m pd k = None" "frame m pd k = None" if "k < user_pages" for k
  proof -
    have "k div 1024 < user_tables" using that by auto
    then show "entry m pd k = None" by (simp add: entry_def tn)
    then show "frame m pd k = None" by (simp add: frame_def)
  qed
  show ?thesis unfolding dirs_ok_def
  proof (intro conjI ballI allI impI)
    show "insert pd D \<subseteq> in_use (kernel_pool m)" using d(1) assms(2) by blast
  next
    fix q i t assume a: "q \<in> insert pd D" "i < user_tables" "table m q i = Some t"
    then have "q \<in> D" using tn by auto
    then show "t \<in> in_use (kernel_pool m) - insert pd D" using d(3,4) [of q i t] a assms(3) by (auto simp: own_def)
  next
    fix q q' i j t assume a: "q \<in> insert pd D" "q' \<in> insert pd D" "i < user_tables" "j < user_tables" "table m q i = Some t \<and> table m q' j = Some t"
    then have "q \<in> D" "q' \<in> D" using tn by auto
    then show "q = q'" "i = j" using d(5) [of q q' i j t] a by simp_all
  next
    fix q q' k l p assume a: "q \<in> insert pd D" "q' \<in> insert pd D" "k < user_pages" "l < user_pages" "frame m q k = Some p \<and> frame m q' l = Some p"
    then have "q \<in> D" "q' \<in> D" using fn by auto
    then show "q = q'" "k = l" using d(8) [of q q' k l p] a by simp_all
  next
    fix q i assume "q \<in> insert pd D" "i < user_tables" "words m (q + 4 * i) \<noteq> 0"
    then show "table m q i \<noteq> None" using d(2) assms(4) by auto
  next
    fix q k e assume a: "q \<in> insert pd D" "k < user_pages" "entry m q k = Some e \<and> bit e 0"
    then have "q \<in> D" using fn by auto
    then show "frame m q k \<noteq> None" using d(6) a by simp
  next
    fix q k p assume a: "q \<in> insert pd D" "k < user_pages" "frame m q k = Some p"
    then have "q \<in> D" using fn by auto
    then show "p \<in> in_use (user_pool m)" using d(7) a by simp
  qed
qed

lemma pagedir_create_ok:
  assumes "vm_ok s D"
  shows "(\<exists>s' pd. pagedir_create s = Some (s', pd) \<and> pd \<noteq> NULL \<and> pd \<notin> D \<and> vm_ok s' (insert pd D) \<and> active s' = active s
      \<and> m_init_page_dir s' = m_init_page_dir s \<and> in_use (user_pool (mem s')) = in_use (user_pool (mem s))
      \<and> (\<forall>l < user_pages. frame (mem s') pd l = None) \<and> (\<forall>pd' \<in> D. \<forall>l < user_pages. frame (mem s') pd' l = frame (mem s) pd' l))
    \<or> pagedir_create s = Some (s, NULL) \<and> kernel_full (mem s)"
proof -
  note ok = vm_okD [OF assms]
  from palloc_get_page_ok [OF ok(1), of 0] show ?thesis
  proof (elim disjE exE conjE)
    fix m pd
    assume a: "palloc_get_page (mem s) 0 = Some (m, pd)" "palloc_ok m" "pd \<noteq> NULL" "kpage pd"
      "pd \<notin> in_use (kernel_pool (mem s))" "extent m = extent (mem s)"
      "in_use (kernel_pool m) = (if has_flag 0 PAL_USER then in_use (kernel_pool (mem s)) else insert pd (in_use (kernel_pool (mem s))))"
      "in_use (user_pool m) = (if has_flag 0 PAL_USER then insert pd (in_use (user_pool (mem s))) else in_use (user_pool (mem s)))"
      "words m = (if has_flag 0 PAL_ZERO then fill_words (words (mem s)) pd PGSIZE 0 else words (mem s))"
    have iu: "in_use (kernel_pool m) = insert pd (in_use (kernel_pool (mem s)))" "in_use (user_pool m) = in_use (user_pool (mem s))"
        "words m = words (mem s)" using a(7-9) by simp_all
    let ?m = "m\<lparr>words := copy_words (words m) pd (m_init_page_dir s) PGSIZE\<rparr>" let ?s = "s\<lparr>mem := ?m\<rparr>"
    have kp: "\<forall>q \<in> own (mem s) D. kpage q" "pd \<notin> own (mem s) D" using own_in_use [OF ok(2)] kernel_kpage [OF ok(1)] a(5) by blast+
    have ag: "agree (own (mem s) D) (words (mem s)) (words ?m)" using agree_copy [OF kp(1) a(4) kp(2)] by (simp add: iu(3))
    note ad = agree_dirs [OF ag]
    have dm: "dirs_ok ?m D"
      by (rule dirs_ok_agree [OF ok(2) ag]) (use own_in_use [OF ok(2)] iu dirs_okD(7) [OF ok(2)] in auto)
    have nown: "pd \<notin> own ?m D" using kp(2) own_agree [OF ag] by simp
    have z: "\<forall>i < user_tables. words ?m (pd + 4 * i) = 0"
    proof (intro allI impI)
      fix i :: nat assume i: "i < user_tables"
      then have "words (mem s) (m_init_page_dir s + 4 * i) = 0" using dirs_okD(2) [OF ok(2,3) i] ok(7) [OF i] by blast
      then show "words ?m (pd + 4 * i) = 0" using i iu(3) by (simp add: copy_words_def)
    qed
    have di: "dirs_ok ?m (insert pd D)" by (rule dirs_ok_insert [OF dm _ nown z]) (simp add: iu(1))
    have "table ?m pd i = None" if "i < user_tables" for i using z that by (simp add: table_def)
    then have "frame ?m pd l = None" if "l < user_pages" for l
    proof -
      have "l div 1024 < user_tables" using that by auto
      then show ?thesis using \<open>\<And>i. i < user_tables \<Longrightarrow> table ?m pd i = None\<close> by (simp add: frame_entry entry_None)
    qed
    moreover have "vm_ok ?s (insert pd D)"
    proof -
      have "ram_ok ?m" using ram_ok_extent [OF ok(6) a(2,6)] by simp
      moreover have "tlb_ok ?s" using ok(5) ad(3) [OF ok(4)] by (simp add: tlb_ok_def active_def)
      ultimately show ?thesis using di ok(3,4,7) ad(2) [OF ok(3)] by (simp add: vm_ok_def active_def)
    qed
    moreover have "pagedir_create s = Some (?s, pd)" using a(1,3) by (simp add: pagedir_create_def Let_def)
    moreover have "pd \<notin> D" using kp(2) by (simp add: own_def)
    ultimately show ?thesis using a(3) iu ad(4)
      by (intro disjI1 exI [of _ ?s] exI [of _ pd]) (simp add: active_def)
  next
    assume a: "palloc_get_page (mem s) 0 = (if has_flag 0 PAL_ASSERT then None else Some (mem s, NULL))"
      "\<nexists>i. free_run (bit_cnt (used_map (get_pool (mem s) (has_flag 0 PAL_USER)))) (bbit (used_map (get_pool (mem s) (has_flag 0 PAL_USER)))) i 1"
    then show ?thesis by (simp add: pagedir_create_def kernel_full_def get_pool_def)
  qed
qed

section \<open>Destroying directories\<close>

lemma destroy_ptes_ok:
  assumes "palloc_ok (mem s)" "t \<in> in_use (kernel_pool (mem s))" "j + n = 1024"
    "\<forall>a. j \<le> a \<and> a < 1024 \<longrightarrow> (bit (words (mem s) (t + 4 * a)) 0 \<longrightarrow> present_frame (Some (words (mem s) (t + 4 * a))) \<noteq> None)
       \<and> (\<forall>p. present_frame (Some (words (mem s) (t + 4 * a))) = Some p \<longrightarrow> p \<in> in_use (user_pool (mem s)))"
    "\<forall>a b p. j \<le> a \<and> a < 1024 \<and> j \<le> b \<and> b < 1024 \<and> present_frame (Some (words (mem s) (t + 4 * a))) = Some p
       \<and> present_frame (Some (words (mem s) (t + 4 * b))) = Some p \<longrightarrow> a = b"
  shows "\<exists>s'. destroy_ptes s (t + 4 * j) (t + PGSIZE) = Some s' \<and> palloc_ok (mem s') \<and> extent (mem s') = extent (mem s)
    \<and> kernel_pool (mem s') = kernel_pool (mem s) \<and> agree (in_use (kernel_pool (mem s))) (words (mem s)) (words (mem s'))
    \<and> in_use (user_pool (mem s')) = in_use (user_pool (mem s))
        - {p. \<exists>a. j \<le> a \<and> a < 1024 \<and> present_frame (Some (words (mem s) (t + 4 * a))) = Some p}
    \<and> m_cr3 s' = m_cr3 s \<and> m_init_page_dir s' = m_init_page_dir s \<and> tlb s' = tlb s"
  using assms
proof (induction n arbitrary: s j)
  case 0
  then have "destroy_ptes s (t + 4 * j) (t + PGSIZE) = Some s" by (simp add: destroy_ptes.simps)
  then show ?case using 0 by (intro exI [of _ s]) (auto simp: agree_def)
next
  case (Suc n)
  let ?w = "words (mem s)" let ?e = "?w (t + 4 * j)" let ?K = "in_use (kernel_pool (mem s))" let ?U = "in_use (user_pool (mem s))"
  have j: "j < 1024" "Suc j + n = 1024" using Suc.prems(3) by auto
  have un: "destroy_ptes s (t + 4 * j) (t + PGSIZE) = do { s \<leftarrow> (if bit ?e 0 then do {
        page \<leftarrow> pte_get_page ?e; m \<leftarrow> palloc_free_page (mem s) page; Some (s\<lparr>mem := m\<rparr>) } else Some s);
      destroy_ptes s (t + 4 * Suc j) (t + PGSIZE) }"
    using j(1) by (subst destroy_ptes.simps) (simp add: load_word_def present_bit add.commute add.left_commute)
  show ?case
  proof (cases "bit ?e 0")
    case False
    then have pf: "present_frame (Some ?e) = None" by (simp add: present_frame_def)
    have c: "destroy_ptes s (t + 4 * j) (t + PGSIZE) = destroy_ptes s (t + 4 * Suc j) (t + PGSIZE)" unfolding un using False by simp
    have fs: "{p. \<exists>a. j \<le> a \<and> a < 1024 \<and> present_frame (Some (?w (t + 4 * a))) = Some p}
        = {p. \<exists>a. Suc j \<le> a \<and> a < 1024 \<and> present_frame (Some (?w (t + 4 * a))) = Some p}"
    proof (intro Collect_cong ex_cong1)
      fix p a
      show "j \<le> a \<and> a < 1024 \<and> present_frame (Some (?w (t + 4 * a))) = Some p
          \<longleftrightarrow> Suc j \<le> a \<and> a < 1024 \<and> present_frame (Some (?w (t + 4 * a))) = Some p"
        using pf by (cases "a = j") auto
    qed
    have h4: "\<forall>a. Suc j \<le> a \<and> a < 1024 \<longrightarrow> (bit (?w (t + 4 * a)) 0 \<longrightarrow> present_frame (Some (?w (t + 4 * a))) \<noteq> None)
       \<and> (\<forall>p. present_frame (Some (?w (t + 4 * a))) = Some p \<longrightarrow> p \<in> ?U)" using Suc.prems(4) by (meson Suc_leD)
    have h5: "\<forall>a b p. Suc j \<le> a \<and> a < 1024 \<and> Suc j \<le> b \<and> b < 1024 \<and> present_frame (Some (?w (t + 4 * a))) = Some p
       \<and> present_frame (Some (?w (t + 4 * b))) = Some p \<longrightarrow> a = b" using Suc.prems(5) by (meson Suc_leD)
    show ?thesis unfolding c fs by (rule Suc.IH [OF Suc.prems(1,2) j(2) h4 h5])
  next
    case True
    then obtain p where p: "present_frame (Some ?e) = Some p" using Suc.prems(4) j(1) by auto
    then have pg: "pte_get_page ?e = Some p" using True by (simp add: present_frame_def)
    have pu: "p \<in> ?U" using Suc.prems(4) p j(1) by auto
    obtain m where m: "palloc_free_page (mem s) p = Some m" "palloc_ok m" "extent m = extent (mem s)" "in_use (user_pool m) = ?U - {p}"
        "kernel_pool m = kernel_pool (mem s)" "words m = fill_words ?w p PGSIZE 0xcccccccc"
      using palloc_free_page_ok [OF Suc.prems(1), of p True] pu by (auto simp: get_pool_def)
    have pk: "p \<notin> ?K" "kpage p" using pools_disjoint [OF Suc.prems(1)] pu user_kpage [OF Suc.prems(1)] by blast+
    have ag: "agree ?K ?w (words m)" unfolding m(6) by (rule agree_fill) (use kernel_kpage [OF Suc.prems(1)] pk in auto)
    have wt: "words m (t + 4 * a) = ?w (t + 4 * a)" if "a < 1024" for a using ag Suc.prems(2) that by (simp add: agree_def)
    let ?s = "s\<lparr>mem := m\<rparr>"
    have c: "destroy_ptes s (t + 4 * j) (t + PGSIZE) = destroy_ptes ?s (t + 4 * Suc j) (t + PGSIZE)" unfolding un using True pg m(1) by simp
    have h4: "\<forall>a. Suc j \<le> a \<and> a < 1024 \<longrightarrow> (bit (words (mem ?s) (t + 4 * a)) 0 \<longrightarrow> present_frame (Some (words (mem ?s) (t + 4 * a))) \<noteq> None)
       \<and> (\<forall>q. present_frame (Some (words (mem ?s) (t + 4 * a))) = Some q \<longrightarrow> q \<in> in_use (user_pool (mem ?s)))"
    proof (intro allI impI, elim conjE)
      fix a assume a: "Suc j \<le> a" "a < 1024"
      have "q \<noteq> p" if "present_frame (Some (?w (t + 4 * a))) = Some q" for q
      proof
        assume "q = p"
        then have "a = j" using Suc.prems(5) [rule_format, of a j p] a j(1) that p by simp
        then show False using a(1) by simp
      qed
      then show "(bit (words (mem ?s) (t + 4 * a)) 0 \<longrightarrow> present_frame (Some (words (mem ?s) (t + 4 * a))) \<noteq> None)
       \<and> (\<forall>q. present_frame (Some (words (mem ?s) (t + 4 * a))) = Some q \<longrightarrow> q \<in> in_use (user_pool (mem ?s)))"
        using Suc.prems(4) [rule_format, of a] a wt m(4) by auto
    qed
    have h5: "\<forall>a b q. Suc j \<le> a \<and> a < 1024 \<and> Suc j \<le> b \<and> b < 1024 \<and> present_frame (Some (words (mem ?s) (t + 4 * a))) = Some q
       \<and> present_frame (Some (words (mem ?s) (t + 4 * b))) = Some q \<longrightarrow> a = b"
    proof (intro allI impI, elim conjE)
      fix a b q
      assume "Suc j \<le> a" "a < 1024" "Suc j \<le> b" "b < 1024" "present_frame (Some (words (mem ?s) (t + 4 * a))) = Some q"
        "present_frame (Some (words (mem ?s) (t + 4 * b))) = Some q"
      then show "a = b" using Suc.prems(5) [rule_format, of a b q] wt by simp
    qed
    have "palloc_ok (mem ?s)" "t \<in> in_use (kernel_pool (mem ?s))" using m Suc.prems(2) by simp_all
    from Suc.IH [OF this j(2) h4 h5] obtain s' where s': "destroy_ptes ?s (t + 4 * Suc j) (t + PGSIZE) = Some s'" "palloc_ok (mem s')"
        "extent (mem s') = extent m" "kernel_pool (mem s') = kernel_pool m" "agree (in_use (kernel_pool m)) (words m) (words (mem s'))"
        "in_use (user_pool (mem s')) = in_use (user_pool m) - {q. \<exists>a. Suc j \<le> a \<and> a < 1024 \<and> present_frame (Some (words m (t + 4 * a))) = Some q}"
        "m_cr3 s' = m_cr3 s" "m_init_page_dir s' = m_init_page_dir s" "tlb s' = tlb s" by auto
    have "{q. \<exists>a. j \<le> a \<and> a < 1024 \<and> present_frame (Some (?w (t + 4 * a))) = Some q}
        = insert p {q. \<exists>a. Suc j \<le> a \<and> a < 1024 \<and> present_frame (Some (words m (t + 4 * a))) = Some q}"
    proof (rule set_eqI, rule iffI)
      fix q assume "q \<in> {q. \<exists>a. j \<le> a \<and> a < 1024 \<and> present_frame (Some (?w (t + 4 * a))) = Some q}"
      then obtain a where a: "j \<le> a" "a < 1024" "present_frame (Some (?w (t + 4 * a))) = Some q" by blast
      then show "q \<in> insert p {q. \<exists>a. Suc j \<le> a \<and> a < 1024 \<and> present_frame (Some (words m (t + 4 * a))) = Some q}"
        using p wt by (cases "a = j") auto
    next
      fix q assume "q \<in> insert p {q. \<exists>a. Suc j \<le> a \<and> a < 1024 \<and> present_frame (Some (words m (t + 4 * a))) = Some q}"
      then show "q \<in> {q. \<exists>a. j \<le> a \<and> a < 1024 \<and> present_frame (Some (?w (t + 4 * a))) = Some q}"
        using p wt j(1) by (auto dest: Suc_leD)
    qed
    then have "in_use (user_pool (mem s')) = ?U - {q. \<exists>a. j \<le> a \<and> a < 1024 \<and> present_frame (Some (?w (t + 4 * a))) = Some q}"
      unfolding s'(6) m(4) by auto
    then show ?thesis unfolding c using s' m ag by (intro exI [of _ s']) (simp add: agree_def)
  qed
qed

text \<open>
  The directory with its first \<open>i\<close> entries erased: what remains to be destroyed, and a well-formed
  directory throughout.
\<close>

definition blank :: "pmem \<Rightarrow> ptr \<Rightarrow> nat \<Rightarrow> pmem" where
  "blank m pd i = m\<lparr>words := \<lambda>a. if \<exists>j < i. a = pd + 4 * j then 0 else words m a\<rparr>"

lemma blank_sel [simp]: "kernel_pool (blank m pd i) = kernel_pool m" "user_pool (blank m pd i) = user_pool m" "palloc_ok (blank m pd i) = palloc_ok m"
  by (simp_all add: blank_def)

lemma blank_0: "blank m pd 0 = m"
  by (simp add: blank_def)

lemma blank_Suc: "blank m pd (Suc i) = (blank m pd i)\<lparr>words := (words (blank m pd i))(pd + 4 * i := 0)\<rparr>"
proof -
  have "(\<lambda>a. if \<exists>j < Suc i. a = pd + 4 * j then 0 else words m a)
      = (\<lambda>a. if \<exists>j < i. a = pd + 4 * j then 0 else words m a)(pd + 4 * i := 0)" by (rule ext) (auto simp: less_Suc_eq)
  then show ?thesis by (simp add: blank_def)
qed

lemma blank_word: "words (blank m pd i) (pd + 4 * i) = words m (pd + 4 * i)"
  by (simp add: blank_def)

lemma blank_page:
  assumes "kpage pd" "kpage q" "q \<noteq> pd" "a < PGSIZE" "i \<le> user_tables"
  shows "words (blank m pd i) (q + a) = words m (q + a)"
proof -
  have "q + a \<noteq> pd + 4 * j" if "j < i" for j using page_offset_eq [OF assms(2,1,4), of "4 * j"] assms(3,5) that by simp
  then show ?thesis by (auto simp: blank_def)
qed

lemma agree_blank: "agree P (words m) (words m') \<Longrightarrow> agree P (words (blank m pd i)) (words (blank m' pd i))"
  by (auto simp: agree_def blank_def)

lemma dirs_ok_drop:
  assumes "palloc_ok m" "dirs_ok m D" "pd \<in> D" "i < user_tables"
    and m': "m' = m\<lparr>words := (words m)(pd + 4 * i := 0)\<rparr>"
  shows "pd' \<in> D \<Longrightarrow> j < user_tables \<Longrightarrow> table m' pd' j = (if pd' = pd \<and> j = i then None else table m pd' j)"
    "pd' \<in> D \<Longrightarrow> l < user_pages \<Longrightarrow> entry m' pd' l = (if pd' = pd \<and> l div 1024 = i then None else entry m pd' l)"
    "dirs_ok m' D"
proof -
  note kp = kernel_kpage [OF assms(1)] note d = dirs_okD [OF assms(2)]
  have pdk: "kpage q" if "q \<in> D" for q using that kp d(1) by blast
  have w: "words m' (q + 4 * j) = (if q = pd \<and> j = i then 0 else words m (q + 4 * j))" if "q \<in> D" "j < user_tables" for q j
    using page_offset_eq [of q pd "4 * j" "4 * i"] pdk that assms(3,4) by (auto simp: m')
  show tb: "table m' q j = (if q = pd \<and> j = i then None else table m q j)" if "q \<in> D" "j < user_tables" for q j
    using w [OF that] by (auto simp: table_def)
  have same: "words m' (u + 4 * a) = words m (u + 4 * a)" if "u \<in> in_use (kernel_pool m)" "u \<notin> D" "a < 1024" for u a
    using page_offset_eq [of u pd "4 * a" "4 * i"] kp [OF that(1)] pdk [OF assms(3)] that assms(3,4) by (auto simp: m')
  show en: "entry m' q l = (if q = pd \<and> l div 1024 = i then None else entry m q l)" if l: "q \<in> D" "l < user_pages" for q l
  proof -
    have ll: "l div 1024 < user_tables" using l by auto
    show ?thesis
    proof (cases "(q = pd \<and> l div 1024 = i) \<or> table m q (l div 1024) = None")
      case True
      then show ?thesis using tb [OF l(1) ll] by (auto simp: entry_def)
    next
      case False
      then obtain u where u: "table m q (l div 1024) = Some u" by blast
      then have "words m' (u + 4 * (l mod 1024)) = words m (u + 4 * (l mod 1024))" using same d(3,4) [OF l(1) ll u] by simp
      then show ?thesis using False tb [OF l(1) ll] u by (auto simp: entry_def)
    qed
  qed
  have iu: "in_use (kernel_pool m') = in_use (kernel_pool m)" "in_use (user_pool m') = in_use (user_pool m)" by (simp_all add: m')
  have fr: "frame m' q l = (if q = pd \<and> l div 1024 = i then None else frame m q l)" if "q \<in> D" "l < user_pages" for q l
    using en [OF that] by (simp add: frame_entry)
  show "dirs_ok m' D" unfolding dirs_ok_def iu
  proof (intro conjI ballI allI impI)
    fix q q' a b u assume a: "q \<in> D" "q' \<in> D" "a < user_tables" "b < user_tables" "table m' q a = Some u \<and> table m' q' b = Some u"
    then show "q = q'" "a = b" using tb [OF a(1,3)] tb [OF a(2,4)] d(5) [OF a(1-4), of u] by (simp_all split: if_splits)
  next
    fix q q' k l p assume a: "q \<in> D" "q' \<in> D" "k < user_pages" "l < user_pages" "frame m' q k = Some p \<and> frame m' q' l = Some p"
    then show "q = q'" "k = l" using fr [OF a(1,3)] fr [OF a(2,4)] d(8) [OF a(1-4), of p] by (simp_all split: if_splits)
  next
    fix q l e assume a: "q \<in> D" "l < user_pages" "entry m' q l = Some e \<and> bit e 0"
    then show "frame m' q l \<noteq> None" using en [OF a(1,2)] fr [OF a(1,2)] d(6) [OF a(1,2), of e] by (auto split: if_splits)
  next
    fix q l p assume a: "q \<in> D" "l < user_pages" "frame m' q l = Some p"
    then show "p \<in> in_use (user_pool m)" using fr [OF a(1,2)] d(7) [OF a(1,2)] by (simp split: if_splits)
  next
    fix q j u assume a: "q \<in> D" "j < user_tables" "table m' q j = Some u"
    then show "u \<in> in_use (kernel_pool m) - D" using tb [OF a(1,2)] d(3,4) [OF a(1,2), of u] by (simp split: if_splits)
  next
    fix q j assume a: "q \<in> D" "j < user_tables" "words m' (q + 4 * j) \<noteq> 0"
    then show "table m' q j \<noteq> None" using tb [OF a(1,2)] w [OF a(1,2)] d(2) [OF a(1,2)] by (auto split: if_splits)
  next
    show "D \<subseteq> in_use (kernel_pool m)" using d(1) by blast
  qed
qed

definition destroying :: "mmu \<Rightarrow> ptr set \<Rightarrow> ptr \<Rightarrow> nat \<Rightarrow> mmu \<Rightarrow> bool" where
  "destroying s0 D pd i s \<longleftrightarrow> palloc_ok (mem s) \<and> extent (mem s) = extent (mem s0) \<and> dirs_ok (blank (mem s) pd i) D
     \<and> in_use (kernel_pool (mem s)) = in_use (kernel_pool (mem s0)) - {t. \<exists>j < i. table (mem s0) pd j = Some t}
     \<and> in_use (user_pool (mem s)) = in_use (user_pool (mem s0)) - {p. \<exists>k < 1024 * i. frame (mem s0) pd k = Some p}
     \<and> (\<forall>q \<in> D. \<forall>j < user_tables. table (blank (mem s) pd i) q j = (if q = pd \<and> j < i then None else table (mem s0) q j))
     \<and> (\<forall>q \<in> D. \<forall>k < user_pages. entry (blank (mem s) pd i) q k = (if q = pd \<and> k < 1024 * i then None else entry (mem s0) q k))
     \<and> m_cr3 s = m_cr3 s0 \<and> m_init_page_dir s = m_init_page_dir s0 \<and> tlb s = tlb s0"

lemma block_less: "k div 1024 = i \<Longrightarrow> \<not> k < 1024 * i" "k < 1024 * Suc i \<longleftrightarrow> k < 1024 * i \<or> k div 1024 = i"
  by auto

lemma destroy_step_none:
  assumes "destroying s0 D pd i s" "pd \<in> D" "i < user_tables" "words (mem s) (pd + 4 * i) = 0"
  shows "destroying s0 D pd (Suc i) s"
proof -
  note d = assms(1) [unfolded destroying_def]
  have w0: "words (blank (mem s) pd i) (pd + 4 * i) = 0" using assms(4) by (simp add: blank_word)
  then have bl: "blank (mem s) pd (Suc i) = blank (mem s) pd i" by (simp add: blank_Suc fun_upd_idem)
  have "table (blank (mem s) pd i) pd i = None" using w0 by (simp add: table_def)
  then have t0: "table (mem s0) pd i = None" using d assms(2,3) by auto
  then have e0: "entry (mem s0) pd k = None" "frame (mem s0) pd k = None" if "k div 1024 = i" for k
    using that by (simp_all add: entry_def frame_def)
  have e1: "{t. \<exists>j < Suc i. table (mem s0) pd j = Some t} = {t. \<exists>j < i. table (mem s0) pd j = Some t}"
    using t0 by (auto simp: less_Suc_eq)
  have e2: "{p. \<exists>k < 1024 * Suc i. frame (mem s0) pd k = Some p} = {p. \<exists>k < 1024 * i. frame (mem s0) pd k = Some p}"
    unfolding block_less(2) using e0(2) by auto
  have e3: "(if q = pd \<and> k < 1024 * Suc i then None else entry (mem s0) q k) = (if q = pd \<and> k < 1024 * i then None else entry (mem s0) q k)" for q k
    unfolding block_less(2) using e0(1) by auto
  have e4: "(if q = pd \<and> j < Suc i then None else table (mem s0) q j) = (if q = pd \<and> j < i then None else table (mem s0) q j)" for q j
    using t0 by (auto simp: less_Suc_eq)
  show ?thesis unfolding destroying_def bl e1 e2 e3 e4 by (rule d)
qed

lemma destroy_table:
  assumes "destroying s0 D pd i s" "pd \<in> D" "i < user_tables" "table (blank (mem s) pd i) pd i = Some t"
  shows "\<exists>s1 m. destroy_ptes s t (t + PGSIZE) = Some s1 \<and> palloc_free_page (mem s1) t = Some m \<and> destroying s0 D pd (Suc i) (s1\<lparr>mem := m\<rparr>)"
proof -
  note d = assms(1) [unfolded destroying_def]
  let ?b = "blank (mem s) pd i" let ?K = "in_use (kernel_pool (mem s))" let ?U = "in_use (user_pool (mem s))"
  have ok: "palloc_ok (mem s)" "dirs_ok ?b D" using d by blast+
  note dd = dirs_okD [OF ok(2)]
  have t: "t \<in> ?K" "t \<notin> D" "kpage t" "kpage pd" using dd(3,4) [OF assms(2,3,4)] dd(1) [OF assms(2)] kernel_kpage [OF ok(1)] by auto
  have wt: "words ?b (t + 4 * a) = words (mem s) (t + 4 * a)" if "a < 1024" for a
    using blank_page [OF t(4,3), of "4 * a" i "mem s"] t(2) assms(2,3) that by fastforce
  have en: "entry ?b pd (1024 * i + a) = Some (words (mem s) (t + 4 * a))" "1024 * i + a < user_pages" if "a < 1024" for a
    using assms(3,4) that wt by (auto simp: entry_def)
  have fr: "frame ?b pd (1024 * i + a) = present_frame (Some (words (mem s) (t + 4 * a)))" if "a < 1024" for a
    using en(1) [OF that] by (simp add: frame_entry)
  let ?F = "{p. \<exists>a. 0 \<le> a \<and> a < 1024 \<and> present_frame (Some (words (mem s) (t + 4 * a))) = Some p}"
  have F: "?F = {p. \<exists>k. k div 1024 = i \<and> frame ?b pd k = Some p}"
  proof (intro Collect_cong iffI; elim exE conjE)
    fix p a assume "a < 1024" "present_frame (Some (words (mem s) (t + 4 * a))) = Some p"
    then show "\<exists>k. k div 1024 = i \<and> frame ?b pd k = Some p" using fr [of a] by (intro exI [of _ "1024 * i + a"]) simp
  next
    fix p k assume a: "k div 1024 = i" "frame ?b pd k = Some p"
    have "k = 1024 * i + k mod 1024" using a(1) by (metis mult_div_mod_eq)
    then show "\<exists>a. 0 \<le> a \<and> a < 1024 \<and> present_frame (Some (words (mem s) (t + 4 * a))) = Some p"
      using a(2) fr [of "k mod 1024"] by (intro exI [of _ "k mod 1024"]) simp
  qed
  have h4: "\<forall>a. 0 \<le> a \<and> a < 1024 \<longrightarrow> (bit (words (mem s) (t + 4 * a)) 0 \<longrightarrow> present_frame (Some (words (mem s) (t + 4 * a))) \<noteq> None)
       \<and> (\<forall>p. present_frame (Some (words (mem s) (t + 4 * a))) = Some p \<longrightarrow> p \<in> ?U)"
    using dd(6,7) [OF assms(2) en(2)] en(1) fr by auto
  have h5: "\<forall>a b p. 0 \<le> a \<and> a < 1024 \<and> 0 \<le> b \<and> b < 1024 \<and> present_frame (Some (words (mem s) (t + 4 * a))) = Some p
       \<and> present_frame (Some (words (mem s) (t + 4 * b))) = Some p \<longrightarrow> a = b"
  proof (intro allI impI, elim conjE)
    fix a b p
    assume a: "a < 1024" "b < 1024" "present_frame (Some (words (mem s) (t + 4 * a))) = Some p" "present_frame (Some (words (mem s) (t + 4 * b))) = Some p"
    then show "a = b" using dd(8) [OF assms(2,2) en(2) [OF a(1)] en(2) [OF a(2)], of p] fr by simp
  qed
  obtain s1 where s1: "destroy_ptes s (t + 4 * 0) (t + PGSIZE) = Some s1" "palloc_ok (mem s1)" "extent (mem s1) = extent (mem s)"
      "kernel_pool (mem s1) = kernel_pool (mem s)" "agree ?K (words (mem s)) (words (mem s1))" "in_use (user_pool (mem s1)) = ?U - ?F"
      "m_cr3 s1 = m_cr3 s" "m_init_page_dir s1 = m_init_page_dir s" "tlb s1 = tlb s"
    using destroy_ptes_ok [OF ok(1) t(1) _ h4 h5, of 1024] by auto
  obtain m where m: "palloc_free_page (mem s1) t = Some m" "palloc_ok m" "extent m = extent (mem s1)" "in_use (kernel_pool m) = ?K - {t}"
      "user_pool m = user_pool (mem s1)" "words m = fill_words (words (mem s1)) t PGSIZE 0xcccccccc"
    using palloc_free_page_ok [OF s1(2), of t False] t(1) s1(4) by (auto simp: get_pool_def)
  let ?b' = "blank (mem s) pd (Suc i)" let ?s = "s1\<lparr>mem := m\<rparr>"
  have pb: "palloc_ok ?b" using ok(1) by simp
  note dr = dirs_ok_drop [OF pb ok(2) assms(2,3) blank_Suc [of "mem s" pd i]]
  have ag: "agree (?K - {t}) (words (mem s)) (words m)"
  proof -
    have "agree (?K - {t}) (words (mem s1)) (words m)" unfolding m(6) by (rule agree_fill) (use kernel_kpage [OF ok(1)] t(3) in auto)
    then show ?thesis using agree_trans agree_mono [OF s1(5)] by blast
  qed
  have own: "own ?b' D \<subseteq> ?K - {t}"
  proof
    fix q assume q: "q \<in> own ?b' D"
    have "q \<noteq> t"
    proof
      assume "q = t"
      then obtain r j where r: "r \<in> D" "j < user_tables" "table ?b' r j = Some t" using q t(2) by (auto simp: own_def)
      then show False using dr(1) [OF r(1,2)] dd(5) [OF r(1) assms(2) r(2) assms(3) _ assms(4)] by (auto split: if_splits)
    qed
    then show "q \<in> ?K - {t}" using q own_in_use [OF dr(3)] by auto
  qed
  have agb: "agree (own ?b' D) (words ?b') (words (blank m pd (Suc i)))" using agree_blank [OF agree_mono [OF ag own]] .
  have fU: "p \<in> in_use (user_pool (blank m pd (Suc i)))" if f: "q \<in> D" "k < user_pages" "frame ?b' q k = Some p" for q k p
  proof -
    have nk: "\<not> (q = pd \<and> k div 1024 = i)" "frame ?b q k = Some p" using dr(2) [OF f(1,2)] f(3) by (auto simp: frame_entry split: if_splits)
    have "p \<notin> ?F"
    proof
      assume "p \<in> ?F"
      then obtain l where l: "l div 1024 = i" "frame ?b pd l = Some p" unfolding F by blast
      then have "l < user_pages" using assms(3) by auto
      then show False using dd(8) [OF f(1) assms(2) f(2) _ nk(2) l(2)] nk(1) l(1) by auto
    qed
    then show ?thesis using dd(7) [OF f(1,2) nk(2)] s1(6) m(5) by simp
  qed
  have dok: "dirs_ok (blank m pd (Suc i)) D" by (rule dirs_ok_agree [OF dr(3) agb _ fU]) (use own m(4) in auto)
  have tabs: "table (blank m pd (Suc i)) q j = (if q = pd \<and> j < Suc i then None else table (mem s0) q j)" if "q \<in> D" "j < user_tables" for q j
    unfolding agree_dirs(2) [OF agb that] dr(1) [OF that] using d that by (auto simp: less_Suc_eq)
  have ents: "entry (blank m pd (Suc i)) q k = (if q = pd \<and> k < 1024 * Suc i then None else entry (mem s0) q k)" if "q \<in> D" "k < user_pages" for q k
    unfolding agree_dirs(3) [OF agb that] dr(2) [OF that] block_less(2) using d that by auto
  have t0: "table (mem s0) pd i = Some t" "\<forall>k < user_pages. \<not> k < 1024 * i \<longrightarrow> frame ?b pd k = frame (mem s0) pd k"
    using d assms(2-4) by (auto simp: frame_entry split: if_splits)
  have K: "?K - {t} = in_use (kernel_pool (mem s0)) - {t. \<exists>j < Suc i. table (mem s0) pd j = Some t}"
    using d t0(1) by (auto simp: less_Suc_eq)
  have "?F = {p. \<exists>k. k div 1024 = i \<and> frame (mem s0) pd k = Some p}"
  proof -
    have "frame ?b pd k = frame (mem s0) pd k" if "k div 1024 = i" for k
      using t0(2) [rule_format, of k] block_less(1) [OF that] that assms(3) by auto
    then show ?thesis unfolding F by auto
  qed
  then have U: "?U - ?F = in_use (user_pool (mem s0)) - {p. \<exists>k < 1024 * Suc i. frame (mem s0) pd k = Some p}"
    unfolding block_less(2) using d by auto
  have "destroying s0 D pd (Suc i) ?s"
    unfolding destroying_def using m s1 d dok tabs ents K U by simp
  then show ?thesis using s1(1) m(1) by auto
qed

lemma destroy_pdes_ok:
  assumes "destroying s0 D pd i s" "pd \<in> D" "ram_ok (mem s0)" "i + n = user_tables"
  shows "\<exists>s'. destroy_pdes s (pd + 4 * i) (pd + 4 * user_tables) = Some s' \<and> destroying s0 D pd user_tables s'"
  using assms(1,4)
proof (induction n arbitrary: s i)
  case 0
  then show ?case by (simp add: destroy_pdes.simps)
next
  case (Suc n)
  have i: "i < user_tables" "Suc i + n = user_tables" using Suc.prems(2) by auto
  note d = Suc.prems(1) [unfolded destroying_def]
  let ?e = "words (mem s) (pd + 4 * i)"
  have un: "destroy_pdes s (pd + 4 * i) (pd + 4 * user_tables) = do { s \<leftarrow> (if bit ?e 0 then do {
        pt \<leftarrow> pde_get_pt ?e; s \<leftarrow> destroy_ptes s pt (add32 pt (4 * (PGSIZE div 4)));
        m \<leftarrow> palloc_free_page (mem s) pt; Some (s\<lparr>mem := m\<rparr>) } else Some s);
      destroy_pdes s (pd + 4 * Suc i) (pd + 4 * user_tables) }"
    using i(1) by (subst destroy_pdes.simps) (simp add: load_word_def present_bit add.commute add.left_commute)
  show ?case
  proof (cases "?e = 0")
    case True
    show ?thesis unfolding un using True Suc.IH [OF destroy_step_none [OF Suc.prems(1) assms(2) i(1) True] i(2)] by simp
  next
    case False
    have ok: "palloc_ok (mem s)" "dirs_ok (blank (mem s) pd i) D" "extent (mem s) = extent (mem s0)" using d by blast+
    have wb: "words (blank (mem s) pd i) (pd + 4 * i) = ?e" by (rule blank_word)
    obtain t where t: "table (blank (mem s) pd i) pd i = Some t" using dirs_okD(2) [OF ok(2) assms(2) i(1)] False wb by auto
    then have pt: "pde_get_pt ?e = Some t" using False by (simp add: table_def wb)
    then have b: "bit ?e 0" by (simp add: pde_get_pt_def present_bit ASSERT_def split: if_splits)
    have "t \<in> in_use (kernel_pool (mem s))" using dirs_okD(3) [OF ok(2) assms(2) i(1) t] by simp
    then have "t + PGSIZE < two32" using in_use_kpage [OF ok(1), of t False] ok(1,3) assms(3)
      by (auto simp: ram_ok_def extent_def palloc_ok_def get_pool_def pool_end_def)
    then have en: "add32 t (4 * (PGSIZE div 4)) = t + PGSIZE" by simp
    obtain s1 m where s1: "destroy_ptes s t (t + PGSIZE) = Some s1" "palloc_free_page (mem s1) t = Some m" "destroying s0 D pd (Suc i) (s1\<lparr>mem := m\<rparr>)"
      using destroy_table [OF Suc.prems(1) assms(2) i(1) t] by blast
    have "destroy_pdes s (pd + 4 * i) (pd + 4 * user_tables) = destroy_pdes (s1\<lparr>mem := m\<rparr>) (pd + 4 * Suc i) (pd + 4 * user_tables)"
      unfolding un using b pt en s1(1,2) by simp
    then show ?thesis using Suc.IH [OF s1(3) i(2)] by simp
  qed
qed

lemma pagedir_destroy_ok:
  assumes "vm_ok s D" "pd \<in> D" "pd \<noteq> m_init_page_dir s" "pd \<noteq> active s"
  shows "\<exists>s'. pagedir_destroy s pd = Some s' \<and> vm_ok s' (D - {pd}) \<and> active s' = active s \<and> m_init_page_dir s' = m_init_page_dir s
    \<and> in_use (kernel_pool (mem s')) = in_use (kernel_pool (mem s)) - own (mem s) {pd}
    \<and> in_use (user_pool (mem s')) = in_use (user_pool (mem s)) - {p. \<exists>k < user_pages. frame (mem s) pd k = Some p}
    \<and> (\<forall>q \<in> D - {pd}. \<forall>k < user_pages. frame (mem s') q k = frame (mem s) q k)"
proof -
  note ok = vm_okD [OF assms(1)]
  have start: "destroying s D pd 0 s" using ok by (simp add: destroying_def blank_0)
  obtain s1 where s1: "destroy_pdes s (pd + 4 * 0) (pd + 4 * user_tables) = Some s1" "destroying s D pd user_tables s1"
    using destroy_pdes_ok [OF start assms(2) ok(6), of user_tables] by auto
  note d = s1(2) [unfolded destroying_def]
  let ?b = "blank (mem s1) pd user_tables"
  have ok1: "palloc_ok (mem s1)" "dirs_ok ?b D" "extent (mem s1) = extent (mem s)" using d by blast+
  have pk: "kpage pd" "pd \<in> in_use (kernel_pool (mem s1))" "pd \<noteq> NULL"
    using kernel_kpage [OF ok(1) dirs_okD(1) [OF ok(2) assms(2)]] dirs_okD(1) [OF ok1(2) assms(2)] by (auto simp: kpage_def)
  obtain m where m: "palloc_free_page (mem s1) pd = Some m" "palloc_ok m" "extent m = extent (mem s1)"
      "in_use (kernel_pool m) = in_use (kernel_pool (mem s1)) - {pd}" "user_pool m = user_pool (mem s1)"
      "words m = fill_words (words (mem s1)) pd PGSIZE 0xcccccccc"
    using palloc_free_page_ok [OF ok1(1), of pd False] pk(2) by (auto simp: get_pool_def)
  let ?s = "s1\<lparr>mem := m\<rparr>" let ?D = "D - {pd}"
  have db: "dirs_ok ?b ?D" by (rule dirs_ok_subset [OF ok1(2)]) blast
  have own: "own ?b ?D \<subseteq> in_use (kernel_pool (mem s1)) - {pd}"
  proof
    fix q assume q: "q \<in> own ?b ?D"
    have "q \<noteq> pd" using q dirs_okD(4) [OF ok1(2)] assms(2) by (auto simp: own_def)
    then show "q \<in> in_use (kernel_pool (mem s1)) - {pd}" using q own_in_use [OF db] by auto
  qed
  have ag: "agree (own ?b ?D) (words ?b) (words m)"
  proof -
    have kq: "\<forall>q \<in> own ?b ?D. kpage q" "pd \<notin> own ?b ?D" using own kernel_kpage [OF ok1(1)] by blast+
    have "words ?b (q + a) = words (mem s1) (q + a)" if "q \<in> own ?b ?D" "a < PGSIZE" for q a
      using blank_page [OF pk(1) _ _ that(2), of q user_tables "mem s1"] kq that(1) by auto
    moreover have "agree (own ?b ?D) (words (mem s1)) (words m)" unfolding m(6) by (rule agree_fill [OF kq(1) pk(1) kq(2)])
    ultimately show ?thesis by (simp add: agree_def)
  qed
  note ad = agree_dirs [OF ag]
  have dm: "dirs_ok m ?D" by (rule dirs_ok_agree [OF db ag]) (use own m(4,5) dirs_okD(7) [OF db] in auto)
  have same: "table m q j = table (mem s) q j" if "q \<in> ?D" "j < user_tables" for q j using ad(2) [OF that] d that by auto
  have ents: "entry m q k = entry (mem s) q k" if "q \<in> ?D" "k < user_pages" for q k using ad(3) [OF that] d that by auto
  have ac: "active ?s = active s" "m_init_page_dir ?s = m_init_page_dir s" "tlb ?s = tlb s" using d by (simp_all add: active_def)
  have "vm_ok ?s ?D"
  proof -
    have "ram_ok m" using ram_ok_extent [OF ok(6) m(2)] m(3) ok1(3) by simp
    moreover have "tlb_ok ?s" unfolding tlb_ok_def ac using ok(4,5) ents [of "active s"] assms(4) by (simp add: tlb_ok_def)
    ultimately show ?thesis unfolding vm_ok_def ac using dm ok(3,4,7) same [of "m_init_page_dir s"] assms(3,4) by auto
  qed
  moreover have "pagedir_destroy s pd = Some ?s"
  proof -
    have "add32 pd (4 * pd_no PHYS_BASE) = pd + 4 * user_tables" using kpage_add [OF pk(1), of "4 * user_tables"] by (simp add: pd_no_div)
    then show ?thesis unfolding pagedir_destroy_def using pk(3) assms(3) s1(1) m(1) by simp
  qed
  moreover have "in_use (kernel_pool (mem ?s)) = in_use (kernel_pool (mem s)) - own (mem s) {pd}" using m(4) d by (auto simp: own_def)
  moreover have "in_use (user_pool (mem ?s)) = in_use (user_pool (mem s)) - {p. \<exists>k < user_pages. frame (mem s) pd k = Some p}" using m(5) d by simp
  ultimately show ?thesis using ac ents by (intro exI [of _ ?s]) (simp add: frame_entry)
qed

section \<open>All interleavings\<close>

text \<open>
  What the kernel and the processor may do with the set \<open>D\<close> of directories: every operation above
  under the conditions its callers ensure, allocation and release of user pages that are not mapped, and
  accesses of user programs, which cache and mark entries of the active directory and write to
  user pages.
\<close>

definition unmapped :: "mmu \<Rightarrow> ptr set \<Rightarrow> ptr \<Rightarrow> bool" where
  "unmapped s D p \<longleftrightarrow> p \<in> in_use (user_pool (mem s)) \<and> (\<forall>pd \<in> D. \<forall>k < user_pages. frame (mem s) pd k \<noteq> Some p)"

inductive vm_step :: "mmu \<times> ptr set \<Rightarrow> mmu \<times> ptr set \<Rightarrow> bool" where
  create: "pagedir_create s = Some (s', pd) \<Longrightarrow> vm_step (s, D) (s', if pd = NULL then D else insert pd D)"
| alloc_user: "palloc_get_page (mem s) flags = Some (m, p) \<Longrightarrow> has_flag flags PAL_USER \<Longrightarrow> vm_step (s, D) (s\<lparr>mem := m\<rparr>, D)"
| free_user: "unmapped s D p \<Longrightarrow> palloc_free_page (mem s) p = Some m \<Longrightarrow> vm_step (s, D) (s\<lparr>mem := m\<rparr>, D)"
| set_page: "pd \<in> D \<Longrightarrow> pd \<noteq> m_init_page_dir s \<Longrightarrow> u < PHYS_BASE \<Longrightarrow> u mod PGSIZE = 0 \<Longrightarrow> unmapped s D kp
    \<Longrightarrow> pagedir_get_page s pd u = Some NULL \<Longrightarrow> pagedir_set_page s pd u kp w = Some (s', r) \<Longrightarrow> vm_step (s, D) (s', D)"
| clear_page: "pd \<in> D \<Longrightarrow> u < PHYS_BASE \<Longrightarrow> u mod PGSIZE = 0 \<Longrightarrow> pagedir_clear_page s pd u = Some s' \<Longrightarrow> vm_step (s, D) (s', D)"
| set_dirty: "pd \<in> D \<Longrightarrow> u < PHYS_BASE \<Longrightarrow> pagedir_set_dirty s pd u v = Some s' \<Longrightarrow> vm_step (s, D) (s', D)"
| set_accessed: "pd \<in> D \<Longrightarrow> u < PHYS_BASE \<Longrightarrow> pagedir_set_accessed s pd u v = Some s' \<Longrightarrow> vm_step (s, D) (s', D)"
| activate: "pd \<in> D \<or> pd = NULL \<Longrightarrow> pagedir_activate s pd = Some s' \<Longrightarrow> vm_step (s, D) (s', D)"
| destroy: "pd \<in> D \<Longrightarrow> pd \<noteq> m_init_page_dir s \<Longrightarrow> pd \<noteq> active s \<Longrightarrow> pagedir_destroy s pd = Some s' \<Longrightarrow> vm_step (s, D) (s', D - {pd})"
| cpu_access: "k < user_pages \<Longrightarrow> table (mem s) (active s) (k div 1024) = Some t \<Longrightarrow> e = words (mem s) (t + 4 * (k mod 1024)) \<Longrightarrow> bit e 0
    \<Longrightarrow> e' = e OR PTE_A OR (if wr then PTE_D else 0)
    \<Longrightarrow> vm_step (s, D) ((store_word s (t + 4 * (k mod 1024)) e')\<lparr>tlb := (tlb s)(k := Some e')\<rparr>, D)"
| cpu_write: "p \<in> in_use (user_pool (mem s)) \<Longrightarrow> a < PGSIZE \<Longrightarrow> vm_step (s, D) (store_word s (p + a) v, D)"

lemma vm_ok_agree:
  assumes "vm_ok s D" "palloc_ok m" "extent m = extent (mem s)" "agree (own (mem s) D) (words (mem s)) (words m)"
    "own (mem s) D \<subseteq> in_use (kernel_pool m)" "\<And>pd k p. pd \<in> D \<Longrightarrow> k < user_pages \<Longrightarrow> frame (mem s) pd k = Some p \<Longrightarrow> p \<in> in_use (user_pool m)"
  shows "vm_ok (s\<lparr>mem := m\<rparr>) D"
proof -
  note ok = vm_okD [OF assms(1)] note ad = agree_dirs [OF assms(4)]
  have "dirs_ok m D" by (rule dirs_ok_agree [OF ok(2) assms(4,5)]) (rule assms(6))
  moreover have "tlb_ok (s\<lparr>mem := m\<rparr>)" using ok(5) ad(3) [OF ok(4)] by (simp add: tlb_ok_def active_def)
  ultimately show ?thesis using ok(3,4,7) ad(2) [OF ok(3)] ram_ok_extent [OF ok(6) assms(2,3)] by (simp add: vm_ok_def active_def)
qed

lemma own_user:
  assumes "vm_ok s D" "kpage p" "p \<notin> in_use (kernel_pool (mem s))" "\<forall>a. \<not> (p \<le> a \<and> a < p + PGSIZE) \<longrightarrow> w a = words (mem s) a"
  shows "agree (own (mem s) D) (words (mem s)) w"
proof -
  note ok = vm_okD [OF assms(1)]
  have "\<forall>q \<in> own (mem s) D. kpage q" "p \<notin> own (mem s) D" using own_in_use [OF ok(2)] kernel_kpage [OF ok(1)] assms(3) by blast+
  then show ?thesis using agree_page assms(2,4) by blast
qed

lemma alloc_user_ok:
  assumes "vm_ok s D" "palloc_get_page (mem s) flags = Some (m, p)" "has_flag flags PAL_USER"
  shows "vm_ok (s\<lparr>mem := m\<rparr>) D"
  using palloc_get_page_ok [OF vm_okD(1) [OF assms(1)], of flags]
proof (elim disjE exE conjE)
  fix m' p'
  assume a: "palloc_get_page (mem s) flags = Some (m', p')" "palloc_ok m'" "kpage p'" "p' \<notin> in_use (kernel_pool (mem s))" "extent m' = extent (mem s)"
    "in_use (kernel_pool m') = (if has_flag flags PAL_USER then in_use (kernel_pool (mem s)) else insert p' (in_use (kernel_pool (mem s))))"
    "in_use (user_pool m') = (if has_flag flags PAL_USER then insert p' (in_use (user_pool (mem s))) else in_use (user_pool (mem s)))"
    "words m' = (if has_flag flags PAL_ZERO then fill_words (words (mem s)) p' PGSIZE 0 else words (mem s))"
  have m: "m' = m" using a(1) assms(2) by simp
  have ag: "agree (own (mem s) D) (words (mem s)) (words m)"
    by (rule own_user [OF assms(1) a(3,4)]) (use a(8) in \<open>simp add: m fill_words_def\<close>)
  show ?thesis
  proof (rule vm_ok_agree [OF assms(1) _ _ ag])
    show "own (mem s) D \<subseteq> in_use (kernel_pool m)" using own_in_use [OF vm_okD(2) [OF assms(1)]] a(6) assms(3) m by simp
    show "q \<in> in_use (user_pool m)" if "pd \<in> D" "k < user_pages" "frame (mem s) pd k = Some q" for pd k q
      using dirs_okD(7) [OF vm_okD(2) [OF assms(1)] that] a(7) assms(3) m by simp
  qed (use a(2,5) m in simp_all)
next
  assume "palloc_get_page (mem s) flags = (if has_flag flags PAL_ASSERT then None else Some (mem s, NULL))"
  then have "m = mem s" using assms(2) by (simp split: if_splits)
  then show ?thesis using assms(1) by simp
qed

lemma free_user_ok:
  assumes "vm_ok s D" "unmapped s D p" "palloc_free_page (mem s) p = Some m"
  shows "vm_ok (s\<lparr>mem := m\<rparr>) D"
proof -
  note ok = vm_okD [OF assms(1)]
  have p: "p \<in> in_use (user_pool (mem s))" "\<forall>pd \<in> D. \<forall>k < user_pages. frame (mem s) pd k \<noteq> Some p" using assms(2) by (simp_all add: unmapped_def)
  have m: "palloc_ok m" "extent m = extent (mem s)" "in_use (user_pool m) = in_use (user_pool (mem s)) - {p}" "kernel_pool m = kernel_pool (mem s)"
      "words m = fill_words (words (mem s)) p PGSIZE 0xcccccccc"
    using palloc_free_page_ok [OF ok(1), of p True] p(1) assms(3) by (auto simp: get_pool_def)
  have pk: "kpage p" "p \<notin> in_use (kernel_pool (mem s))" using user_kpage [OF ok(1) p(1)] pools_disjoint [OF ok(1)] p(1) by auto
  have ag: "agree (own (mem s) D) (words (mem s)) (words m)" by (rule own_user [OF assms(1) pk]) (simp add: m(5) fill_words_def)
  show ?thesis
  proof (rule vm_ok_agree [OF assms(1) m(1,2) ag])
    show "own (mem s) D \<subseteq> in_use (kernel_pool m)" using own_in_use [OF ok(2)] m(4) by simp
    show "q \<in> in_use (user_pool m)" if "pd \<in> D" "k < user_pages" "frame (mem s) pd k = Some q" for pd k q
      using dirs_okD(7) [OF ok(2) that] p(2) that m(3) by auto
  qed
qed

lemma cpu_write_ok:
  assumes "vm_ok s D" "p \<in> in_use (user_pool (mem s))" "a < PGSIZE"
  shows "vm_ok (store_word s (p + a) v) D"
proof -
  note ok = vm_okD [OF assms(1)]
  have pk: "kpage p" "p \<notin> in_use (kernel_pool (mem s))" using user_kpage [OF ok(1) assms(2)] pools_disjoint [OF ok(1)] assms(2) by auto
  have ag: "agree (own (mem s) D) (words (mem s)) ((words (mem s))(p + a := v))" by (rule own_user [OF assms(1) pk]) (use assms(3) in auto)
  show ?thesis unfolding store_word_def
    by (rule vm_ok_agree [OF assms(1)]) (use ok(1) ag own_in_use [OF ok(2)] dirs_okD(7) [OF ok(2)] in simp_all)
qed

lemma cpu_access_ok:
  assumes "vm_ok s D" "k < user_pages" "table (mem s) (active s) (k div 1024) = Some t" "e = words (mem s) (t + 4 * (k mod 1024))" "bit e 0"
    "e' = e OR PTE_A OR (if wr then PTE_D else 0)"
  shows "vm_ok ((store_word s (t + 4 * (k mod 1024)) e')\<lparr>tlb := (tlb s)(k := Some e')\<rparr>) D"
proof -
  note ok = vm_okD [OF assms(1)]
  have en: "entry (mem s) (active s) k = Some e" using assms(3,4) by (simp add: entry_def)
  have eb: "bit e' n \<longleftrightarrow> bit e n \<or> n = 5 \<or> n = 6 \<and> wr" for n using assms(6) by (auto simp: bit_or_iff AD_bits)
  have e6: "\<forall>n. n \<noteq> 5 \<and> n \<noteq> 6 \<longrightarrow> bit e' n = bit e n" using eb by auto
  let ?s = "store_word s (t + 4 * (k mod 1024)) e'"
  note st = vm_ok_store [OF assms(1) ok(4) assms(2,3) reflag_fits(1) [OF ok(2,4) assms(2) en e6] refl]
  have "cached c e'" if "tlb s k = Some c" for c
  proof -
    have "cached c e" using ok(5) that assms(2) en unfolding tlb_ok_def by auto
    then show ?thesis using eb unfolding cached_def by auto
  qed
  then have v: "vm_ok ?s D" using st(4) by blast
  have "cached e' e'" using eb assms(5) by (auto simp: cached_def)
  then have "tlb_ok (?s\<lparr>tlb := (tlb s)(k := Some e')\<rparr>)"
    using vm_okD(5) [OF v] st(2) [OF ok(4) assms(2)] by (auto simp: tlb_ok_def active_def)
  then show ?thesis using v by (simp add: vm_ok_def active_def)
qed

lemma unmapped_frame:
  assumes "vm_ok s D" "pd \<in> D" "u < PHYS_BASE" "pagedir_get_page s pd u = Some NULL"
  shows "frame (mem s) pd (u div PGSIZE) = None"
proof (rule ccontr)
  note v = vm_okD [OF assms(1)]
  assume "frame (mem s) pd (u div PGSIZE) \<noteq> None"
  then obtain p where p: "frame (mem s) pd (u div PGSIZE) = Some p" by blast
  then have "p + u mod PGSIZE = NULL" using pagedir_get_page_frame [OF assms(1-3)] assms(4) by simp
  moreover have "kpage p" using user_kpage [OF v(1) dirs_okD(7) [OF v(2) assms(2) user_indices(1) [OF assms(3)] p]] .
  ultimately show False by (simp add: kpage_def)
qed

lemma vm_step_ok:
  assumes "vm_step x y" "vm_ok (fst x) (snd x)"
  shows "vm_ok (fst y) (snd y)"
  using assms
proof (induction rule: vm_step.induct)
  case (create s s' pd D)
  then show ?case using pagedir_create_ok [of s D] by auto
next
  case (set_page pd D s u kp w s' r)
  have ok: "vm_ok s D" using set_page.prems by simp
  have un: "kp \<in> in_use (user_pool (mem s))" "\<forall>pd' \<in> D. \<forall>l < user_pages. frame (mem s) pd' l \<noteq> Some kp"
    using set_page.hyps(5) by (simp_all add: unmapped_def)
  have "frame (mem s) pd (u div PGSIZE) = None" using unmapped_frame [OF ok set_page.hyps(1,3,6)] .
  then show ?case using pagedir_set_page_ok [OF ok set_page.hyps(1-4) un, of w] set_page.hyps(7) ok by auto
next
  case (clear_page pd D u s s')
  then show ?case using pagedir_clear_page_ok [of s D pd u] by auto
next
  case (set_dirty pd D u s v s')
  then show ?case using set_flag_ok [of s D pd u PTE_D 6 v] by (auto simp: flag_ops)
next
  case (set_accessed pd D u s v s')
  then show ?case using set_flag_ok [of s D pd u PTE_A 5 v] by (auto simp: flag_ops)
next
  case (activate pd D s s')
  then show ?case using pagedir_activate_ok [of s D pd] by auto
next
  case (destroy pd D s s')
  then show ?case using pagedir_destroy_ok [of s D pd] by auto
next
  case (cpu_access k s t e e' wr D)
  then show ?case using cpu_access_ok [of s D k t e e' wr] by simp
qed (auto intro: alloc_user_ok free_user_ok cpu_write_ok)

lemma vm_reach_ok: "vm_step\<^sup>*\<^sup>* x y \<Longrightarrow> vm_ok (fst x) (snd x) \<Longrightarrow> vm_ok (fst y) (snd y)"
  by (induction rule: rtranclp_induct) (auto intro: vm_step_ok)

section \<open>Properties\<close>

definition tiny_vm :: mmu where
  "tiny_vm = \<lparr>mem = \<lparr>words = \<lambda>_. 0, kernel_pool = \<lparr>used_map = \<lparr>bit_cnt = 8, bits = [3]\<rparr>, p_base = 0xc0100000\<rparr>,
       user_pool = \<lparr>used_map = \<lparr>bit_cnt = 8, bits = [1]\<rparr>, p_base = 0xc0200000\<rparr>, init_ram_pages = 1024\<rparr>,
     m_cr3 = 0x100000, m_init_page_dir = 0xc0100000, tlb = \<lambda>_. None\<rparr>"

definition tiny_dirs :: "ptr set" where
  "tiny_dirs = {0xc0100000, 0xc0101000}"

lemma tiny_table: "table (mem tiny_vm) pd i = None" "entry (mem tiny_vm) pd k = None" "frame (mem tiny_vm) pd k = None"
  by (simp_all add: table_def entry_def frame_def tiny_vm_def)

lemma tiny_bits: "bbit \<lparr>bit_cnt = 8, bits = [3]\<rparr> 0" "bbit \<lparr>bit_cnt = 8, bits = [3]\<rparr> (Suc 0)" "bbit \<lparr>bit_cnt = 8, bits = [1]\<rparr> 0"
  by (simp_all add: bbit_def elem_idx_def bit_numeral_rec)

lemma in_use_page_at: "i < bit_cnt (used_map p) \<Longrightarrow> bbit (used_map p) i \<Longrightarrow> page_at p i \<in> in_use p"
  unfolding in_use_def by blast

lemma tiny_in_use: "0xc0100000 \<in> in_use (kernel_pool (mem tiny_vm))" "0xc0101000 \<in> in_use (kernel_pool (mem tiny_vm))"
  "0xc0200000 \<in> in_use (user_pool (mem tiny_vm))"
  using in_use_page_at [of 0 "kernel_pool (mem tiny_vm)"] in_use_page_at [of 1 "kernel_pool (mem tiny_vm)"]
    in_use_page_at [of 0 "user_pool (mem tiny_vm)"] tiny_bits
  by (simp_all add: page_at_def tiny_vm_def)

lemma tiny_vm_ok: "vm_ok tiny_vm tiny_dirs"
proof -
  have "ram_ok (mem tiny_vm)"
    by (simp add: ram_ok_def palloc_ok_def tiny_vm_def pool_ok_def wf_bitmap_def elem_cnt_def DIV_ROUND_UP_eq kpage_def pool_end_def)
  moreover have "dirs_ok (mem tiny_vm) tiny_dirs"
    unfolding dirs_ok_def tiny_table using tiny_in_use(1,2) by (simp add: tiny_dirs_def) (simp add: tiny_vm_def)
  moreover have "m_init_page_dir tiny_vm \<in> tiny_dirs" "active tiny_vm \<in> tiny_dirs" "tlb_ok tiny_vm"
    by (simp_all add: tiny_vm_def tiny_dirs_def active_def tlb_ok_def)
  ultimately show ?thesis by (simp add: vm_ok_def tiny_table)
qed

lemma tiny_mapped:
  obtains s' where "vm_step (tiny_vm, tiny_dirs) (s', tiny_dirs)" "pagedir_get_page s' 0xc0101000 0x8048123 = Some 0xc0200123"
proof -
  let ?pd = "0xc0101000 :: nat" let ?u = "0x8048000 :: nat"
  have pd: "?pd \<in> tiny_dirs" "?pd \<noteq> m_init_page_dir tiny_vm" by (simp_all add: tiny_dirs_def tiny_vm_def)
  have un: "unmapped tiny_vm tiny_dirs 0xc0200000" using tiny_in_use(3) by (simp add: unmapped_def tiny_table)
  have "\<not> bbit \<lparr>bit_cnt = 8, bits = [3]\<rparr> 2" by (simp add: bbit_def elem_idx_def bit_numeral_rec)
  then have "free_run 8 (bbit \<lparr>bit_cnt = 8, bits = [3]\<rparr>) 2 1" by (auto simp: free_run_def less_Suc_eq numeral_2_eq_2 dest: le_antisym)
  then have "\<not> kernel_full (mem tiny_vm)" by (auto simp: kernel_full_def tiny_vm_def)
  then obtain s' where s': "pagedir_set_page tiny_vm ?pd ?u 0xc0200000 True = Some (s', True)" "vm_ok s' tiny_dirs"
      "\<forall>pd' \<in> tiny_dirs. \<forall>l < user_pages. frame (mem s') pd' l = (if pd' = ?pd \<and> l = ?u div PGSIZE then Some 0xc0200000 else frame (mem tiny_vm) pd' l)"
    using pagedir_set_page_ok [OF tiny_vm_ok pd, of ?u "0xc0200000" True] un by (auto simp: unmapped_def tiny_table)
  have "pagedir_get_page tiny_vm ?pd ?u = Some NULL" using pagedir_get_page_frame [OF tiny_vm_ok pd(1), of ?u] by (simp add: tiny_table)
  then have "vm_step (tiny_vm, tiny_dirs) (s', tiny_dirs)" using vm_step.set_page [OF pd _ _ un _ s'(1)] by simp
  moreover have "pagedir_get_page s' ?pd 0x8048123 = Some 0xc0200123"
    using pagedir_get_page_frame [OF s'(2) pd(1), of "0x8048123"] s'(3) pd(1) by simp
  ultimately show thesis by (rule that)
qed

text \<open>
  C15. Isolation of address spaces: from a state with well-formed directories, whatever sequence of operations,
  allocations and accesses follows, looking up a user address in a directory returns, two
  different pages of any directories never lie in one frame, and each translation that the processor has cached
  is the one that the active directory gives.
\<close>

theorem address_space_isolation:
  assumes "vm_ok s D" "vm_step\<^sup>*\<^sup>* (s, D) (s', D')"
  shows "(\<forall>pd \<in> D'. \<forall>va < PHYS_BASE. pagedir_get_page s' pd va \<noteq> None)
    \<and> (\<forall>pd \<in> D'. \<forall>pd' \<in> D'. \<forall>va < PHYS_BASE. \<forall>va' < PHYS_BASE. \<forall>a a'.
      pagedir_get_page s' pd va = Some a \<and> a \<noteq> NULL \<and> pagedir_get_page s' pd' va' = Some a' \<and> a' \<noteq> NULL \<and> a div PGSIZE = a' div PGSIZE
      \<longrightarrow> pd = pd' \<and> va div PGSIZE = va' div PGSIZE)
    \<and> (\<forall>va < PHYS_BASE. \<forall>e. tlb s' (va div PGSIZE) = Some e
      \<longrightarrow> map_option (\<lambda>p. p + va mod PGSIZE) (pte_get_page e) = pagedir_get_page s' (active s') va)"
proof (intro conjI)
  have ok: "vm_ok s' D'" using vm_reach_ok [OF assms(2)] assms(1) by simp
  note get = pagedir_get_page_frame [OF ok] note v = vm_okD [OF ok]
  show "\<forall>pd \<in> D'. \<forall>va < PHYS_BASE. pagedir_get_page s' pd va \<noteq> None" using get by simp
  show "\<forall>pd \<in> D'. \<forall>pd' \<in> D'. \<forall>va < PHYS_BASE. \<forall>va' < PHYS_BASE. \<forall>a a'.
      pagedir_get_page s' pd va = Some a \<and> a \<noteq> NULL \<and> pagedir_get_page s' pd' va' = Some a' \<and> a' \<noteq> NULL \<and> a div PGSIZE = a' div PGSIZE
      \<longrightarrow> pd = pd' \<and> va div PGSIZE = va' div PGSIZE"
  proof (intro ballI allI impI, elim conjE)
    fix pd pd' va va' a a'
    assume d: "pd \<in> D'" "pd' \<in> D'" "va < PHYS_BASE" "va' < PHYS_BASE" and g: "pagedir_get_page s' pd va = Some a" "a \<noteq> NULL"
      "pagedir_get_page s' pd' va' = Some a'" "a' \<noteq> NULL" "a div PGSIZE = a' div PGSIZE"
    obtain p where p: "frame (mem s') pd (va div PGSIZE) = Some p" "a = p + va mod PGSIZE" using get [OF d(1,3)] g(1,2) by (auto split: option.splits)
    obtain p' where p': "frame (mem s') pd' (va' div PGSIZE) = Some p'" "a' = p' + va' mod PGSIZE" using get [OF d(2,4)] g(3,4) by (auto split: option.splits)
    note i = user_indices(1) [OF d(3)] user_indices(1) [OF d(4)]
    have "p mod PGSIZE = 0" "p' mod PGSIZE = 0"
      using user_kpage [OF v(1) dirs_okD(7) [OF v(2) d(1) i(1) p(1)]] user_kpage [OF v(1) dirs_okD(7) [OF v(2) d(2) i(2) p'(1)]] by (simp_all add: kpage_def)
    moreover have "p = PGSIZE * (a div PGSIZE)" "p' = PGSIZE * (a' div PGSIZE)" using p(2) p'(2) calculation by auto
    ultimately have "p = p'" using g(5) by simp
    then show "pd = pd' \<and> va div PGSIZE = va' div PGSIZE" using dirs_okD(8) [OF v(2) d(1,2) i] p(1) p'(1) by simp
  qed
  show "\<forall>va < PHYS_BASE. \<forall>e. tlb s' (va div PGSIZE) = Some e
      \<longrightarrow> map_option (\<lambda>p. p + va mod PGSIZE) (pte_get_page e) = pagedir_get_page s' (active s') va"
  proof (intro allI impI)
    fix va e assume a: "va < PHYS_BASE" "tlb s' (va div PGSIZE) = Some e"
    obtain e' where e': "entry (mem s') (active s') (va div PGSIZE) = Some e'" "cached e e'"
      using v(5) a user_indices(1) unfolding tlb_ok_def by blast
    have "bit e' 0" "pte_get_page e = pte_get_page e'" using e'(2) pte_get_page_cong [of e e'] by (auto simp: cached_def)
    moreover obtain p where "frame (mem s') (active s') (va div PGSIZE) = Some p"
      using dirs_okD(6) [OF v(2,4) user_indices(1) [OF a(1)] e'(1)] calculation(1) by blast
    ultimately show "map_option (\<lambda>p. p + va mod PGSIZE) (pte_get_page e) = pagedir_get_page s' (active s') va"
      unfolding get [OF v(4) a(1)] using e'(1) by (simp add: frame_def)
  qed
qed

theorem address_space_isolation_witness:
  "\<exists>s'. vm_step\<^sup>*\<^sup>* (tiny_vm, tiny_dirs) (s', tiny_dirs) \<and> pagedir_get_page s' 0xc0101000 0x8048123 = Some 0xc0200123
    \<and> pagedir_get_page s' 0xc0100000 0x8048123 \<noteq> None \<and> pagedir_get_page s' 0xc0100000 0x8048123 \<noteq> Some 0xc0200123"
proof -
  obtain s' where s': "vm_step (tiny_vm, tiny_dirs) (s', tiny_dirs)" "pagedir_get_page s' 0xc0101000 0x8048123 = Some 0xc0200123"
    by (rule tiny_mapped)
  have pd: "0xc0100000 \<in> tiny_dirs" "0xc0101000 \<in> tiny_dirs" by (simp_all add: tiny_dirs_def)
  have r: "vm_step\<^sup>*\<^sup>* (tiny_vm, tiny_dirs) (s', tiny_dirs)" using s'(1) by (rule r_into_rtranclp)
  note iso = address_space_isolation [OF tiny_vm_ok r]
  have "pagedir_get_page s' 0xc0100000 0x8048123 \<noteq> None" using iso pd(1) by simp
  moreover have "pagedir_get_page s' 0xc0100000 0x8048123 \<noteq> Some 0xc0200123"
    using conjunct1 [OF conjunct2 [OF iso], rule_format, OF pd, of "0x8048123" "0x8048123" "0xc0200123" "0xc0200123"] s'(2) by auto
  ultimately show ?thesis using r s'(2) by blast
qed

text \<open>
  C16. Mapping a page: for an unmapped user page and a frame that no directory maps, \<^verbatim>\<open>pagedir_set_page\<close> keeps all
  directories well formed, and afterwards the addresses of the page translate to the frame while every
  other address of every directory translates as before; it fails only if the kernel has no page left for
  a page table, and then changes nothing.
\<close>

theorem pagedir_set_get:
  assumes "vm_ok s D" "pd \<in> D" "pd \<noteq> m_init_page_dir s" "u < PHYS_BASE" "u mod PGSIZE = 0" "unmapped s D kp"
    "pagedir_get_page s pd u = Some NULL"
  shows "(\<exists>s'. pagedir_set_page s pd u kp w = Some (s', True) \<and> vm_ok s' D
      \<and> (\<forall>pd' \<in> D. \<forall>va < PHYS_BASE. pagedir_get_page s' pd' va
          = (if pd' = pd \<and> va div PGSIZE = u div PGSIZE then Some (kp + va mod PGSIZE) else pagedir_get_page s pd' va)))
    \<or> pagedir_set_page s pd u kp w = Some (s, False) \<and> kernel_full (mem s)"
proof -
  note v = vm_okD [OF assms(1)]
  have un: "kp \<in> in_use (user_pool (mem s))" "\<forall>pd' \<in> D. \<forall>l < user_pages. frame (mem s) pd' l \<noteq> Some kp"
    using assms(6) by (simp_all add: unmapped_def)
  have "frame (mem s) pd (u div PGSIZE) = None" using unmapped_frame [OF assms(1,2,4,7)] .
  from pagedir_set_page_ok [OF assms(1-5) un this, of w] show ?thesis
  proof (elim disjE exE conjE)
    fix s'
    assume a: "pagedir_set_page s pd u kp w = Some (s', True)" "vm_ok s' D"
      "\<forall>pd' \<in> D. \<forall>l < user_pages. frame (mem s') pd' l = (if pd' = pd \<and> l = u div PGSIZE then Some kp else frame (mem s) pd' l)"
    have "pagedir_get_page s' pd' va = (if pd' = pd \<and> va div PGSIZE = u div PGSIZE then Some (kp + va mod PGSIZE) else pagedir_get_page s pd' va)"
      if "pd' \<in> D" "va < PHYS_BASE" for pd' va
      using a(3) that user_indices(1) [OF that(2)]
      unfolding pagedir_get_page_frame [OF a(2) that] pagedir_get_page_frame [OF assms(1) that] by simp
    then show ?thesis using a(1,2) by blast
  qed blast
qed

theorem pagedir_set_get_witness:
  "(\<exists>s'. pagedir_set_page tiny_vm 0xc0101000 0x8048000 0xc0200000 True = Some (s', True) \<and> vm_ok s' tiny_dirs
      \<and> (\<forall>pd' \<in> tiny_dirs. \<forall>va < PHYS_BASE. pagedir_get_page s' pd' va
          = (if pd' = 0xc0101000 \<and> va div PGSIZE = 0x8048000 div PGSIZE then Some (0xc0200000 + va mod PGSIZE) else pagedir_get_page tiny_vm pd' va)))
    \<or> pagedir_set_page tiny_vm 0xc0101000 0x8048000 0xc0200000 True = Some (tiny_vm, False) \<and> kernel_full (mem tiny_vm)"
proof (rule pagedir_set_get [OF tiny_vm_ok])
  show pd: "0xc0101000 \<in> tiny_dirs" by (simp add: tiny_dirs_def)
  show "unmapped tiny_vm tiny_dirs 0xc0200000" using tiny_in_use(3) by (simp add: unmapped_def tiny_table)
  show "pagedir_get_page tiny_vm 0xc0101000 0x8048000 = Some NULL" using pagedir_get_page_frame [OF tiny_vm_ok pd] by (simp add: tiny_table)
qed (simp_all add: tiny_vm_def)

text \<open>
  C17. Destroying a directory that is neither active nor the initial one gives back exactly its page tables and
  itself to the kernel pool and the frames it maps to the user pool, and leaves every translation of
  the other directories unchanged.
\<close>

theorem pagedir_destroy_frees:
  assumes "vm_ok s D" "pd \<in> D" "pd \<noteq> m_init_page_dir s" "pd \<noteq> active s"
  shows "\<exists>s'. pagedir_destroy s pd = Some s' \<and> vm_ok s' (D - {pd})
    \<and> in_use (kernel_pool (mem s')) = in_use (kernel_pool (mem s)) - {pd} - {t. \<exists>i < 768. table (mem s) pd i = Some t}
    \<and> in_use (user_pool (mem s')) = in_use (user_pool (mem s)) - {p. p \<noteq> NULL \<and> (\<exists>va < PHYS_BASE. va mod PGSIZE = 0 \<and> pagedir_get_page s pd va = Some p)}
    \<and> (\<forall>pd' \<in> D - {pd}. \<forall>va < PHYS_BASE. pagedir_get_page s' pd' va = pagedir_get_page s pd' va)"
proof -
  note v = vm_okD [OF assms(1)]
  obtain s' where s': "pagedir_destroy s pd = Some s'" "vm_ok s' (D - {pd})" "in_use (kernel_pool (mem s')) = in_use (kernel_pool (mem s)) - own (mem s) {pd}"
      "in_use (user_pool (mem s')) = in_use (user_pool (mem s)) - {p. \<exists>k < user_pages. frame (mem s) pd k = Some p}"
      "\<forall>q \<in> D - {pd}. \<forall>k < user_pages. frame (mem s') q k = frame (mem s) q k"
    using pagedir_destroy_ok [OF assms] by blast
  have fr: "(\<exists>k < user_pages. frame (mem s) pd k = Some p)
      \<longleftrightarrow> p \<noteq> NULL \<and> (\<exists>va < PHYS_BASE. va mod PGSIZE = 0 \<and> pagedir_get_page s pd va = Some p)" for p
  proof (intro iffI; elim exE conjE)
    fix k assume k: "k < user_pages" "frame (mem s) pd k = Some p"
    have "kpage p" using user_kpage [OF v(1) dirs_okD(7) [OF v(2) assms(2) k]] .
    then show "p \<noteq> NULL \<and> (\<exists>va < PHYS_BASE. va mod PGSIZE = 0 \<and> pagedir_get_page s pd va = Some p)"
      using k pagedir_get_page_frame [OF assms(1,2), of "PGSIZE * k"] by (auto simp: kpage_def intro!: exI [of _ "PGSIZE * k"])
  next
    fix va assume a: "p \<noteq> NULL" "va < PHYS_BASE" "va mod PGSIZE = 0" "pagedir_get_page s pd va = Some p"
    then show "\<exists>k < user_pages. frame (mem s) pd k = Some p" using user_indices(1) [OF a(2)] pagedir_get_page_frame [OF assms(1,2) a(2)]
      by (intro exI [of _ "va div PGSIZE"]) (auto split: option.splits)
  qed
  have U: "{p. \<exists>k < user_pages. frame (mem s) pd k = Some p}
      = {p. p \<noteq> NULL \<and> (\<exists>va < PHYS_BASE. va mod PGSIZE = 0 \<and> pagedir_get_page s pd va = Some p)}" by (rule Collect_cong) (rule fr)
  have K: "own (mem s) {pd} = {pd} \<union> {t. \<exists>i < 768. table (mem s) pd i = Some t}" by (simp add: own_def)
  have "pagedir_get_page s' q va = pagedir_get_page s q va" if "q \<in> D - {pd}" "va < PHYS_BASE" for q va
    using pagedir_get_page_frame [OF s'(2) that] pagedir_get_page_frame [OF assms(1) _ that(2), of q] s'(5) that user_indices(1) [OF that(2)] by simp
  then show ?thesis using s'(1-4) unfolding U K by (intro exI [of _ s']) (simp add: set_diff_eq)
qed

theorem pagedir_destroy_frees_witness:
  "\<exists>s'. pagedir_destroy tiny_vm 0xc0101000 = Some s' \<and> vm_ok s' (tiny_dirs - {0xc0101000})
    \<and> in_use (kernel_pool (mem s')) = in_use (kernel_pool (mem tiny_vm)) - {0xc0101000} - {t. \<exists>i < 768. table (mem tiny_vm) 0xc0101000 i = Some t}
    \<and> in_use (user_pool (mem s')) = in_use (user_pool (mem tiny_vm))
        - {p. p \<noteq> NULL \<and> (\<exists>va < PHYS_BASE. va mod PGSIZE = 0 \<and> pagedir_get_page tiny_vm 0xc0101000 va = Some p)}
    \<and> (\<forall>pd' \<in> tiny_dirs - {0xc0101000}. \<forall>va < PHYS_BASE. pagedir_get_page s' pd' va = pagedir_get_page tiny_vm pd' va)"
  by (rule pagedir_destroy_frees [OF tiny_vm_ok]) (simp_all add: tiny_dirs_def, simp_all add: tiny_vm_def active_def)

end
