(* ===== verification/Threads.thy ===== *)
theory Threads
  imports Interfaces VAddr
begin

text \<open>
  Kernel threads and the scheduler (\<^verbatim>\<open>threads/thread.c\<close>), with the interrupt-level
  primitives of \<^verbatim>\<open>threads/interrupt.c\<close> and the parts of \<^verbatim>\<open>userprog/process.c\<close> and
  \<^verbatim>\<open>userprog/tss.c\<close> that run on a context switch.

  The state of the machine that these functions see is one record. A thread is named by the
  address of its page; \<open>thr\<close> maps it to its \<^verbatim>\<open>struct thread\<close>, and \<open>running\<close> is the page the
  stack pointer points into. Run queue, list of all threads and semaphore wait lists are lists of
  thread addresses: the embedding of list elements in structures is the subject of the list
  library, whose operations are shown there to implement these list operations. A context
  switch happens inside \<^verbatim>\<open>schedule\<close>; what the thread that is switched in has left to do in the
  kernel is recorded in \<open>kont\<close>, one frame per suspended call.
\<close>

section \<open>Data\<close>

datatype thread_status = THREAD_RUNNING | THREAD_READY | THREAD_BLOCKED | THREAD_DYING

record fd_elem =
  fd_num :: nat
  fd_file :: ptr
  fd_name :: ptr

record sub_thread =
  st_pid :: int
  st_exit_code :: int

record thread =
  t_tid :: int
  t_status :: thread_status
  t_name :: "u8 list"
  t_stack :: nat
  t_priority :: int
  t_pagedir :: ptr
  t_magic :: u32
  t_fd_list :: "fd_elem list"
  t_sub_threads :: "sub_thread list"
  t_pt :: ptr
  t_is_waited_by_parent :: bool
  t_executable_f :: ptr

record semaphore =
  s_value :: nat
  s_waiters :: "ptr list"

text \<open>
  Suspended kernel calls: the rest of \<^verbatim>\<open>thread_yield\<close> (restore the interrupt level), the return
  from an interrupt, the loop of \<^verbatim>\<open>sema_down\<close> and a call of it, the assignment of the holder in
  \<^verbatim>\<open>lock_acquire\<close>, the \<^verbatim>\<open>sema_up\<close> of \<^verbatim>\<open>lock_release\<close>, the call of \<^verbatim>\<open>lock_acquire\<close> that ends
  \<^verbatim>\<open>cond_wait\<close>, the rest of \<^verbatim>\<open>process_wait\<close>, the start of a new thread, and the loop of the idle
  thread.
\<close>

datatype kframe =
    KYield bool
  | KIret bool
  | KDown ptr bool
  | KSema ptr
  | KHolder ptr
  | KUp ptr
  | KAcquire ptr
  | KWait int bool
  | KStart
  | KIdle

record kernel =
  thr :: "ptr \<Rightarrow> thread option"
  ready_list :: "ptr list"
  all_list :: "ptr list"
  running :: ptr
  idle_thread :: ptr
  initial_thread :: ptr
  next_tid :: int
  idle_ticks :: nat
  kernel_ticks :: nat
  user_ticks :: nat
  thread_ticks :: nat
  intr_on :: bool
  in_external_intr :: bool
  yield_on_return :: bool
  cr3 :: ptr
  init_page_dir :: ptr
  tss_esp0 :: nat
  sema :: "ptr \<Rightarrow> semaphore"
  holder :: "ptr \<Rightarrow> ptr"
  cond :: "ptr \<Rightarrow> ptr list"
  kont :: "ptr \<Rightarrow> kframe list"
  closed_files :: "ptr list"
  freed_pagedirs :: "ptr list"

definition THREAD_MAGIC :: u32 where
  "THREAD_MAGIC = 0xcd6abf4b"

definition THREAD_FILES_MAX :: nat where
  "THREAD_FILES_MAX = 16"

definition TIME_SLICE :: nat where
  "TIME_SLICE = 4"

definition PRI_MIN :: int where
  "PRI_MIN = 0"

definition PRI_DEFAULT :: int where
  "PRI_DEFAULT = 31"

definition PRI_MAX :: int where
  "PRI_MAX = 63"

definition TID_ERROR :: int where
  "TID_ERROR = - 1"

definition upd_thread :: "kernel \<Rightarrow> ptr \<Rightarrow> (thread \<Rightarrow> thread) \<Rightarrow> kernel option" where
  "upd_thread s p f = (case thr s p of None \<Rightarrow> None | Some t \<Rightarrow> Some (s\<lparr>thr := (thr s)(p \<mapsto> f t)\<rparr>))"

section \<open>Interrupt levels\<close>

definition intr_context :: "kernel \<Rightarrow> bool" where
  "intr_context s = in_external_intr s"

definition intr_get_level :: "kernel \<Rightarrow> bool" where
  "intr_get_level s = intr_on s"

definition intr_enable :: "kernel \<Rightarrow> (kernel \<times> bool) option" where
  "intr_enable s = do {
     ASSERT (\<not> intr_context s);
     Some (s\<lparr>intr_on := True\<rparr>, intr_get_level s)
   }"

definition intr_disable :: "kernel \<Rightarrow> kernel \<times> bool" where
  "intr_disable s = (s\<lparr>intr_on := False\<rparr>, intr_get_level s)"

definition intr_set_level :: "kernel \<Rightarrow> bool \<Rightarrow> kernel option" where
  "intr_set_level s level =
     (if level then map_option fst (intr_enable s) else Some (fst (intr_disable s)))"

definition intr_yield_on_return :: "kernel \<Rightarrow> kernel option" where
  "intr_yield_on_return s = do {
     ASSERT (intr_context s);
     Some (s\<lparr>yield_on_return := True\<rparr>)
   }"

section \<open>The running thread\<close>

definition is_thread :: "kernel \<Rightarrow> ptr \<Rightarrow> bool" where
  "is_thread s t \<longleftrightarrow> t \<noteq> NULL \<and> (case thr s t of None \<Rightarrow> False | Some th \<Rightarrow> t_magic th = THREAD_MAGIC)"

definition running_thread :: "kernel \<Rightarrow> ptr" where
  "running_thread s = running s"

definition thread_current :: "kernel \<Rightarrow> ptr option" where
  "thread_current s = do {
     ASSERT (is_thread s (running_thread s));
     t \<leftarrow> thr s (running_thread s);
     ASSERT (t_status t = THREAD_RUNNING);
     Some (running_thread s)
   }"

definition current_struct :: "kernel \<Rightarrow> thread option" where
  "current_struct s = do { c \<leftarrow> thread_current s; thr s c }"

definition thread_tid :: "kernel \<Rightarrow> int option" where
  "thread_tid s = map_option t_tid (current_struct s)"

definition thread_name :: "kernel \<Rightarrow> u8 list option" where
  "thread_name s = map_option t_name (current_struct s)"

definition thread_get_priority :: "kernel \<Rightarrow> int option" where
  "thread_get_priority s = map_option t_priority (current_struct s)"

definition thread_set_priority :: "kernel \<Rightarrow> int \<Rightarrow> kernel option" where
  "thread_set_priority s p = do {
     c \<leftarrow> thread_current s;
     upd_thread s c (\<lambda>t. t\<lparr>t_priority := p\<rparr>)
   }"

section \<open>Context switch\<close>

definition pagedir_activate :: "kernel \<Rightarrow> ptr \<Rightarrow> kernel" where
  "pagedir_activate s pd = s\<lparr>cr3 := (if pd = NULL then init_page_dir s else pd)\<rparr>"

definition tss_update :: "kernel \<Rightarrow> kernel option" where
  "tss_update s = do {
     c \<leftarrow> thread_current s;
     Some (s\<lparr>tss_esp0 := c + PGSIZE\<rparr>)
   }"

definition process_activate :: "kernel \<Rightarrow> kernel option" where
  "process_activate s = do {
     t \<leftarrow> current_struct s;
     tss_update (pagedir_activate s (t_pagedir t))
   }"

definition next_thread_to_run :: "kernel \<Rightarrow> kernel \<times> ptr" where
  "next_thread_to_run s = (case ready_list s of
       [] \<Rightarrow> (s, idle_thread s)
     | t # ts \<Rightarrow> (s\<lparr>ready_list := ts\<rparr>, t))"

definition thread_schedule_tail :: "kernel \<Rightarrow> ptr \<Rightarrow> kernel option" where
  "thread_schedule_tail s prev = do {
     let cur = running_thread s;
     ASSERT (\<not> intr_get_level s);
     s \<leftarrow> upd_thread s cur (\<lambda>t. t\<lparr>t_status := THREAD_RUNNING\<rparr>);
     let s = s\<lparr>thread_ticks := 0\<rparr>;
     s \<leftarrow> process_activate s;
     if prev \<noteq> NULL then do {
       p \<leftarrow> thr s prev;
       if t_status p = THREAD_DYING \<and> prev \<noteq> initial_thread s then do {
         ASSERT (prev \<noteq> cur);
         Some (s\<lparr>thr := (thr s)(prev := None)\<rparr>)
       } else Some s
     } else Some s
   }"

definition schedule :: "kernel \<Rightarrow> kernel option" where
  "schedule s = do {
     let cur = running_thread s;
     let (s, nxt) = next_thread_to_run s;
     ASSERT (\<not> intr_get_level s);
     t \<leftarrow> thr s cur;
     ASSERT (t_status t \<noteq> THREAD_RUNNING);
     ASSERT (is_thread s nxt);
     if cur \<noteq> nxt then thread_schedule_tail (s\<lparr>running := nxt\<rparr>) cur
     else thread_schedule_tail s NULL
   }"

section \<open>Blocking, waking, yielding\<close>

definition thread_block :: "kernel \<Rightarrow> kernel option" where
  "thread_block s = do {
     ASSERT (\<not> intr_context s);
     s \<leftarrow> (if intr_get_level s then intr_set_level s False else Some s);
     c \<leftarrow> thread_current s;
     s \<leftarrow> upd_thread s c (\<lambda>t. t\<lparr>t_status := THREAD_BLOCKED\<rparr>);
     schedule s
   }"

definition thread_unblock :: "kernel \<Rightarrow> ptr \<Rightarrow> kernel option" where
  "thread_unblock s t = do {
     ASSERT (is_thread s t);
     let (s, old_level) = intr_disable s;
     th \<leftarrow> thr s t;
     ASSERT (t_status th = THREAD_BLOCKED);
     let s = s\<lparr>ready_list := ready_list s @ [t]\<rparr>;
     s \<leftarrow> upd_thread s t (\<lambda>t. t\<lparr>t_status := THREAD_READY\<rparr>);
     intr_set_level s old_level
   }"

text \<open>The final \<^verbatim>\<open>intr_set_level\<close> of the yielding thread runs when it is next scheduled.\<close>

definition thread_yield :: "kernel \<Rightarrow> kernel option" where
  "thread_yield s = do {
     cur \<leftarrow> thread_current s;
     ASSERT (\<not> intr_context s);
     let (s, old_level) = intr_disable s;
     let s = (if cur \<noteq> idle_thread s then s\<lparr>ready_list := ready_list s @ [cur]\<rparr> else s);
     s \<leftarrow> upd_thread s cur (\<lambda>t. t\<lparr>t_status := THREAD_READY\<rparr>);
     schedule (s\<lparr>kont := (kont s)(cur := KYield old_level # kont s cur)\<rparr>)
   }"

definition thread_tick :: "kernel \<Rightarrow> kernel option" where
  "thread_tick s = do {
     c \<leftarrow> thread_current s;
     t \<leftarrow> thr s c;
     let s = (if c = idle_thread s then s\<lparr>idle_ticks := Suc (idle_ticks s)\<rparr>
       else if t_pagedir t \<noteq> NULL then s\<lparr>user_ticks := Suc (user_ticks s)\<rparr>
       else s\<lparr>kernel_ticks := Suc (kernel_ticks s)\<rparr>);
     let s = s\<lparr>thread_ticks := Suc (thread_ticks s)\<rparr>;
     if thread_ticks s \<ge> TIME_SLICE then intr_yield_on_return s else Some s
   }"

text \<open>
  The external-interrupt path of \<^verbatim>\<open>intr_handler\<close> around a handler. Entering the gate disables
  interrupts; the \<^verbatim>\<open>iret\<close> that restores the flag runs when the interrupted thread continues.
\<close>

definition intr_handler :: "(kernel \<Rightarrow> kernel option) \<Rightarrow> kernel \<Rightarrow> kernel option" where
  "intr_handler handler s = do {
     let c = running s;
     let s = s\<lparr>kont := (kont s)(c := KIret (intr_on s) # kont s c), intr_on := False\<rparr>;
     ASSERT (\<not> intr_get_level s);
     ASSERT (\<not> intr_context s);
     let s = s\<lparr>in_external_intr := True, yield_on_return := False\<rparr>;
     s \<leftarrow> handler s;
     ASSERT (\<not> intr_get_level s);
     ASSERT (intr_context s);
     let s = s\<lparr>in_external_intr := False\<rparr>;
     if yield_on_return s then thread_yield s else Some s
   }"

section \<open>Creation and exit\<close>

text \<open>\<open>name\<close> is the string passed in; \<^verbatim>\<open>strlcpy\<close> keeps at most 63 characters of it.\<close>

definition init_thread :: "kernel \<Rightarrow> ptr \<Rightarrow> u8 list \<Rightarrow> int \<Rightarrow> kernel option" where
  "init_thread s t name priority = do {
     ASSERT (t \<noteq> NULL);
     ASSERT (PRI_MIN \<le> priority \<and> priority \<le> PRI_MAX);
     let th = \<lparr>t_tid = 0, t_status = THREAD_BLOCKED, t_name = take 63 name, t_stack = t + PGSIZE,
       t_priority = priority, t_pagedir = NULL, t_magic = THREAD_MAGIC, t_fd_list = [],
       t_sub_threads = [], t_pt = NULL, t_is_waited_by_parent = False, t_executable_f = NULL\<rparr>;
     Some (s\<lparr>thr := (thr s)(t \<mapsto> th), all_list := all_list s @ [t]\<rparr>)
   }"

text \<open>
  The lock around the counter makes the increment atomic, and it is modelled as one step; the
  exclusion that locks provide is proved with the synchronization primitives.
\<close>

definition allocate_tid :: "kernel \<Rightarrow> kernel \<times> int" where
  "allocate_tid s = (s\<lparr>next_tid := next_tid s + 1\<rparr>, next_tid s)"

definition alloc_frame :: "kernel \<Rightarrow> ptr \<Rightarrow> nat \<Rightarrow> (kernel \<times> nat) option" where
  "alloc_frame s t sz = do {
     ASSERT (is_thread s t);
     ASSERT (sz mod 4 = 0);
     s \<leftarrow> upd_thread s t (\<lambda>th. th\<lparr>t_stack := t_stack th - sz\<rparr>);
     th \<leftarrow> thr s t;
     Some (s, t_stack th)
   }"

text \<open>
  \<open>page\<close> is what \<^verbatim>\<open>palloc_get_page (PAL_ZERO)\<close> returned. The three stack frames hold what the new
  thread executes when first switched to: \<^verbatim>\<open>switch_entry\<close> and then \<^verbatim>\<open>kernel_thread\<close>.
\<close>

definition thread_create_with_pt ::
    "kernel \<Rightarrow> ptr \<Rightarrow> u8 list \<Rightarrow> int \<Rightarrow> ptr \<Rightarrow> ptr \<Rightarrow> (kernel \<times> int) option" where
  "thread_create_with_pt s page name priority func pt = do {
     ASSERT (func \<noteq> NULL);
     if page = NULL then Some (s, TID_ERROR)
     else do {
       s \<leftarrow> init_thread s page name priority;
       let (s, tid) = allocate_tid s;
       s \<leftarrow> upd_thread s page (\<lambda>t. t\<lparr>t_tid := tid\<rparr>);
       s \<leftarrow> upd_thread s page (\<lambda>t. t\<lparr>t_pt := pt\<rparr>);
       let (s, old_level) = intr_disable s;
       (s, kf) \<leftarrow> alloc_frame s page 12;
       (s, ef) \<leftarrow> alloc_frame s page 4;
       (s, sf) \<leftarrow> alloc_frame s page 28;
       let s = s\<lparr>kont := (kont s)(page := [KStart])\<rparr>;
       s \<leftarrow> intr_set_level s old_level;
       s \<leftarrow> thread_unblock s page;
       Some (s, tid)
     }
   }"

text \<open>\<^verbatim>\<open>thread_create\<close> has the same body without the assignment of the parent, which is null.\<close>

definition thread_create :: "kernel \<Rightarrow> ptr \<Rightarrow> u8 list \<Rightarrow> int \<Rightarrow> ptr \<Rightarrow> (kernel \<times> int) option" where
  "thread_create s page name priority func = do {
     ASSERT (func \<noteq> NULL);
     if page = NULL then Some (s, TID_ERROR)
     else do {
       s \<leftarrow> init_thread s page name priority;
       let (s, tid) = allocate_tid s;
       s \<leftarrow> upd_thread s page (\<lambda>t. t\<lparr>t_tid := tid\<rparr>);
       let (s, old_level) = intr_disable s;
       (s, kf) \<leftarrow> alloc_frame s page 12;
       (s, ef) \<leftarrow> alloc_frame s page 4;
       (s, sf) \<leftarrow> alloc_frame s page 28;
       let s = s\<lparr>kont := (kont s)(page := [KStart])\<rparr>;
       s \<leftarrow> intr_set_level s old_level;
       s \<leftarrow> thread_unblock s page;
       Some (s, tid)
     }
   }"

definition kernel_thread_start :: "kernel \<Rightarrow> kernel option" where
  "kernel_thread_start s = map_option fst (intr_enable s)"

text \<open>
  Closing the executable and destroying the page directory act on the file system and on the page
  tables; here they are recorded.
\<close>

definition process_exit :: "kernel \<Rightarrow> kernel option" where
  "process_exit s = do {
     cur \<leftarrow> thread_current s;
     t \<leftarrow> thr s cur;
     let s = (if t_executable_f t \<noteq> NULL then s\<lparr>closed_files := t_executable_f t # closed_files s\<rparr> else s);
     let pd = t_pagedir t;
     if pd \<noteq> NULL then do {
       s \<leftarrow> upd_thread s cur (\<lambda>t. t\<lparr>t_pagedir := NULL\<rparr>);
       let s = pagedir_activate s NULL;
       Some (s\<lparr>freed_pagedirs := pd # freed_pagedirs s\<rparr>)
     } else Some s
   }"

definition thread_exit :: "kernel \<Rightarrow> kernel option" where
  "thread_exit s = do {
     ASSERT (\<not> intr_context s);
     s \<leftarrow> process_exit s;
     c \<leftarrow> thread_current s;
     t \<leftarrow> thr s c;
     s \<leftarrow> (if t_is_waited_by_parent t \<and> t_pt t \<noteq> NULL then thread_unblock s (t_pt t) else Some s);
     let (s, _) = intr_disable s;
     c \<leftarrow> thread_current s;
     let s = s\<lparr>all_list := remove1 c (all_list s)\<rparr>;
     s \<leftarrow> upd_thread s c (\<lambda>t. t\<lparr>t_status := THREAD_DYING\<rparr>);
     schedule s
   }"

section \<open>Open files and children of a thread\<close>

text \<open>\<open>malloc_ok\<close>: whether \<^verbatim>\<open>malloc\<close> returns memory for the new element.\<close>

definition thread_add_fd :: "kernel \<Rightarrow> ptr \<Rightarrow> nat \<Rightarrow> ptr \<Rightarrow> ptr \<Rightarrow> bool \<Rightarrow> (kernel \<times> bool) option" where
  "thread_add_fd s t fd f file_name malloc_ok = do {
     th \<leftarrow> thr s t;
     if length (t_fd_list th) < THREAD_FILES_MAX \<and> malloc_ok then do {
       s \<leftarrow> upd_thread s t (\<lambda>th. th\<lparr>t_fd_list := t_fd_list th @
         [\<lparr>fd_num = fd, fd_file = f, fd_name = file_name\<rparr>]\<rparr>);
       Some (s, True)
     } else Some (s, False)
   }"

fun remove_fd :: "nat \<Rightarrow> fd_elem list \<Rightarrow> fd_elem list option" where
  "remove_fd fd [] = None"
| "remove_fd fd (e # es) = (if fd_num e = fd then Some es else map_option (Cons e) (remove_fd fd es))"

definition thread_remove_fd :: "kernel \<Rightarrow> ptr \<Rightarrow> nat \<Rightarrow> (kernel \<times> bool) option" where
  "thread_remove_fd s t fd = do {
     th \<leftarrow> thr s t;
     case remove_fd fd (t_fd_list th) of
       None \<Rightarrow> Some (s, False)
     | Some es \<Rightarrow> do {
         s \<leftarrow> upd_thread s t (\<lambda>th. th\<lparr>t_fd_list := es\<rparr>);
         Some (s, True)
       }
   }"

fun find_fd_owner :: "kernel \<Rightarrow> nat \<Rightarrow> ptr list \<Rightarrow> ptr option" where
  "find_fd_owner s fd [] = Some NULL"
| "find_fd_owner s fd (t # ts) = do {
     th \<leftarrow> thr s t;
     if fd \<in> fd_num ` set (t_fd_list th) then Some t else find_fd_owner s fd ts
   }"

definition get_thread_by_fd :: "kernel \<Rightarrow> nat \<Rightarrow> ptr option" where
  "get_thread_by_fd s fd = find_fd_owner s fd (all_list s)"

fun find_pid :: "kernel \<Rightarrow> int \<Rightarrow> ptr list \<Rightarrow> ptr option" where
  "find_pid s pid [] = Some NULL"
| "find_pid s pid (t # ts) = do {
     th \<leftarrow> thr s t;
     if t_tid th = pid then Some t else find_pid s pid ts
   }"

definition get_thread_by_pid :: "kernel \<Rightarrow> int \<Rightarrow> (kernel \<times> ptr) option" where
  "get_thread_by_pid s pid = do {
     let (s, _) = intr_disable s;
     t \<leftarrow> find_pid s pid (all_list s);
     (s, _) \<leftarrow> intr_enable s;
     Some (s, t)
   }"

text \<open>The comparison in the source is an assignment, and so it is here.\<close>

definition is_direct_child :: "kernel \<Rightarrow> ptr \<Rightarrow> int \<Rightarrow> (kernel \<times> bool) option" where
  "is_direct_child s pt pid =
     (if pt \<noteq> NULL \<and> pid \<noteq> 0 then do {
        th \<leftarrow> thr s pt;
        case t_sub_threads th of
          [] \<Rightarrow> Some (s, False)
        | st # sts \<Rightarrow> do {
            s \<leftarrow> upd_thread s pt (\<lambda>th. th\<lparr>t_sub_threads := st\<lparr>st_pid := pid\<rparr> # sts\<rparr>);
            Some (s, True)
          }
      } else Some (s, False))"

definition is_orphaned :: "kernel \<Rightarrow> int \<Rightarrow> (kernel \<times> bool) option" where
  "is_orphaned s pid = do {
     (s, t) \<leftarrow> get_thread_by_pid s pid;
     if t \<noteq> NULL then do {
       th \<leftarrow> thr s t;
       Some (s, t_pt th = NULL)
     } else Some (s, True)
   }"

definition get_exit_code :: "kernel \<Rightarrow> ptr \<Rightarrow> int \<Rightarrow> int option" where
  "get_exit_code s pt pid =
     (if pt \<noteq> NULL \<and> pid \<noteq> 0 then do {
        th \<leftarrow> thr s pt;
        case t_sub_threads th of [] \<Rightarrow> Some (- 1) | st # sts \<Rightarrow> Some (st_exit_code st)
      } else Some (- 1))"

section \<open>Waiting for a child\<close>

text \<open>
  \<^verbatim>\<open>process_wait\<close> up to its return or to the context switch in \<^verbatim>\<open>thread_block\<close>; in the first case
  the result is given, in the second the frame says what is left. \<^verbatim>\<open>get_thread_by_pid\<close> leaves
  interrupts on, so the code after it can be interrupted: the two halves are separate definitions.
\<close>

definition process_wait_lookup :: "kernel \<Rightarrow> int \<Rightarrow> (kernel \<times> bool \<times> int option) option" where
  "process_wait_lookup s child_tid = do {
     let (s, old_level) = intr_disable s;
     ct \<leftarrow> thread_current s;
     (s, c) \<leftarrow> get_thread_by_pid s child_tid;
     if c = NULL then do {
       code \<leftarrow> get_exit_code s ct child_tid;
       Some (s, old_level, Some code)
     } else do {
       th \<leftarrow> thr s c;
       if t_is_waited_by_parent th \<or> t_pt th \<noteq> ct then Some (s, old_level, Some (- 1))
       else do {
         s \<leftarrow> upd_thread s c (\<lambda>th. th\<lparr>t_is_waited_by_parent := True\<rparr>);
         Some (s, old_level, None)
       }
     }
   }"

definition process_wait_block :: "kernel \<Rightarrow> int \<Rightarrow> bool \<Rightarrow> kernel option" where
  "process_wait_block s child_tid old_level =
     thread_block (s\<lparr>kont := (kont s)(running s := KWait child_tid old_level # kont s (running s))\<rparr>)"

definition process_wait :: "kernel \<Rightarrow> int \<Rightarrow> (kernel \<times> int option) option" where
  "process_wait s child_tid = do {
     (s, old_level, r) \<leftarrow> process_wait_lookup s child_tid;
     case r of
       Some code \<Rightarrow> Some (s, Some code)
     | None \<Rightarrow> do {
         s \<leftarrow> process_wait_block s child_tid old_level;
         Some (s, None)
       }
   }"

definition process_wait_return :: "kernel \<Rightarrow> int \<Rightarrow> bool \<Rightarrow> (kernel \<times> int) option" where
  "process_wait_return s child_tid old_level = do {
     s \<leftarrow> intr_set_level s old_level;
     code \<leftarrow> get_exit_code s (running s) child_tid;
     Some (s, code)
   }"

end
