(* ===== verification/Sched.thy ===== *)
theory Sched
  imports Threads
begin

text \<open>
  The scheduler invariant. Its core is the rule stated in the comment on \<^verbatim>\<open>struct thread\<close> in
  \<^verbatim>\<open>threads/thread.h\<close>: the list element of a thread is on the run queue exactly while the thread
  is ready, on one semaphore wait list only while it is blocked, and never on two lists. The
  theory shows that every operation of the scheduler returns (no assertion of the kernel fails)
  and keeps the invariant.
\<close>

section \<open>The invariant\<close>

definition st :: "kernel \<Rightarrow> ptr \<Rightarrow> thread_status option" where
  "st s p = map_option t_status (thr s p)"

definition wait :: "kernel \<Rightarrow> ptr \<Rightarrow> ptr list" where
  "wait s m = s_waiters (sema s m)"

definition ready_ok :: "(ptr \<Rightarrow> thread_status option) \<Rightarrow> ptr list \<Rightarrow> ptr \<Rightarrow> bool" where
  "ready_ok sf rd idle \<longleftrightarrow> distinct rd \<and> (\<forall>p \<in> set rd. sf p = Some THREAD_READY \<and> p \<noteq> idle)
     \<and> (\<forall>p. sf p = Some THREAD_READY \<longrightarrow> p \<in> set rd \<or> p = idle)"

definition wait_ok :: "(ptr \<Rightarrow> thread_status option) \<Rightarrow> (ptr \<Rightarrow> ptr list) \<Rightarrow> ptr \<Rightarrow> bool" where
  "wait_ok sf wt idle \<longleftrightarrow> (\<forall>m. distinct (wt m))
     \<and> (\<forall>m. \<forall>p \<in> set (wt m). sf p = Some THREAD_BLOCKED \<and> p \<noteq> idle)
     \<and> (\<forall>m m' p. p \<in> set (wt m) \<longrightarrow> p \<in> set (wt m') \<longrightarrow> m = m')"

definition all_ok :: "(ptr \<Rightarrow> thread_status option) \<Rightarrow> ptr list \<Rightarrow> ptr \<Rightarrow> bool" where
  "all_ok sf al idle \<longleftrightarrow> sf idle \<noteq> None \<and> sf idle \<noteq> Some THREAD_DYING
     \<and> distinct al \<and> (\<forall>p. p \<in> set al \<longleftrightarrow> sf p \<noteq> None \<and> sf p \<noteq> Some THREAD_DYING)"

definition lists_ok ::
    "(ptr \<Rightarrow> thread_status option) \<Rightarrow> ptr list \<Rightarrow> (ptr \<Rightarrow> ptr list) \<Rightarrow> ptr list \<Rightarrow> ptr \<Rightarrow> bool" where
  "lists_ok sf rd wt al idle \<longleftrightarrow> ready_ok sf rd idle \<and> wait_ok sf wt idle \<and> all_ok sf al idle"

definition wf_threads :: "kernel \<Rightarrow> bool" where
  "wf_threads s \<longleftrightarrow> (\<forall>p t. thr s p = Some t \<longrightarrow> p \<noteq> NULL \<and> t_magic t = THREAD_MAGIC)"

definition core :: "kernel \<Rightarrow> bool" where
  "core s \<longleftrightarrow> lists_ok (st s) (ready_list s) (wait s) (all_list s) (idle_thread s)
     \<and> wf_threads s \<and> \<not> in_external_intr s"

definition cpu_ok :: "kernel \<Rightarrow> bool" where
  "cpu_ok s \<longleftrightarrow> (\<exists>t. thr s (running s) = Some t
     \<and> cr3 s = (if t_pagedir t = NULL then init_page_dir s else t_pagedir t))
     \<and> tss_esp0 s = running s + PGSIZE"

definition sched_inv :: "kernel \<Rightarrow> bool" where
  "sched_inv s \<longleftrightarrow> core s \<and> cpu_ok s \<and> st s (running s) = Some THREAD_RUNNING
     \<and> (\<forall>p. st s p = Some THREAD_RUNNING \<longrightarrow> p = running s)
     \<and> (\<forall>p. st s p = Some THREAD_DYING \<longrightarrow> p = initial_thread s)"

text \<open>The state in which \<^verbatim>\<open>schedule\<close> is called: nobody runs, interrupts are off.\<close>

definition switching :: "kernel \<Rightarrow> bool" where
  "switching s \<longleftrightarrow> core s \<and> st s (running s) \<noteq> None \<and> \<not> intr_on s
     \<and> (\<forall>p. st s p \<noteq> Some THREAD_RUNNING)
     \<and> (\<forall>p. st s p = Some THREAD_DYING \<longrightarrow> p = initial_thread s \<or> p = running s)"

section \<open>Lists under a change of state\<close>

lemma not_ready: "ready_ok sf rd idle \<Longrightarrow> sf p \<noteq> Some THREAD_READY \<Longrightarrow> p \<notin> set rd"
  by (auto simp: ready_ok_def)

lemma not_waiting: "wait_ok sf wt idle \<Longrightarrow> sf p \<noteq> Some THREAD_BLOCKED \<or> p = idle \<Longrightarrow> p \<notin> set (wt m)"
  by (auto simp: wait_ok_def)

lemma ready_ok_upd:
  "ready_ok sf rd idle \<Longrightarrow> sf p \<noteq> Some THREAD_READY \<or> p = idle \<Longrightarrow> v \<noteq> Some THREAD_READY \<Longrightarrow> ready_ok (sf(p := v)) rd idle"
  by (auto simp: ready_ok_def)

lemma wait_ok_upd:
  "wait_ok sf wt idle \<Longrightarrow> sf p \<noteq> Some THREAD_BLOCKED \<or> p = idle \<Longrightarrow> wait_ok (sf(p := v)) wt idle"
  by (auto simp: wait_ok_def)

lemma all_ok_upd:
  "all_ok sf al idle \<Longrightarrow> sf p \<noteq> None \<Longrightarrow> sf p \<noteq> Some THREAD_DYING \<Longrightarrow> v \<noteq> None \<Longrightarrow> v \<noteq> Some THREAD_DYING \<Longrightarrow>
    all_ok (sf(p := v)) al idle"
  by (auto simp: all_ok_def)

lemma ready_ok_push:
  "ready_ok sf rd idle \<Longrightarrow> sf p \<noteq> Some THREAD_READY \<Longrightarrow> p \<noteq> idle \<Longrightarrow> ready_ok (sf(p := Some THREAD_READY)) (rd @ [p]) idle"
  by (auto simp: ready_ok_def)

lemma lists_ok_run:
  assumes "lists_ok sf rd wt al idle"
  shows "lists_ok (sf(hd (rd @ [idle]) := Some THREAD_RUNNING)) (tl rd) wt al idle"
proof (cases rd)
  case Nil
  then show ?thesis using assms by (auto simp: lists_ok_def all_ok_def intro: ready_ok_upd wait_ok_upd)
next
  case (Cons p ps)
  then have p: "sf p = Some THREAD_READY" using assms by (simp add: lists_ok_def ready_ok_def)
  have "ready_ok (sf(p := Some THREAD_RUNNING)) ps idle"
    using assms Cons by (auto simp: lists_ok_def ready_ok_def)
  then show ?thesis using assms p Cons by (simp add: lists_ok_def wait_ok_upd all_ok_upd)
qed

lemma lists_ok_free:
  assumes "lists_ok sf rd wt al idle" "sf p = Some THREAD_DYING"
  shows "lists_ok (sf(p := None)) rd wt al idle"
  using assms by (auto simp: lists_ok_def ready_ok_upd wait_ok_upd all_ok_def)

text \<open>The running thread leaves the processor: to the run queue, to sleep, to a wait list, for good.\<close>

lemma lists_ok_yield:
  assumes "lists_ok sf rd wt al idle" "sf p = Some THREAD_RUNNING"
  shows "lists_ok (sf(p := Some THREAD_READY)) (if p \<noteq> idle then rd @ [p] else rd) wt al idle"
proof -
  have "p = idle \<Longrightarrow> ready_ok (sf(p := Some THREAD_READY)) rd idle"
    using assms by (auto simp: lists_ok_def ready_ok_def)
  then show ?thesis using assms by (simp add: lists_ok_def ready_ok_push wait_ok_upd all_ok_upd)
qed

lemma lists_ok_block:
  assumes "lists_ok sf rd wt al idle" "sf p = Some THREAD_RUNNING"
  shows "lists_ok (sf(p := Some THREAD_BLOCKED)) rd wt al idle"
  using assms by (simp add: lists_ok_def ready_ok_upd wait_ok_upd all_ok_upd)

lemma lists_ok_wait:
  assumes "lists_ok sf rd wt al idle" "sf p = Some THREAD_RUNNING" "p \<noteq> idle"
  shows "lists_ok (sf(p := Some THREAD_BLOCKED)) rd (wt(m := wt m @ [p])) al idle"
proof -
  have w: "wait_ok sf wt idle" using assms(1) by (simp add: lists_ok_def)
  have "p \<notin> set (wt m')" for m' using not_waiting [OF w] assms(2) by simp
  then have "wait_ok (sf(p := Some THREAD_BLOCKED)) (wt(m := wt m @ [p])) idle"
    using w assms(3) by (auto simp: wait_ok_def)
  then show ?thesis using assms by (simp add: lists_ok_def ready_ok_upd all_ok_upd)
qed

lemma lists_ok_die:
  assumes "lists_ok sf rd wt al idle" "sf p = Some THREAD_RUNNING" "p \<noteq> idle"
  shows "lists_ok (sf(p := Some THREAD_DYING)) rd wt (remove1 p al) idle"
  using assms by (auto simp: lists_ok_def ready_ok_upd wait_ok_upd all_ok_def)

lemma lists_ok_wake:
  assumes "lists_ok sf rd wt al idle" "sf p = Some THREAD_BLOCKED" "\<forall>m. p \<notin> set (wt m)" "p \<noteq> idle"
  shows "lists_ok (sf(p := Some THREAD_READY)) (rd @ [p]) wt al idle"
proof -
  have "wait_ok (sf(p := Some THREAD_READY)) wt idle"
    using assms(1,3) by (auto simp: lists_ok_def wait_ok_def)
  then show ?thesis using assms by (simp add: lists_ok_def ready_ok_push all_ok_upd)
qed

lemma lists_ok_wake_waiter:
  assumes "lists_ok sf rd wt al idle" "wt m = p # ps"
  shows "lists_ok (sf(p := Some THREAD_READY)) (rd @ [p]) (wt(m := ps)) al idle"
proof -
  have w: "wait_ok sf wt idle" using assms(1) by (simp add: lists_ok_def)
  have pm: "p \<in> set (wt m)" "p \<notin> set ps" using w assms(2) by (auto simp: wait_ok_def dest: spec [of _ m])
  then have p: "sf p = Some THREAD_BLOCKED" "p \<noteq> idle" using w by (auto simp: wait_ok_def)
  have other: "m' \<noteq> m \<Longrightarrow> p \<notin> set (wt m')" for m' using w pm(1) by (auto simp: wait_ok_def)
  have "distinct (wt m)" using w by (simp add: wait_ok_def)
  then have ps: "distinct ps" "set ps \<subseteq> set (wt m)" using assms(2) by auto
  then have "q \<in> set (wt m')" if "q \<in> set ((wt(m := ps)) m')" for q m' using that by (auto split: if_splits)
  then have "wait_ok (sf(p := Some THREAD_READY)) (wt(m := ps)) idle"
    using w pm(2) ps(1) other unfolding wait_ok_def by (metis fun_upd_apply)
  then show ?thesis using assms p by (simp add: lists_ok_def ready_ok_push all_ok_upd)
qed

lemma lists_ok_new:
  assumes "lists_ok sf rd wt al idle" "sf p = None"
  shows "lists_ok (sf(p := Some THREAD_READY)) (rd @ [p]) wt (al @ [p]) idle"
proof -
  have "p \<noteq> idle" using assms by (auto simp: lists_ok_def all_ok_def)
  moreover have "all_ok (sf(p := Some THREAD_READY)) (al @ [p]) idle"
    using assms by (auto simp: lists_ok_def all_ok_def)
  ultimately show ?thesis using assms by (simp add: lists_ok_def ready_ok_push wait_ok_upd)
qed

section \<open>The context switch\<close>

lemma st_fun: "st s = map_option t_status \<circ> thr s"
  by (auto simp: st_def)

lemma st_upd [simp]: "st (s\<lparr>thr := (thr s)(p := x)\<rparr>) = (st s)(p := map_option t_status x)"
  by (auto simp: st_def)

lemma st_cong: "thr s' = thr s \<Longrightarrow> st s' = st s"
  by (simp add: st_fun)

lemma wait_cong: "sema s' = sema s \<Longrightarrow> wait s' = wait s"
  by (simp add: wait_def fun_eq_iff)

lemma wf_threads_upd:
  "wf_threads s \<Longrightarrow> thr s p = Some t \<Longrightarrow> t_magic t' = t_magic t \<Longrightarrow> wf_threads (s\<lparr>thr := (thr s)(p \<mapsto> t')\<rparr>)"
  by (auto simp: wf_threads_def)

lemma is_thread_wf: "wf_threads s \<Longrightarrow> thr s p = Some t \<Longrightarrow> is_thread s p"
  by (auto simp: wf_threads_def is_thread_def)

definition next_run :: "kernel \<Rightarrow> ptr" where
  "next_run s = hd (ready_list s @ [idle_thread s])"

text \<open>What \<^verbatim>\<open>schedule\<close> does, in one expression.\<close>

definition switched :: "kernel \<Rightarrow> thread \<Rightarrow> kernel" where
  "switched s t = (let cur = running s; nxt = next_run s;
     th = (thr s)(nxt \<mapsto> t\<lparr>t_status := THREAD_RUNNING\<rparr>) in
     s\<lparr>ready_list := tl (ready_list s), running := nxt, thread_ticks := 0,
       cr3 := (if t_pagedir t = NULL then init_page_dir s else t_pagedir t),
       tss_esp0 := nxt + PGSIZE,
       thr := (if cur \<noteq> nxt \<and> st s cur = Some THREAD_DYING \<and> cur \<noteq> initial_thread s
               then th(cur := None) else th)\<rparr>)"

lemma tail_activate:
  assumes "wf_threads s" "thr s (running s) = Some t" "\<not> intr_on s"
  shows "thread_schedule_tail s NULL =
    Some (s\<lparr>thr := (thr s)(running s \<mapsto> t\<lparr>t_status := THREAD_RUNNING\<rparr>), thread_ticks := 0,
      cr3 := (if t_pagedir t = NULL then init_page_dir s else t_pagedir t), tss_esp0 := running s + PGSIZE\<rparr>)"
proof -
  have "running s \<noteq> NULL" "t_magic t = THREAD_MAGIC" using assms(1,2) by (auto simp: wf_threads_def)
  then show ?thesis using assms
    by (simp add: thread_schedule_tail_def upd_thread_def process_activate_def current_struct_def
      thread_current_def is_thread_def running_thread_def tss_update_def pagedir_activate_def
      intr_get_level_def Let_def)
qed

lemma tail_prev:
  assumes "wf_threads s" "thr s (running s) = Some t" "\<not> intr_on s" "prev \<noteq> NULL" "prev \<noteq> running s"
    and "thr s prev = Some p"
  shows "thread_schedule_tail s prev = map_option
    (\<lambda>s'. if t_status p = THREAD_DYING \<and> prev \<noteq> initial_thread s then s'\<lparr>thr := (thr s')(prev := None)\<rparr> else s')
    (thread_schedule_tail s NULL)"
proof -
  have "running s \<noteq> NULL" "t_magic t = THREAD_MAGIC" using assms(1,2) by (auto simp: wf_threads_def)
  then show ?thesis using assms
    by (simp add: thread_schedule_tail_def upd_thread_def process_activate_def current_struct_def
      thread_current_def is_thread_def running_thread_def tss_update_def pagedir_activate_def
      intr_get_level_def Let_def)
qed

lemma schedule_switched:
  assumes sw: "switching s" and t: "thr s (next_run s) = Some t"
  shows "schedule s = Some (switched s t)"
proof -
  have wf: "wf_threads s" "\<not> intr_on s" using sw by (simp_all add: switching_def core_def)
  obtain c where c: "thr s (running s) = Some c" "t_status c \<noteq> THREAD_RUNNING"
    using sw by (auto simp: switching_def st_def)
  have nx: "next_thread_to_run s = (s\<lparr>ready_list := tl (ready_list s)\<rparr>, next_run s)"
    by (cases "ready_list s") (simp_all add: next_thread_to_run_def next_run_def)
  let ?s = "s\<lparr>ready_list := tl (ready_list s)\<rparr>"
  have wf': "wf_threads ?s" "wf_threads (?s\<lparr>running := next_run s\<rparr>)" using wf(1) by (simp_all add: wf_threads_def)
  have it: "is_thread ?s (next_run s)" using wf t by (auto simp: is_thread_def wf_threads_def)
  show ?thesis
  proof (cases "running s = next_run s")
    case True
    then show ?thesis using nx c it wf(2) t tail_activate [OF wf'(1), of t]
      by (simp add: schedule_def running_thread_def intr_get_level_def switched_def Let_def)
  next
    case False
    have "running s \<noteq> NULL" using wf(1) c(1) by (auto simp: wf_threads_def)
    then show ?thesis using nx c it wf(2) t False tail_activate [OF wf'(2), of t] tail_prev [OF wf'(2), of t "running s" c]
      by (simp add: schedule_def running_thread_def intr_get_level_def switched_def Let_def st_def)
  qed
qed

lemma next_run_thread:
  assumes "core s"
  shows "\<exists>t. thr s (next_run s) = Some t"
proof -
  have "st s (next_run s) \<noteq> None"
    using assms by (cases "ready_list s") (auto simp: core_def lists_ok_def ready_ok_def all_ok_def next_run_def)
  then show ?thesis by (auto simp: st_def)
qed

lemma st_switched:
  assumes "switching s"
  shows "st (switched s t) = (if running s \<noteq> next_run s \<and> st s (running s) = Some THREAD_DYING \<and> running s \<noteq> initial_thread s
     then ((st s)(next_run s := Some THREAD_RUNNING))(running s := None) else (st s)(next_run s := Some THREAD_RUNNING))"
  by (auto simp: switched_def st_def Let_def)

section \<open>What synchronization sees of the scheduler\<close>

text \<open>
  Which of the threads that are not asleep occupies the processor is the scheduler's business.
  The view of a state leaves it out: it keeps who sleeps (the idle thread is never counted as
  asleep), who is alive, the parent links, the semaphores, locks and condition variables, and the
  suspended calls.
\<close>

record kview =
  v_blk :: "ptr \<Rightarrow> bool"
  v_live :: "ptr \<Rightarrow> bool"
  v_par :: "ptr \<Rightarrow> bool \<times> ptr"
  v_sema :: "ptr \<Rightarrow> semaphore"
  v_holder :: "ptr \<Rightarrow> ptr"
  v_cond :: "ptr \<Rightarrow> ptr list"
  v_kont :: "ptr \<Rightarrow> kframe list"
  v_idle :: ptr

definition parent_of :: "thread option \<Rightarrow> bool \<times> ptr" where
  "parent_of x = (case x of None \<Rightarrow> (False, NULL)
     | Some t \<Rightarrow> if t_status t = THREAD_DYING then (False, NULL) else (t_is_waited_by_parent t, t_pt t))"

definition view :: "kernel \<Rightarrow> kview" where
  "view s = \<lparr>v_blk = \<lambda>p. p \<noteq> idle_thread s \<and> st s p = Some THREAD_BLOCKED,
     v_live = \<lambda>p. st s p \<noteq> None \<and> st s p \<noteq> Some THREAD_DYING,
     v_par = \<lambda>p. parent_of (thr s p),
     v_sema = sema s, v_holder = holder s, v_cond = cond s, v_kont = kont s, v_idle = idle_thread s\<rparr>"

lemma view_fields [simp]:
  "v_blk (view s) p \<longleftrightarrow> p \<noteq> idle_thread s \<and> st s p = Some THREAD_BLOCKED"
  "v_live (view s) p \<longleftrightarrow> st s p \<noteq> None \<and> st s p \<noteq> Some THREAD_DYING"
  "v_par (view s) p = parent_of (thr s p)"
  "v_sema (view s) = sema s" "v_holder (view s) = holder s" "v_cond (view s) = cond s"
  "v_kont (view s) = kont s" "v_idle (view s) = idle_thread s"
  by (simp_all add: view_def)

lemma view_thr [simp]:
  "thr s = f \<Longrightarrow> view (s\<lparr>thr := f(p := x)\<rparr>) = (view s)\<lparr>
     v_blk := (v_blk (view s))(p := p \<noteq> idle_thread s \<and> map_option t_status x = Some THREAD_BLOCKED),
     v_live := (v_live (view s))(p := x \<noteq> None \<and> map_option t_status x \<noteq> Some THREAD_DYING),
     v_par := (v_par (view s))(p := parent_of x)\<rparr>"
  by (auto simp: view_def st_def fun_eq_iff)

lemma view_upd [simp]:
  "view (s\<lparr>ready_list := a\<rparr>) = view s" "view (s\<lparr>all_list := a\<rparr>) = view s" "view (s\<lparr>running := p\<rparr>) = view s"
  "view (s\<lparr>next_tid := i\<rparr>) = view s" "view (s\<lparr>idle_ticks := n\<rparr>) = view s" "view (s\<lparr>kernel_ticks := n\<rparr>) = view s"
  "view (s\<lparr>user_ticks := n\<rparr>) = view s" "view (s\<lparr>thread_ticks := n\<rparr>) = view s" "view (s\<lparr>intr_on := b\<rparr>) = view s"
  "view (s\<lparr>in_external_intr := b\<rparr>) = view s" "view (s\<lparr>yield_on_return := b\<rparr>) = view s" "view (s\<lparr>cr3 := p\<rparr>) = view s"
  "view (s\<lparr>tss_esp0 := n\<rparr>) = view s" "view (s\<lparr>closed_files := fs\<rparr>) = view s" "view (s\<lparr>freed_pagedirs := fs\<rparr>) = view s"
  "view (s\<lparr>sema := sm\<rparr>) = (view s)\<lparr>v_sema := sm\<rparr>" "view (s\<lparr>holder := h\<rparr>) = (view s)\<lparr>v_holder := h\<rparr>"
  "view (s\<lparr>cond := c\<rparr>) = (view s)\<lparr>v_cond := c\<rparr>" "view (s\<lparr>kont := k\<rparr>) = (view s)\<lparr>v_kont := k\<rparr>"
  by (simp_all add: view_def st_def)

lemma view_eqI:
  assumes "\<And>p. v_blk v p = v_blk w p" "\<And>p. v_live v p = v_live w p" "\<And>p. v_par v p = v_par w p" "v_sema v = v_sema w"
    "v_holder v = v_holder w" "v_cond v = v_cond w" "v_kont v = v_kont w" "v_idle v = v_idle w"
  shows "v = (w :: kview)"
  using assms by (intro kview.equality) (auto simp: fun_eq_iff)

text \<open>The run queue is served first in, first out: a step appends to it and takes at most its head.\<close>

definition queue_step :: "kernel \<Rightarrow> kernel \<Rightarrow> bool" where
  "queue_step s s' \<longleftrightarrow> (\<exists>zs. (running s' = running s \<and> ready_list s' = ready_list s @ zs)
     \<or> ready_list s @ zs = running s' # ready_list s'
     \<or> (ready_list s @ zs = [] \<and> ready_list s' = [] \<and> running s' = idle_thread s))"

lemma queue_stay: "running s' = running s \<Longrightarrow> ready_list s' = ready_list s @ zs \<Longrightarrow> queue_step s s'"
  by (auto simp: queue_step_def)

lemma view_switched:
  assumes "switching s" "thr s (next_run s) = Some t"
  shows "view (switched s t) = view s"
proof -
  have ni: "next_run s = idle_thread s \<or> st s (next_run s) = Some THREAD_READY"
    using assms by (cases "ready_list s") (auto simp: switching_def core_def lists_ok_def ready_ok_def next_run_def)
  have lv: "st s (next_run s) \<noteq> None" "st s (next_run s) \<noteq> Some THREAD_DYING"
    using ni assms by (auto simp: switching_def core_def lists_ok_def all_ok_def)
  then have "t_status t \<noteq> THREAD_DYING" using assms(2) by (simp add: st_def)
  then have par: "parent_of (thr (switched s t) p) = parent_of (thr s p)" for p
    using assms(2) by (auto simp: switched_def Let_def parent_of_def st_def split: option.splits)
  have same: "idle_thread (switched s t) = idle_thread s" by (simp add: switched_def Let_def)
  show ?thesis
  proof (rule view_eqI)
    show "v_blk (view (switched s t)) p = v_blk (view s) p" for p
      using ni by (auto simp: same st_switched [OF assms(1)])
    show "v_live (view (switched s t)) p = v_live (view s) p" for p
      using lv by (auto simp: st_switched [OF assms(1)])
  qed (simp_all add: par same, simp_all add: switched_def Let_def)
qed

lemma schedule_inv:
  assumes sw: "switching s"
  shows "\<exists>s'. schedule s = Some s' \<and> sched_inv s' \<and> view s' = view s \<and> running s' = next_run s
    \<and> ready_list s' = tl (ready_list s)"
proof -
  have core: "core s" using sw by (simp add: switching_def)
  obtain t where t: "thr s (next_run s) = Some t" using next_run_thread [OF core] by blast
  let ?s = "switched s t" and ?nx = "next_run s" and ?cur = "running s"
  have fields: "running ?s = ?nx" "ready_list ?s = tl (ready_list s)" "all_list ?s = all_list s"
      "idle_thread ?s = idle_thread s" "sema ?s = sema s" "initial_thread ?s = initial_thread s"
      "in_external_intr ?s = in_external_intr s"
    by (simp_all add: switched_def Let_def)
  have run: "lists_ok ((st s)(?nx := Some THREAD_RUNNING)) (tl (ready_list s)) (wait s) (all_list s) (idle_thread s)"
    using lists_ok_run core unfolding next_run_def core_def by blast
  then have lists: "lists_ok (st ?s) (ready_list ?s) (wait ?s) (all_list ?s) (idle_thread ?s)"
    using lists_ok_free [OF run, of ?cur] by (auto simp: st_switched [OF sw] fields wait_cong [OF fields(5)])
  have wf: "wf_threads ?s"
    using core t by (auto simp: core_def wf_threads_def switched_def Let_def split: if_splits)
  have cpu: "cpu_ok ?s" using t by (auto simp: cpu_ok_def switched_def Let_def)
  have "core ?s" using lists wf core by (simp add: core_def fields)
  moreover have "st ?s ?nx = Some THREAD_RUNNING" by (simp add: st_switched [OF sw])
  moreover have "\<forall>p. st ?s p = Some THREAD_RUNNING \<longrightarrow> p = ?nx" using sw by (auto simp: st_switched switching_def)
  moreover have "\<forall>p. st ?s p = Some THREAD_DYING \<longrightarrow> p = initial_thread s"
    using sw by (auto simp: st_switched switching_def split: if_splits)
  ultimately have "sched_inv ?s" unfolding sched_inv_def fields using cpu by blast
  then show ?thesis using schedule_switched [OF sw t] fields view_switched [OF sw t] by auto
qed

section \<open>Operations of the running thread\<close>

lemma sched_running:
  assumes "sched_inv s"
  obtains t where "thr s (running s) = Some t" "t_status t = THREAD_RUNNING" "running s \<noteq> NULL"
    "t_magic t = THREAD_MAGIC"
  using assms by (auto simp: sched_inv_def core_def wf_threads_def st_def)

lemma sched_current: "sched_inv s \<Longrightarrow> thread_current s = Some (running s)"
  by (elim sched_running) (simp add: thread_current_def is_thread_def running_thread_def)

lemma sched_external: "sched_inv s \<Longrightarrow> \<not> in_external_intr s"
  by (simp add: sched_inv_def core_def)

text \<open>The invariant does not depend on these fields.\<close>

lemma sched_inv_cong:
  assumes "thr s' = thr s" "ready_list s' = ready_list s" "sema s' = sema s" "all_list s' = all_list s"
    "idle_thread s' = idle_thread s" "initial_thread s' = initial_thread s" "running s' = running s"
    "cr3 s' = cr3 s" "init_page_dir s' = init_page_dir s" "tss_esp0 s' = tss_esp0 s"
    "in_external_intr s' = in_external_intr s"
  shows "sched_inv s' = sched_inv s"
  unfolding sched_inv_def core_def cpu_ok_def wf_threads_def st_cong [OF assms(1)] wait_cong [OF assms(3)] assms
  by (rule refl)

lemma sched_inv_fields [simp]:
  "sched_inv (s\<lparr>intr_on := b\<rparr>) = sched_inv s" "sched_inv (s\<lparr>kont := k\<rparr>) = sched_inv s"
  "sched_inv (s\<lparr>holder := h\<rparr>) = sched_inv s" "sched_inv (s\<lparr>cond := c\<rparr>) = sched_inv s"
  "sched_inv (s\<lparr>closed_files := f\<rparr>) = sched_inv s" "sched_inv (s\<lparr>freed_pagedirs := f\<rparr>) = sched_inv s"
  "sched_inv (s\<lparr>next_tid := i\<rparr>) = sched_inv s" "sched_inv (s\<lparr>thread_ticks := n\<rparr>) = sched_inv s"
  "sched_inv (s\<lparr>idle_ticks := n\<rparr>) = sched_inv s" "sched_inv (s\<lparr>kernel_ticks := n\<rparr>) = sched_inv s"
  "sched_inv (s\<lparr>user_ticks := n\<rparr>) = sched_inv s" "sched_inv (s\<lparr>yield_on_return := b\<rparr>) = sched_inv s"
  by (rule sched_inv_cong; simp)+

lemma leave_switching:
  assumes inv: "sched_inv s" and t: "thr s (running s) = Some t" "t_magic t' = t_magic t" "t_status t' \<noteq> THREAD_RUNNING"
    and lists: "lists_ok ((st s)(running s := Some (t_status t'))) (ready_list s') (wait s') (all_list s') (idle_thread s)"
    and s': "thr s' = (thr s)(running s \<mapsto> t')" "running s' = running s" "idle_thread s' = idle_thread s"
      "initial_thread s' = initial_thread s" "\<not> intr_on s'" "in_external_intr s' = in_external_intr s"
  shows "switching s'"
proof -
  have st': "st s' = (st s)(running s := Some (t_status t'))" using s'(1) by (auto simp: st_def)
  have "wf_threads s'" using inv t(1,2) s'(1) by (auto simp: sched_inv_def core_def wf_threads_def)
  then have "core s'" using lists s' inv by (simp add: core_def st' sched_inv_def)
  moreover have "\<forall>p. st s' p \<noteq> Some THREAD_RUNNING" using inv t(3) by (auto simp: st' sched_inv_def)
  moreover have "\<forall>p. st s' p = Some THREAD_DYING \<longrightarrow> p = initial_thread s' \<or> p = running s'"
    using inv s' by (auto simp: st' sched_inv_def split: if_splits)
  ultimately show ?thesis using s' by (simp add: switching_def st')
qed

lemma switch_out:
  assumes "sched_inv s" "thr s (running s) = Some t" "t_magic t' = t_magic t" "t_status t' \<noteq> THREAD_RUNNING"
    and "lists_ok ((st s)(running s := Some (t_status t'))) (ready_list s') (wait s') (all_list s') (idle_thread s)"
    and s': "thr s' = (thr s)(running s \<mapsto> t')" "running s' = running s" "idle_thread s' = idle_thread s"
      "initial_thread s' = initial_thread s" "\<not> intr_on s'" "in_external_intr s' = in_external_intr s"
    and q: "ready_list s' = ready_list s @ zs"
  shows "\<exists>s''. schedule s' = Some s'' \<and> sched_inv s'' \<and> view s'' = view s' \<and> queue_step s s''"
proof -
  obtain s'' where s'': "schedule s' = Some s''" "sched_inv s''" "view s'' = view s'" "running s'' = next_run s'"
      "ready_list s'' = tl (ready_list s')"
    using schedule_inv [OF leave_switching [OF assms(1-11)]] by blast
  have "queue_step s s''"
    unfolding queue_step_def s''(4,5) next_run_def s'(3) q by (rule exI [of _ zs]) (cases "ready_list s @ zs", auto)
  then show ?thesis using s'' by blast
qed

lemma sched_lists: "sched_inv s \<Longrightarrow> lists_ok (st s) (ready_list s) (wait s) (all_list s) (idle_thread s)"
  by (simp add: sched_inv_def core_def)

lemma sched_cpu: "sched_inv s \<Longrightarrow> cpu_ok s"
  by (simp add: sched_inv_def)

lemma sched_wf: "sched_inv s \<Longrightarrow> wf_threads s"
  by (simp add: sched_inv_def core_def)

lemma sched_st_running: "sched_inv s \<Longrightarrow> st s (running s) = Some THREAD_RUNNING"
  by (simp add: sched_inv_def)

lemma intr_off_idem [simp]: "\<not> intr_on s \<Longrightarrow> s\<lparr>intr_on := False\<rparr> = s"
  by (cases s) simp

lemma view_blk_same:
  assumes "thr s p = Some t" "t_status t \<noteq> THREAD_DYING" "t_status t' \<noteq> THREAD_DYING"
    "t_is_waited_by_parent t' = t_is_waited_by_parent t" "t_pt t' = t_pt t"
  shows "view (s\<lparr>thr := (thr s)(p \<mapsto> t')\<rparr>) =
    (view s)\<lparr>v_blk := (v_blk (view s))(p := p \<noteq> idle_thread s \<and> t_status t' = THREAD_BLOCKED)\<rparr>"
  using assms by (intro view_eqI) (auto simp: st_def parent_of_def)

text \<open>\<^verbatim>\<open>thread_block\<close>, possibly after the running thread was put on a wait list.\<close>

lemma thread_block_from:
  assumes inv: "sched_inv s" and s0: "s0 = s\<lparr>intr_on := b, sema := sm, kont := k\<rparr>"
    and lists: "lists_ok ((st s)(running s := Some THREAD_BLOCKED)) (ready_list s) (\<lambda>m. s_waiters (sm m)) (all_list s) (idle_thread s)"
  shows "\<exists>s'. thread_block s0 = Some s' \<and> sched_inv s' \<and> queue_step s s'
    \<and> view s' = (view s)\<lparr>v_blk := (v_blk (view s))(running s := running s \<noteq> idle_thread s), v_sema := sm, v_kont := k\<rparr>"
proof -
  obtain t where t: "thr s (running s) = Some t" "t_status t = THREAD_RUNNING" "running s \<noteq> NULL"
      "t_magic t = THREAD_MAGIC"
    using sched_running [OF inv] .
  define t' where "t' = t\<lparr>t_status := THREAD_BLOCKED\<rparr>"
  define s1 where "s1 = s0\<lparr>intr_on := False, thr := (thr s)(running s \<mapsto> t')\<rparr>"
  have "thread_block s0 = schedule s1"
    using t sched_external [OF inv] unfolding s1_def t'_def s0
    by (cases b) (simp_all add: thread_block_def intr_context_def intr_get_level_def intr_set_level_def
      intr_disable_def thread_current_def is_thread_def running_thread_def upd_thread_def)
  moreover have "\<exists>s''. schedule s1 = Some s'' \<and> sched_inv s'' \<and> view s'' = view s1 \<and> queue_step s s''"
  proof (rule switch_out [OF inv t(1), of t' _ "[]"])
    show "lists_ok ((st s)(running s := Some (t_status t'))) (ready_list s1) (wait s1) (all_list s1) (idle_thread s)"
      using lists by (simp add: s1_def s0 t'_def wait_def [abs_def])
  qed (simp_all add: s1_def s0 t'_def)
  moreover have "view s1 = (view s)\<lparr>v_blk := (v_blk (view s))(running s := running s \<noteq> idle_thread s), v_sema := sm, v_kont := k\<rparr>"
    unfolding s1_def s0 t'_def using t by (intro view_eqI) (auto simp: st_def parent_of_def)
  ultimately show ?thesis by metis
qed

lemma thread_block_inv:
  assumes inv: "sched_inv s"
  shows "\<exists>s'. thread_block s = Some s' \<and> sched_inv s' \<and> queue_step s s'
    \<and> view s' = (view s)\<lparr>v_blk := (v_blk (view s))(running s := running s \<noteq> idle_thread s)\<rparr>"
proof -
  have "s = s\<lparr>intr_on := intr_on s, sema := sema s, kont := kont s\<rparr>" by (cases s) simp
  moreover have "lists_ok ((st s)(running s := Some THREAD_BLOCKED)) (ready_list s) (\<lambda>m. s_waiters (sema s m)) (all_list s) (idle_thread s)"
    using lists_ok_block [OF sched_lists [OF inv] sched_st_running [OF inv]] by (simp add: wait_def [abs_def])
  ultimately obtain s' where "thread_block s = Some s'" "sched_inv s'" "queue_step s s'"
      "view s' = (view s)\<lparr>v_blk := (v_blk (view s))(running s := running s \<noteq> idle_thread s), v_sema := sema s, v_kont := kont s\<rparr>"
    using thread_block_from [OF inv, of s] by blast
  then show ?thesis by (auto intro!: view_eqI)
qed

lemma thread_yield_inv:
  assumes inv: "sched_inv s"
  shows "\<exists>s'. thread_yield s = Some s' \<and> sched_inv s' \<and> queue_step s s'
    \<and> view s' = (view s)\<lparr>v_kont := (kont s)(running s := KYield (intr_on s) # kont s (running s))\<rparr>"
proof -
  obtain t where t: "thr s (running s) = Some t" "t_status t = THREAD_RUNNING" "running s \<noteq> NULL"
      "t_magic t = THREAD_MAGIC"
    using sched_running [OF inv] .
  define t' where "t' = t\<lparr>t_status := THREAD_READY\<rparr>"
  define zs where "zs = (if running s \<noteq> idle_thread s then [running s] else [])"
  define s1 where "s1 = s\<lparr>intr_on := False, ready_list := ready_list s @ zs, thr := (thr s)(running s \<mapsto> t'),
    kont := (kont s)(running s := KYield (intr_on s) # kont s (running s))\<rparr>"
  have "thread_yield s = schedule s1"
    using t sched_external [OF inv] sched_current [OF inv] unfolding s1_def t'_def zs_def
    by (cases s) (auto simp: thread_yield_def intr_context_def intr_get_level_def intr_disable_def upd_thread_def Let_def)
  moreover have "\<exists>s''. schedule s1 = Some s'' \<and> sched_inv s'' \<and> view s'' = view s1 \<and> queue_step s s''"
  proof (rule switch_out [OF inv t(1), of t' _ zs])
    show "lists_ok ((st s)(running s := Some (t_status t'))) (ready_list s1) (wait s1) (all_list s1) (idle_thread s)"
      using lists_ok_yield [OF sched_lists [OF inv] sched_st_running [OF inv]]
      by (simp add: s1_def t'_def zs_def wait_def [abs_def] split: if_splits)
  qed (simp_all add: s1_def t'_def)
  moreover have "view s1 = (view s)\<lparr>v_kont := (kont s)(running s := KYield (intr_on s) # kont s (running s))\<rparr>"
    unfolding s1_def t'_def using t by (intro view_eqI) (auto simp: st_def parent_of_def)
  ultimately show ?thesis by metis
qed

lemma cpu_ok_cong:
  assumes "running s' = running s" "thr s' (running s) = thr s (running s)" "cr3 s' = cr3 s"
    "init_page_dir s' = init_page_dir s" "tss_esp0 s' = tss_esp0 s"
  shows "cpu_ok s' = cpu_ok s"
  unfolding cpu_ok_def assms by (rule refl)

text \<open>Operations that leave the running thread running.\<close>

lemma stay_inv:
  assumes inv: "sched_inv s" and lists: "lists_ok (st s') (ready_list s') (wait s') (all_list s') (idle_thread s)"
    and wf: "wf_threads s'" and cpu: "cpu_ok s'"
    and st: "\<And>p. st s' p = Some THREAD_RUNNING \<longleftrightarrow> st s p = Some THREAD_RUNNING"
      "\<And>p. st s' p = Some THREAD_DYING \<longleftrightarrow> st s p = Some THREAD_DYING"
    and same: "idle_thread s' = idle_thread s" "initial_thread s' = initial_thread s"
      "running s' = running s" "in_external_intr s' = in_external_intr s"
  shows "sched_inv s'"
  using inv lists wf cpu unfolding sched_inv_def core_def same st by simp

lemma upd_thread_inv:
  assumes inv: "sched_inv s" and t: "thr s p = Some t" "t_status t' = t_status t" "t_magic t' = t_magic t"
    "t_pagedir t' = t_pagedir t"
  shows "sched_inv (s\<lparr>thr := (thr s)(p \<mapsto> t')\<rparr>)"
proof -
  let ?s = "s\<lparr>thr := (thr s)(p \<mapsto> t')\<rparr>"
  have st: "st ?s = st s" using t by (auto simp: st_def)
  have "wf_threads ?s" using sched_wf [OF inv] t by (intro wf_threads_upd) auto
  moreover have "cpu_ok ?s" using sched_cpu [OF inv] t by (cases "p = running s") (auto simp: cpu_ok_def)
  moreover have "lists_ok (st ?s) (ready_list ?s) (wait ?s) (all_list ?s) (idle_thread s)"
    unfolding st using sched_lists [OF inv] by (simp add: wait_def [abs_def])
  ultimately show ?thesis by (intro stay_inv [OF inv]) (unfold st, simp_all)
qed

lemma thread_unblock_eq:
  assumes "is_thread s p" "thr s p = Some t" "t_status t = THREAD_BLOCKED" "\<not> in_external_intr s \<or> \<not> intr_on s"
  shows "thread_unblock s p = Some (s\<lparr>ready_list := ready_list s @ [p], thr := (thr s)(p \<mapsto> t\<lparr>t_status := THREAD_READY\<rparr>)\<rparr>)"
  using assms
  by (cases s) (auto simp: thread_unblock_def intr_disable_def intr_get_level_def upd_thread_def
    intr_set_level_def intr_enable_def intr_context_def Let_def)

text \<open>Waking \<open>p\<close>, after it was taken off a wait list if it was on one.\<close>

definition woken :: "kernel \<Rightarrow> ptr \<Rightarrow> thread \<Rightarrow> kernel" where
  "woken s p t = s\<lparr>ready_list := ready_list s @ [p], thr := (thr s)(p \<mapsto> t\<lparr>t_status := THREAD_READY\<rparr>)\<rparr>"

lemma woken_fields [simp]:
  "running (woken s p t) = running s" "idle_thread (woken s p t) = idle_thread s" "intr_on (woken s p t) = intr_on s"
  "sema (woken s p t) = sema s" "in_external_intr (woken s p t) = in_external_intr s"
  "ready_list (woken s p t) = ready_list s @ [p]" "kont (woken s p t) = kont s" "all_list (woken s p t) = all_list s"
  "initial_thread (woken s p t) = initial_thread s"
  by (simp_all add: woken_def)

lemma woken_inv:
  assumes inv: "sched_inv s" and t: "thr s p = Some t" "t_status t = THREAD_BLOCKED"
    and lists: "lists_ok ((st s)(p := Some THREAD_READY)) (ready_list s @ [p]) (\<lambda>m. s_waiters (sm m)) (all_list s) (idle_thread s)"
  shows "sched_inv (woken (s\<lparr>sema := sm\<rparr>) p t)"
proof -
  let ?s = "woken (s\<lparr>sema := sm\<rparr>) p t"
  have np: "p \<noteq> running s" using t sched_st_running [OF inv] by (auto simp: st_def)
  have st1: "st ?s = (st s)(p := Some THREAD_READY)" by (auto simp: woken_def st_def)
  show ?thesis
  proof (rule stay_inv [OF inv])
    show "lists_ok (st ?s) (ready_list ?s) (wait ?s) (all_list ?s) (idle_thread s)"
      unfolding st1 using lists by (simp add: wait_def [abs_def])
    show "wf_threads ?s" using sched_wf [OF inv] t by (auto simp: woken_def wf_threads_def)
    have "cpu_ok ?s = cpu_ok s" by (rule cpu_ok_cong) (use np in \<open>simp_all add: woken_def\<close>)
    then show "cpu_ok ?s" using sched_cpu [OF inv] by simp
  qed (unfold st1, use t in \<open>auto simp: st_def\<close>)
qed

lemma view_woken:
  assumes "thr s p = Some t" "t_status t = THREAD_BLOCKED"
  shows "view (woken s p t) = (view s)\<lparr>v_blk := (v_blk (view s))(p := False)\<rparr>"
  using assms by (intro view_eqI) (auto simp: woken_def st_def parent_of_def)

lemma thread_unblock_inv:
  assumes inv: "sched_inv s" and p: "st s p = Some THREAD_BLOCKED" "\<forall>m. p \<notin> set (wait s m)" "p \<noteq> idle_thread s"
  shows "\<exists>t. thr s p = Some t \<and> thread_unblock s p = Some (woken s p t) \<and> sched_inv (woken s p t)
    \<and> view (woken s p t) = (view s)\<lparr>v_blk := (v_blk (view s))(p := False)\<rparr>
    \<and> thr (woken s p t) (running s) = thr s (running s)"
proof -
  obtain t where t: "thr s p = Some t" "t_status t = THREAD_BLOCKED" using p(1) by (auto simp: st_def)
  have np: "p \<noteq> running s" using p(1) sched_st_running [OF inv] by auto
  have "sched_inv (woken (s\<lparr>sema := sema s\<rparr>) p t)"
    using lists_ok_wake [OF sched_lists [OF inv] p] by (intro woken_inv [OF inv t]) (simp add: wait_def [abs_def])
  moreover have "thread_unblock s p = Some (woken s p t)"
    using thread_unblock_eq [OF is_thread_wf [OF sched_wf [OF inv] t(1)] t] sched_external [OF inv]
    by (simp add: woken_def)
  ultimately show ?thesis using t np view_woken [OF t] by (simp add: woken_def)
qed

section \<open>Exit and creation\<close>

lemma process_exit_inv:
  assumes inv: "sched_inv s"
  shows "\<exists>s' t'. process_exit s = Some s' \<and> sched_inv s' \<and> view s' = view s \<and> running s' = running s
    \<and> ready_list s' = ready_list s \<and> thr s' (running s) = Some t'
    \<and> parent_of (Some t') = parent_of (thr s (running s)) \<and> t_status t' = THREAD_RUNNING"
proof -
  obtain t where t: "thr s (running s) = Some t" "t_status t = THREAD_RUNNING"
    using sched_running [OF inv] by blast
  define s0 where "s0 = (if t_executable_f t \<noteq> NULL then s\<lparr>closed_files := t_executable_f t # closed_files s\<rparr> else s)"
  have s0: "sched_inv s0" "thr s0 = thr s" "running s0 = running s" "view s0 = view s" "ready_list s0 = ready_list s"
    using inv by (simp_all add: s0_def)
  show ?thesis
  proof (cases "t_pagedir t = NULL")
    case True
    then have "process_exit s = Some s0"
      using t sched_current [OF inv] by (simp add: process_exit_def s0_def)
    then show ?thesis using s0 t by simp
  next
    case False
    define t' where "t' = t\<lparr>t_pagedir := NULL\<rparr>"
    define s1 where "s1 = s0\<lparr>thr := (thr s)(running s \<mapsto> t'), cr3 := init_page_dir s0,
      freed_pagedirs := t_pagedir t # freed_pagedirs s0\<rparr>"
    have st1: "st s1 = st s" using t by (auto simp: st_def s1_def t'_def)
    have "sched_inv s1"
    proof (rule stay_inv [OF s0(1)])
      show "lists_ok (st s1) (ready_list s1) (wait s1) (all_list s1) (idle_thread s0)"
        unfolding st1 using sched_lists [OF s0(1)] st_cong [OF s0(2)] by (simp add: s1_def wait_def [abs_def])
      show "wf_threads s1" using sched_wf [OF inv] t by (auto simp: s1_def t'_def wf_threads_def)
      show "cpu_ok s1" using sched_cpu [OF s0(1)] s0(3) by (simp add: s1_def t'_def cpu_ok_def)
    qed (unfold st1 st_cong [OF s0(2)], simp_all add: s1_def)
    moreover have "process_exit s = Some s1"
      using t False sched_current [OF inv] s0(2)
      by (auto simp: process_exit_def s1_def t'_def s0_def upd_thread_def pagedir_activate_def Let_def)
    moreover have "view s1 = view s0"
      unfolding s1_def t'_def using t s0(2) by (intro view_eqI) (auto simp: st_def parent_of_def)
    ultimately show ?thesis using s0 t by (simp add: s1_def t'_def parent_of_def)
  qed
qed

text \<open>
  A thread that its parent waits for wakes the parent when it exits, which succeeds when the
  parent sleeps and is on no wait list.
\<close>

definition parent_ok :: "kernel \<Rightarrow> bool" where
  "parent_ok s \<longleftrightarrow> (case parent_of (thr s (running s)) of (w, p) \<Rightarrow> w \<longrightarrow> p \<noteq> NULL \<longrightarrow>
     v_blk (view s) p \<and> (\<forall>m. p \<notin> set (wait s m)))"

definition v_exit :: "ptr \<Rightarrow> kview \<Rightarrow> kview" where
  "v_exit c v = v\<lparr>v_blk := (case v_par v c of (w, p) \<Rightarrow> if w \<and> p \<noteq> NULL then (v_blk v)(p := False) else v_blk v),
     v_live := (v_live v)(c := False), v_par := (v_par v)(c := (False, NULL))\<rparr>"

lemma die_inv:
  assumes inv: "sched_inv s" and idle: "running s \<noteq> idle_thread s" and t: "thr s (running s) = Some t"
  shows "\<exists>s'. schedule (s\<lparr>intr_on := False, all_list := remove1 (running s) (all_list s),
      thr := (thr s)(running s \<mapsto> t\<lparr>t_status := THREAD_DYING\<rparr>)\<rparr>) = Some s'
    \<and> sched_inv s' \<and> queue_step s s'
    \<and> view s' = (view s)\<lparr>v_live := (v_live (view s))(running s := False), v_par := (v_par (view s))(running s := (False, NULL))\<rparr>"
proof -
  define t' where "t' = t\<lparr>t_status := THREAD_DYING\<rparr>"
  define s1 where "s1 = s\<lparr>intr_on := False, all_list := remove1 (running s) (all_list s), thr := (thr s)(running s \<mapsto> t')\<rparr>"
  have "\<exists>s''. schedule s1 = Some s'' \<and> sched_inv s'' \<and> view s'' = view s1 \<and> queue_step s s''"
  proof (rule switch_out [OF inv t, of t' _ "[]"])
    show "lists_ok ((st s)(running s := Some (t_status t'))) (ready_list s1) (wait s1) (all_list s1) (idle_thread s)"
      using lists_ok_die [OF sched_lists [OF inv] sched_st_running [OF inv] idle]
      by (simp add: s1_def t'_def wait_def [abs_def])
  qed (simp_all add: s1_def t'_def)
  moreover have "view s1 = (view s)\<lparr>v_live := (v_live (view s))(running s := False), v_par := (v_par (view s))(running s := (False, NULL))\<rparr>"
    unfolding s1_def t'_def using t sched_st_running [OF inv] by (intro view_eqI) (auto simp: parent_of_def)
  ultimately show ?thesis unfolding s1_def t'_def by metis
qed

lemma queue_step_trans:
  assumes "running s1 = running s" "ready_list s1 = ready_list s @ zs" "idle_thread s1 = idle_thread s" "queue_step s1 s'"
  shows "queue_step s s'"
proof -
  obtain ys where "(running s' = running s \<and> ready_list s' = (ready_list s @ zs) @ ys)
     \<or> (ready_list s @ zs) @ ys = running s' # ready_list s'
     \<or> ((ready_list s @ zs) @ ys = [] \<and> ready_list s' = [] \<and> running s' = idle_thread s)"
    using assms unfolding queue_step_def by metis
  then show ?thesis unfolding queue_step_def append_assoc by (intro exI [of _ "zs @ ys"])
qed

lemma view_idle: "view s' = view s \<Longrightarrow> idle_thread s' = idle_thread s"
  by (metis view_fields(8))

lemma thread_exit_inv:
  assumes inv: "sched_inv s" and idle: "running s \<noteq> idle_thread s" and parent: "parent_ok s"
  shows "\<exists>s'. thread_exit s = Some s' \<and> sched_inv s' \<and> view s' = v_exit (running s) (view s) \<and> queue_step s s'"
proof -
  obtain s1 t where s1: "process_exit s = Some s1" "sched_inv s1" "view s1 = view s" "running s1 = running s"
      "ready_list s1 = ready_list s" and t: "thr s1 (running s) = Some t" "t_status t = THREAD_RUNNING"
      and pt: "parent_of (thr s (running s)) = (t_is_waited_by_parent t, t_pt t)"
    using process_exit_inv [OF inv] by (force simp: parent_of_def)
  have w1: "wait s1 = wait s" using s1(3) by (metis view_fields(4) wait_cong)
  define c where "c = (t_is_waited_by_parent t \<and> t_pt t \<noteq> NULL)"
  obtain s2 zs where s2: "(if c then thread_unblock s1 (t_pt t) else Some s1) = Some s2" "sched_inv s2"
      "running s2 = running s" "idle_thread s2 = idle_thread s" "ready_list s2 = ready_list s @ zs" "thr s2 (running s) = Some t"
      "view s2 = (view s)\<lparr>v_blk := if c then (v_blk (view s))(t_pt t := False) else v_blk (view s)\<rparr>"
  proof (cases c)
    case True
    then have "v_blk (view s1) (t_pt t)" and nw: "\<forall>m. t_pt t \<notin> set (wait s1 m)"
      using parent pt w1 s1(3) by (auto simp: parent_ok_def c_def)
    then have b: "st s1 (t_pt t) = Some THREAD_BLOCKED" "t_pt t \<noteq> idle_thread s1" by simp_all
    obtain t' where "thread_unblock s1 (t_pt t) = Some (woken s1 (t_pt t) t')" "sched_inv (woken s1 (t_pt t) t')"
        "view (woken s1 (t_pt t) t') = (view s)\<lparr>v_blk := (v_blk (view s))(t_pt t := False)\<rparr>"
        "thr (woken s1 (t_pt t) t') (running s) = Some t"
      using thread_unblock_inv [OF s1(2) b(1) nw b(2)] s1(3,4) t by auto
    then show ?thesis using True that [of "woken s1 (t_pt t) t'" "[t_pt t]"] s1 view_idle [OF s1(3)] by simp
  next
    case False
    then show ?thesis using that [of s1 "[]"] s1 t view_idle [OF s1(3)] by simp
  qed
  have cur: "thread_current (s2\<lparr>intr_on := False\<rparr>) = Some (running s)"
    using sched_current [of "s2\<lparr>intr_on := False\<rparr>"] s2(2,3) by simp
  have "thread_exit s = schedule (s2\<lparr>intr_on := False, all_list := remove1 (running s2) (all_list s2),
      thr := (thr s2)(running s2 \<mapsto> t\<lparr>t_status := THREAD_DYING\<rparr>)\<rparr>)"
    using sched_external [OF inv] s1(1,4) sched_current [OF s1(2)] t s2(1,3,6) cur unfolding c_def
    by (simp add: thread_exit_def intr_context_def intr_disable_def upd_thread_def)
  moreover obtain s3 where "schedule (s2\<lparr>intr_on := False, all_list := remove1 (running s2) (all_list s2),
      thr := (thr s2)(running s2 \<mapsto> t\<lparr>t_status := THREAD_DYING\<rparr>)\<rparr>) = Some s3" "sched_inv s3" "queue_step s2 s3"
      "view s3 = (view s2)\<lparr>v_live := (v_live (view s2))(running s := False), v_par := (v_par (view s2))(running s := (False, NULL))\<rparr>"
    using die_inv [OF s2(2), of t] idle s2(3,4,6) by metis
  moreover have "view s3 = v_exit (running s) (view s)"
    using calculation(5) pt unfolding v_exit_def s2(7) c_def by simp
  ultimately show ?thesis using queue_step_trans [OF s2(3,5,4)] by (metis (no_types))
qed

lemma create_inv:
  assumes inv: "sched_inv s" and p: "thr s p = None" "p \<noteq> NULL"
    and t: "t_status t = THREAD_BLOCKED" "t_magic t = THREAD_MAGIC"
    and s0: "s0 = s\<lparr>thr := (thr s)(p \<mapsto> t), all_list := all_list s @ [p], next_tid := n, kont := (kont s)(p := [KStart])\<rparr>"
  shows "\<exists>s'. thread_unblock s0 p = Some s' \<and> sched_inv s' \<and> queue_step s s' \<and> running s' = running s
    \<and> view s' = (view s)\<lparr>v_live := (v_live (view s))(p := True), v_par := (v_par (view s))(p := (t_is_waited_by_parent t, t_pt t)),
        v_kont := (kont s)(p := [KStart])\<rparr>"
proof -
  have np: "p \<noteq> running s" using p(1) sched_running [OF inv] by (metis option.distinct(1))
  have stp: "st s p = None" using p(1) by (simp add: st_def)
  define s1 where "s1 = woken s0 p t"
  have st1: "st s1 = (st s)(p := Some THREAD_READY)" by (auto simp: s1_def woken_def s0 st_def)
  have "sched_inv s1"
  proof (rule stay_inv [OF inv])
    show "lists_ok (st s1) (ready_list s1) (wait s1) (all_list s1) (idle_thread s)"
      unfolding st1 using lists_ok_new [OF sched_lists [OF inv] stp] by (simp add: s1_def s0 wait_def [abs_def])
    show "wf_threads s1" using sched_wf [OF inv] t p(2) by (auto simp: s1_def woken_def s0 wf_threads_def)
    have "cpu_ok s1 = cpu_ok s" by (rule cpu_ok_cong) (use np in \<open>simp_all add: s1_def woken_def s0\<close>)
    then show "cpu_ok s1" using sched_cpu [OF inv] by simp
  qed (unfold st1, use stp in \<open>auto simp: s1_def s0\<close>)
  moreover have "thread_unblock s0 p = Some s1"
    unfolding s1_def woken_def using p(2) t sched_external [OF inv]
    by (intro thread_unblock_eq) (auto simp: is_thread_def s0)
  moreover have "view s1 = (view s)\<lparr>v_live := (v_live (view s))(p := True), v_par := (v_par (view s))(p := (t_is_waited_by_parent t, t_pt t)),
        v_kont := (kont s)(p := [KStart])\<rparr>"
    unfolding s1_def woken_def s0 using stp t by (intro view_eqI) (auto simp: st_def parent_of_def)
  ultimately show ?thesis by (auto simp: s1_def s0 intro: queue_stay)
qed

text \<open>
  A page that \<^verbatim>\<open>palloc_get_page\<close> returns is not the page of a thread.
\<close>

lemma thread_create_inv:
  assumes inv: "sched_inv s" and p: "thr s p = None" "p \<noteq> NULL" "func \<noteq> NULL" "PRI_MIN \<le> pr" "pr \<le> PRI_MAX"
  shows "\<exists>s'. thread_create_with_pt s p name pr func pt = Some (s', next_tid s) \<and> sched_inv s' \<and> queue_step s s'
    \<and> running s' = running s
    \<and> view s' = (view s)\<lparr>v_live := (v_live (view s))(p := True), v_par := (v_par (view s))(p := (False, pt)),
        v_kont := (kont s)(p := [KStart])\<rparr>"
proof -
  define t where "t = \<lparr>t_tid = next_tid s, t_status = THREAD_BLOCKED, t_name = take 63 name, t_stack = p + PGSIZE - 12 - 4 - 28,
       t_priority = pr, t_pagedir = NULL, t_magic = THREAD_MAGIC, t_fd_list = [],
       t_sub_threads = [], t_pt = pt, t_is_waited_by_parent = False, t_executable_f = NULL\<rparr>"
  define s0 where "s0 = s\<lparr>thr := (thr s)(p \<mapsto> t), all_list := all_list s @ [p], next_tid := next_tid s + 1,
    kont := (kont s)(p := [KStart])\<rparr>"
  obtain s' where s': "thread_unblock s0 p = Some s'" "sched_inv s'" "queue_step s s'" "running s' = running s"
      "view s' = (view s)\<lparr>v_live := (v_live (view s))(p := True), v_par := (v_par (view s))(p := (False, pt)),
        v_kont := (kont s)(p := [KStart])\<rparr>"
    using create_inv [OF inv p(1,2) _ _ s0_def] by (auto simp: t_def)
  have "thread_create_with_pt s p name pr func pt = map_option (\<lambda>s. (s, next_tid s0 - 1)) (thread_unblock s0 p)"
    using p sched_external [OF inv] unfolding s0_def t_def
    by (cases s) (auto simp: thread_create_with_pt_def init_thread_def allocate_tid_def upd_thread_def intr_disable_def
      alloc_frame_def is_thread_def intr_set_level_def intr_enable_def intr_context_def intr_get_level_def Let_def
      map_conv_bind_option comp_def)
  then show ?thesis using s' by (simp add: s0_def)
qed

lemma thread_create_no_parent:
  "thread_create s p name pr func = thread_create_with_pt s p name pr func NULL" if "thr s p = None"
  by (auto simp: thread_create_def thread_create_with_pt_def init_thread_def allocate_tid_def upd_thread_def)

section \<open>Interrupts\<close>

text \<open>
  A handler runs in interrupt context; it must leave the interrupt flag alone, keep the invariant
  and not switch threads.
\<close>

definition handler_ok :: "(kernel \<Rightarrow> kernel option) \<Rightarrow> (kview \<Rightarrow> kview) \<Rightarrow> kernel \<Rightarrow> bool" where
  "handler_ok h f s \<longleftrightarrow> (\<exists>s' zs. h s = Some s' \<and> in_external_intr s' \<and> \<not> intr_on s' \<and> sched_inv (s'\<lparr>in_external_intr := False\<rparr>)
     \<and> view s' = f (view s) \<and> running s' = running s \<and> ready_list s' = ready_list s @ zs \<and> idle_thread s' = idle_thread s)"

definition push_frame :: "kernel \<Rightarrow> kframe \<Rightarrow> kernel" where
  "push_frame s f = s\<lparr>kont := (kont s)(running s := f # kont s (running s))\<rparr>"

definition in_handler :: "kernel \<Rightarrow> kernel" where
  "in_handler s = (push_frame s (KIret (intr_on s)))\<lparr>intr_on := False, in_external_intr := True, yield_on_return := False\<rparr>"

lemma in_handler_fields [simp]:
  "running (in_handler s) = running s" "ready_list (in_handler s) = ready_list s" "thr (in_handler s) = thr s"
  "idle_thread (in_handler s) = idle_thread s" "sema (in_handler s) = sema s" "in_external_intr (in_handler s)"
  "\<not> intr_on (in_handler s)" "kont (in_handler s) = (kont s)(running s := KIret (intr_on s) # kont s (running s))"
  "view (in_handler s) = (view s)\<lparr>v_kont := (kont s)(running s := KIret (intr_on s) # kont s (running s))\<rparr>"
  by (simp_all add: in_handler_def push_frame_def)

lemma in_handler_inv: "sched_inv s \<Longrightarrow> sched_inv ((in_handler s)\<lparr>in_external_intr := False\<rparr>)"
  using sched_external [of s]
  by (subst sched_inv_cong [of _ s]) (simp_all add: in_handler_def push_frame_def)

lemma intr_handler_inv:
  assumes inv: "sched_inv s" and h: "handler_ok h f (in_handler s)"
  shows "\<exists>s' k. intr_handler h s = Some s' \<and> sched_inv s' \<and> queue_step s s'
    \<and> view s' = (f (view (in_handler s)))\<lparr>v_kont := (v_kont (f (view (in_handler s))))
        (running s := k @ v_kont (f (view (in_handler s))) (running s))\<rparr> \<and> (k = [] \<or> k = [KYield False])"
proof -
  obtain s1 zs where s1: "h (in_handler s) = Some s1" "in_external_intr s1" "\<not> intr_on s1" "sched_inv (s1\<lparr>in_external_intr := False\<rparr>)"
      "view s1 = f (view (in_handler s))" "running s1 = running s" "ready_list s1 = ready_list s @ zs" "idle_thread s1 = idle_thread s"
    using h by (auto simp: handler_ok_def)
  let ?s2 = "s1\<lparr>in_external_intr := False\<rparr>"
  have eq: "intr_handler h s = (if yield_on_return s1 then thread_yield ?s2 else Some ?s2)"
    using s1(1-3) sched_external [OF inv]
    by (cases s) (simp add: intr_handler_def in_handler_def push_frame_def intr_get_level_def intr_context_def Let_def)
  show ?thesis
  proof (cases "yield_on_return s1")
    case True
    obtain s' where "thread_yield ?s2 = Some s'" "sched_inv s'" "queue_step ?s2 s'"
        "view s' = (view ?s2)\<lparr>v_kont := (kont ?s2)(running ?s2 := KYield (intr_on ?s2) # kont ?s2 (running ?s2))\<rparr>"
      using thread_yield_inv [OF s1(4)] by blast
    moreover from this have "queue_step s s'" using queue_step_trans [of ?s2 s zs s'] s1 by simp
    moreover have "kont s1 = v_kont (f (view (in_handler s)))" using s1(5) by (metis view_fields(7))
    ultimately show ?thesis using eq True s1 by (intro exI [of _ s'] exI [of _ "[KYield False]"]) simp
  next
    case False
    have "queue_step s ?s2" using s1 by (intro queue_stay [of _ _ zs]) simp_all
    moreover have "view ?s2 = (f (view (in_handler s)))\<lparr>v_kont := (v_kont (f (view (in_handler s))))
        (running s := [] @ v_kont (f (view (in_handler s))) (running s))\<rparr>" using s1 by simp
    ultimately show ?thesis using eq False s1(4) by (intro exI [of _ ?s2] exI [of _ "[]"]) simp
  qed
qed

lemma thread_tick_eq:
  assumes "thread_current h = Some c" "thr h c = Some t" "in_external_intr h"
  shows "thread_tick h = Some (h\<lparr>idle_ticks := if c = idle_thread h then Suc (idle_ticks h) else idle_ticks h,
    user_ticks := if c \<noteq> idle_thread h \<and> t_pagedir t \<noteq> NULL then Suc (user_ticks h) else user_ticks h,
    kernel_ticks := if c \<noteq> idle_thread h \<and> \<not> t_pagedir t \<noteq> NULL then Suc (kernel_ticks h) else kernel_ticks h,
    thread_ticks := Suc (thread_ticks h), yield_on_return := (TIME_SLICE \<le> Suc (thread_ticks h) \<or> yield_on_return h)\<rparr>)"
  unfolding thread_tick_def assms(1)
  by (cases h, cases "c = idle_thread h"; cases "t_pagedir t = NULL"; cases "TIME_SLICE \<le> Suc (thread_ticks h)")
    (use assms(2,3) in \<open>simp_all add: intr_yield_on_return_def intr_context_def Let_def\<close>)

lemma thread_tick_ok:
  assumes inv: "sched_inv s"
  shows "handler_ok thread_tick (\<lambda>v. v) (in_handler s)"
proof -
  obtain t where t: "thr s (running s) = Some t" "t_status t = THREAD_RUNNING" "running s \<noteq> NULL"
      "t_magic t = THREAD_MAGIC"
    using sched_running [OF inv] .
  have cur: "thread_current (in_handler s) = Some (running s)"
    using t by (simp add: thread_current_def is_thread_def running_thread_def)
  let ?idle = "running s = idle_thread s" and ?user = "t_pagedir t \<noteq> NULL" and ?h = "in_handler s"
  let ?s = "?h\<lparr>idle_ticks := if ?idle then Suc (idle_ticks ?h) else idle_ticks ?h,
    user_ticks := if \<not> ?idle \<and> ?user then Suc (user_ticks ?h) else user_ticks ?h,
    kernel_ticks := if \<not> ?idle \<and> \<not> ?user then Suc (kernel_ticks ?h) else kernel_ticks ?h,
    thread_ticks := Suc (thread_ticks ?h), yield_on_return := (TIME_SLICE \<le> Suc (thread_ticks ?h) \<or> yield_on_return ?h)\<rparr>"
  have tick: "thread_tick ?h = Some ?s"
    using thread_tick_eq [OF cur, of t] t(1) by simp
  have "sched_inv (?s\<lparr>in_external_intr := False\<rparr>) = sched_inv ((in_handler s)\<lparr>in_external_intr := False\<rparr>)"
    by (rule sched_inv_cong) simp_all
  then show ?thesis using tick in_handler_inv [OF inv] by (auto simp: handler_ok_def)
qed

end
