(* ===== verification/Synch.thy ===== *)
theory Synch
  imports Sched
begin

text \<open>
  Semaphores, locks and condition variables (\<^verbatim>\<open>threads/synch.c\<close>) on top of the scheduler. A call
  that goes on after a point where the thread can be switched out pushes the rest of its work as
  a frame on \<open>kont\<close>; \<open>resume\<close> executes the topmost frame of the running thread. The theory shows
  that each operation, started in a state that satisfies the scheduler invariant, returns, keeps
  the invariant, and acts on the view of the state as the corresponding abstract operation, which
  knows nothing of the run queue.
\<close>

section \<open>Semaphores\<close>

definition set_sema :: "kernel \<Rightarrow> ptr \<Rightarrow> semaphore \<Rightarrow> kernel" where
  "set_sema s m x = s\<lparr>sema := (sema s)(m := x)\<rparr>"

definition sema_init :: "kernel \<Rightarrow> ptr \<Rightarrow> nat \<Rightarrow> kernel option" where
  "sema_init s m v = do {
     ASSERT (m \<noteq> NULL);
     Some (set_sema s m \<lparr>s_value = v, s_waiters = []\<rparr>)
   }"

text \<open>One test of the loop condition of \<^verbatim>\<open>sema_down\<close> and what follows it.\<close>

definition sema_down_loop :: "kernel \<Rightarrow> ptr \<Rightarrow> bool \<Rightarrow> kernel option" where
  "sema_down_loop s m old_level =
     (if s_value (sema s m) = 0 then do {
        c \<leftarrow> thread_current s;
        let s = set_sema s m ((sema s m)\<lparr>s_waiters := s_waiters (sema s m) @ [c]\<rparr>);
        thread_block (push_frame s (KDown m old_level))
      } else do {
        let s = set_sema s m ((sema s m)\<lparr>s_value := s_value (sema s m) - 1\<rparr>);
        intr_set_level s old_level
      })"

definition sema_down :: "kernel \<Rightarrow> ptr \<Rightarrow> kernel option" where
  "sema_down s m = do {
     ASSERT (m \<noteq> NULL);
     ASSERT (\<not> intr_context s);
     let (s, old_level) = intr_disable s;
     sema_down_loop s m old_level
   }"

definition sema_try_down :: "kernel \<Rightarrow> ptr \<Rightarrow> (kernel \<times> bool) option" where
  "sema_try_down s m = do {
     ASSERT (m \<noteq> NULL);
     let (s, old_level) = intr_disable s;
     let (s, success) =
       (if s_value (sema s m) > 0
        then (set_sema s m ((sema s m)\<lparr>s_value := s_value (sema s m) - 1\<rparr>), True)
        else (s, False));
     s \<leftarrow> intr_set_level s old_level;
     Some (s, success)
   }"

definition sema_up :: "kernel \<Rightarrow> ptr \<Rightarrow> kernel option" where
  "sema_up s m = do {
     ASSERT (m \<noteq> NULL);
     let (s, old_level) = intr_disable s;
     s \<leftarrow> (case s_waiters (sema s m) of
         [] \<Rightarrow> Some s
       | t # ts \<Rightarrow> thread_unblock (set_sema s m ((sema s m)\<lparr>s_waiters := ts\<rparr>)) t);
     let s = set_sema s m ((sema s m)\<lparr>s_value := add32 (s_value (sema s m)) 1\<rparr>);
     intr_set_level s old_level
   }"

section \<open>Locks\<close>

text \<open>The semaphore of a lock follows its holder field.\<close>

definition lock_sema :: "ptr \<Rightarrow> ptr" where
  "lock_sema l = l + 4"

definition lock_init :: "kernel \<Rightarrow> ptr \<Rightarrow> kernel option" where
  "lock_init s l = do {
     ASSERT (l \<noteq> NULL);
     sema_init (s\<lparr>holder := (holder s)(l := NULL)\<rparr>) (lock_sema l) 1
   }"

definition lock_held_by_current_thread :: "kernel \<Rightarrow> ptr \<Rightarrow> bool option" where
  "lock_held_by_current_thread s l = do {
     ASSERT (l \<noteq> NULL);
     c \<leftarrow> thread_current s;
     Some (holder s l = c)
   }"

definition lock_acquire :: "kernel \<Rightarrow> ptr \<Rightarrow> kernel option" where
  "lock_acquire s l = do {
     ASSERT (l \<noteq> NULL);
     ASSERT (\<not> intr_context s);
     held \<leftarrow> lock_held_by_current_thread s l;
     ASSERT (\<not> held);
     sema_down (push_frame s (KHolder l)) (lock_sema l)
   }"

definition lock_try_acquire :: "kernel \<Rightarrow> ptr \<Rightarrow> (kernel \<times> bool) option" where
  "lock_try_acquire s l = do {
     ASSERT (l \<noteq> NULL);
     held \<leftarrow> lock_held_by_current_thread s l;
     ASSERT (\<not> held);
     (s, success) \<leftarrow> sema_try_down s (lock_sema l);
     Some (if success then push_frame s (KHolder l) else s, success)
   }"

definition lock_release :: "kernel \<Rightarrow> ptr \<Rightarrow> kernel option" where
  "lock_release s l = do {
     ASSERT (l \<noteq> NULL);
     held \<leftarrow> lock_held_by_current_thread s l;
     ASSERT held;
     Some (push_frame (s\<lparr>holder := (holder s)(l := NULL)\<rparr>) (KUp (lock_sema l)))
   }"

section \<open>Condition variables\<close>

text \<open>\<open>w\<close> is the address of the \<^verbatim>\<open>struct semaphore_elem\<close> on the stack of the waiting thread.\<close>

definition elem_sema :: "ptr \<Rightarrow> ptr" where
  "elem_sema w = w + 8"

definition cond_init :: "kernel \<Rightarrow> ptr \<Rightarrow> kernel option" where
  "cond_init s cv = do {
     ASSERT (cv \<noteq> NULL);
     Some (s\<lparr>cond := (cond s)(cv := [])\<rparr>)
   }"

definition cond_wait :: "kernel \<Rightarrow> ptr \<Rightarrow> ptr \<Rightarrow> ptr \<Rightarrow> kernel option" where
  "cond_wait s cv l w = do {
     ASSERT (cv \<noteq> NULL);
     ASSERT (l \<noteq> NULL);
     ASSERT (\<not> intr_context s);
     held \<leftarrow> lock_held_by_current_thread s l;
     ASSERT held;
     s \<leftarrow> sema_init s (elem_sema w) 0;
     let s = s\<lparr>cond := (cond s)(cv := cond s cv @ [w])\<rparr>;
     lock_release (push_frame (push_frame s (KAcquire l)) (KSema (elem_sema w))) l
   }"

definition cond_signal :: "kernel \<Rightarrow> ptr \<Rightarrow> ptr \<Rightarrow> kernel option" where
  "cond_signal s cv l = do {
     ASSERT (cv \<noteq> NULL);
     ASSERT (l \<noteq> NULL);
     ASSERT (\<not> intr_context s);
     held \<leftarrow> lock_held_by_current_thread s l;
     ASSERT held;
     case cond s cv of
       [] \<Rightarrow> Some s
     | w # ws \<Rightarrow> sema_up (s\<lparr>cond := (cond s)(cv := ws)\<rparr>) (elem_sema w)
   }"

fun cond_broadcast_loop :: "nat \<Rightarrow> kernel \<Rightarrow> ptr \<Rightarrow> ptr \<Rightarrow> kernel option" where
  "cond_broadcast_loop 0 s cv l = None"
| "cond_broadcast_loop (Suc n) s cv l =
     (if cond s cv \<noteq> [] then do {
        s \<leftarrow> cond_signal s cv l;
        cond_broadcast_loop n s cv l
      } else Some s)"

text \<open>Every round takes one waiter off, so the fuel suffices (\<open>cond_broadcast_inv\<close> below).\<close>

definition cond_broadcast :: "kernel \<Rightarrow> ptr \<Rightarrow> ptr \<Rightarrow> kernel option" where
  "cond_broadcast s cv l = do {
     ASSERT (cv \<noteq> NULL);
     ASSERT (l \<noteq> NULL);
     cond_broadcast_loop (Suc (length (cond s cv))) s cv l
   }"

section \<open>Suspended calls and the idle thread\<close>

definition resume :: "kernel \<Rightarrow> kernel option" where
  "resume s = (case kont s (running s) of
       [] \<Rightarrow> Some s
     | f # fs \<Rightarrow> (let s = s\<lparr>kont := (kont s)(running s := fs)\<rparr> in case f of
         KYield old_level \<Rightarrow> intr_set_level s old_level
       | KIret flag \<Rightarrow> Some (s\<lparr>intr_on := flag\<rparr>)
       | KDown m old_level \<Rightarrow> sema_down_loop s m old_level
       | KSema m \<Rightarrow> sema_down s m
       | KHolder l \<Rightarrow> do { c \<leftarrow> thread_current s; Some (s\<lparr>holder := (holder s)(l := c)\<rparr>) }
       | KUp m \<Rightarrow> sema_up s m
       | KAcquire l \<Rightarrow> lock_acquire s l
       | KWait tid old_level \<Rightarrow> map_option fst (process_wait_return s tid old_level)
       | KStart \<Rightarrow> kernel_thread_start s
       | KIdle \<Rightarrow> Some (s\<lparr>intr_on := True\<rparr>)))"

text \<open>One round of the loop of the idle thread, up to the context switch; \<^verbatim>\<open>sti\<close> is in \<open>resume\<close>.\<close>

definition idle_round :: "kernel \<Rightarrow> kernel option" where
  "idle_round s = do {
     let (s, _) = intr_disable s;
     thread_block (push_frame s KIdle)
   }"

definition idle_init :: "kernel \<Rightarrow> ptr \<Rightarrow> kernel option" where
  "idle_init s idle_started = do {
     c \<leftarrow> thread_current s;
     sema_up (s\<lparr>idle_thread := c\<rparr>) idle_started
   }"

section \<open>Starting the thread system\<close>

text \<open>\<^verbatim>\<open>tid_lock\<close> is the address of the static lock; the names are the strings "main" and "idle".\<close>

definition thread_init :: "kernel \<Rightarrow> ptr \<Rightarrow> kernel option" where
  "thread_init s tid_lock = do {
     ASSERT (\<not> intr_get_level s);
     s \<leftarrow> lock_init s tid_lock;
     let s = s\<lparr>ready_list := [], all_list := [], initial_thread := running_thread s\<rparr>;
     s \<leftarrow> init_thread s (initial_thread s) [109, 97, 105, 110] PRI_DEFAULT;
     s \<leftarrow> upd_thread s (initial_thread s) (\<lambda>t. t\<lparr>t_status := THREAD_RUNNING\<rparr>);
     let (s, tid) = allocate_tid s;
     upd_thread s (initial_thread s) (\<lambda>t. t\<lparr>t_tid := tid\<rparr>)
   }"

text \<open>\<open>page\<close> is the page allocated for the idle thread, \<open>idle_func\<close> the address of \<^verbatim>\<open>idle\<close>.\<close>

definition thread_start :: "kernel \<Rightarrow> ptr \<Rightarrow> ptr \<Rightarrow> ptr \<Rightarrow> kernel option" where
  "thread_start s page idle_func idle_started = do {
     s \<leftarrow> sema_init s idle_started 0;
     (s, _) \<leftarrow> thread_create s page [105, 100, 108, 101] PRI_MIN idle_func;
     (s, _) \<leftarrow> intr_enable s;
     sema_down s idle_started
   }"

section \<open>Abstract operations on the view\<close>

definition v_push :: "ptr \<Rightarrow> kframe \<Rightarrow> kview \<Rightarrow> kview" where
  "v_push c f v = v\<lparr>v_kont := (v_kont v)(c := f # v_kont v c)\<rparr>"

definition v_pop :: "ptr \<Rightarrow> kview \<Rightarrow> kview" where
  "v_pop c v = v\<lparr>v_kont := (v_kont v)(c := tl (v_kont v c))\<rparr>"

definition v_take :: "ptr \<Rightarrow> kview \<Rightarrow> kview" where
  "v_take m v = v\<lparr>v_sema := (v_sema v)(m := (v_sema v m)\<lparr>s_value := s_value (v_sema v m) - 1\<rparr>)\<rparr>"

definition v_sleep :: "ptr \<Rightarrow> ptr \<Rightarrow> bool \<Rightarrow> kview \<Rightarrow> kview" where
  "v_sleep c m b v = v_push c (KDown m b) (v\<lparr>v_blk := (v_blk v)(c := True),
     v_sema := (v_sema v)(m := (v_sema v m)\<lparr>s_waiters := s_waiters (v_sema v m) @ [c]\<rparr>)\<rparr>)"

definition v_down :: "ptr \<Rightarrow> ptr \<Rightarrow> bool \<Rightarrow> kview \<Rightarrow> kview" where
  "v_down c m b v = (if s_value (v_sema v m) = 0 then v_sleep c m b v else v_take m v)"

definition v_up :: "ptr \<Rightarrow> kview \<Rightarrow> kview" where
  "v_up m v = v\<lparr>v_blk := (case s_waiters (v_sema v m) of [] \<Rightarrow> v_blk v | p # ps \<Rightarrow> (v_blk v)(p := False)),
     v_sema := (v_sema v)(m := \<lparr>s_value = add32 (s_value (v_sema v m)) 1, s_waiters = tl (s_waiters (v_sema v m))\<rparr>)\<rparr>"

lemmas v_op_defs = v_push_def v_pop_def v_take_def v_sleep_def v_down_def v_up_def v_exit_def

text \<open>What every operation guarantees: it returns, keeps the invariant, serves the run queue in order.\<close>

definition refines :: "kernel \<Rightarrow> kernel option \<Rightarrow> kview \<Rightarrow> bool" where
  "refines s r v \<longleftrightarrow> (\<exists>s'. r = Some s' \<and> sched_inv s' \<and> view s' = v \<and> queue_step s s')"

lemma refinesI: "r = Some s' \<Longrightarrow> sched_inv s' \<Longrightarrow> view s' = v \<Longrightarrow> queue_step s s' \<Longrightarrow> refines s r v"
  by (auto simp: refines_def)

lemma refinesE:
  assumes "refines s r v"
  obtains s' where "r = Some s'" "sched_inv s'" "view s' = v" "queue_step s s'"
  using assms by (auto simp: refines_def)

lemma queue_same: "running s' = running s \<Longrightarrow> ready_list s' = ready_list s \<Longrightarrow> queue_step s s'"
  by (rule queue_stay [of _ _ "[]"]) simp_all

text \<open>The state before an operation may differ from the one it is called in by bookkeeping only.\<close>

lemma refines_from:
  assumes "refines s1 r v" "running s1 = running s" "ready_list s1 = ready_list s" "idle_thread s1 = idle_thread s"
  shows "refines s r v"
  using assms queue_step_trans [of s1 s "[]"] unfolding refines_def by (metis append_Nil2)

lemma push_frame_fields [simp]:
  "running (push_frame s f) = running s" "thr (push_frame s f) = thr s" "ready_list (push_frame s f) = ready_list s"
  "idle_thread (push_frame s f) = idle_thread s" "sema (push_frame s f) = sema s" "holder (push_frame s f) = holder s"
  "in_external_intr (push_frame s f) = in_external_intr s" "intr_on (push_frame s f) = intr_on s"
  "kont (push_frame s f) = (kont s)(running s := f # kont s (running s))"
  "sched_inv (push_frame s f) = sched_inv s" "view (push_frame s f) = v_push (running s) f (view s)"
  by (simp_all add: push_frame_def v_push_def)

lemma set_sema_fields [simp]:
  "running (set_sema s m x) = running s" "thr (set_sema s m x) = thr s" "ready_list (set_sema s m x) = ready_list s"
  "idle_thread (set_sema s m x) = idle_thread s" "sema (set_sema s m x) = (sema s)(m := x)" "holder (set_sema s m x) = holder s"
  "in_external_intr (set_sema s m x) = in_external_intr s" "intr_on (set_sema s m x) = intr_on s" "kont (set_sema s m x) = kont s"
  "view (set_sema s m x) = (view s)\<lparr>v_sema := (sema s)(m := x)\<rparr>" "cond (set_sema s m x) = cond s"
  by (simp_all add: set_sema_def)

lemma waiters_upd: "(\<lambda>k. s_waiters ((f(m := x)) k)) = (\<lambda>k. s_waiters (f k))(m := s_waiters x)"
  by auto

lemma set_sema_inv: "s_waiters x = wait s m \<Longrightarrow> sched_inv (set_sema s m x) = sched_inv s"
proof -
  assume x: "s_waiters x = wait s m"
  have "wait (set_sema s m x) = wait s" using x by (auto simp: wait_def fun_eq_iff)
  moreover have "st (set_sema s m x) = st s" by (simp add: st_fun)
  ultimately show ?thesis
    by (simp add: sched_inv_def core_def cpu_ok_def wf_threads_def, simp add: set_sema_def)
qed

lemma intr_set_level_eq:
  "sched_inv s \<Longrightarrow> intr_set_level s b = Some (s\<lparr>intr_on := b\<rparr>)"
  using sched_external [of s] by (auto simp: intr_set_level_def intr_enable_def intr_disable_def intr_context_def)

section \<open>Semaphore operations refine their abstractions\<close>

lemma sema_down_loop_inv:
  assumes inv: "sched_inv s" and idle: "running s \<noteq> idle_thread s"
  shows "refines s (sema_down_loop s m b) (v_down (running s) m b (view s))"
proof (cases "s_value (sema s m) = 0")
  case True
  let ?x = "(sema s m)\<lparr>s_waiters := s_waiters (sema s m) @ [running s]\<rparr>"
  define s0 where "s0 = push_frame (set_sema s m ?x) (KDown m b)"
  have "s0 = s\<lparr>intr_on := intr_on s, sema := (sema s)(m := ?x), kont := (kont s)(running s := KDown m b # kont s (running s))\<rparr>"
    unfolding s0_def push_frame_def set_sema_def by (cases s) simp
  moreover have "lists_ok ((st s)(running s := Some THREAD_BLOCKED)) (ready_list s)
      (\<lambda>k. s_waiters (((sema s)(m := ?x)) k)) (all_list s) (idle_thread s)"
    using lists_ok_wait [OF sched_lists [OF inv] sched_st_running [OF inv] idle, of m]
    unfolding waiters_upd by (simp add: wait_def [abs_def])
  ultimately obtain s' where "thread_block s0 = Some s'" "sched_inv s'" "queue_step s s'"
      "view s' = (view s)\<lparr>v_blk := (v_blk (view s))(running s := running s \<noteq> idle_thread s),
        v_sema := (sema s)(m := ?x), v_kont := (kont s)(running s := KDown m b # kont s (running s))\<rparr>"
    using thread_block_from [OF inv] by blast
  then show ?thesis using True idle sched_current [OF inv]
    by (intro refinesI [of _ s']) (simp_all add: sema_down_loop_def s0_def v_op_defs Let_def)
next
  case False
  let ?s = "set_sema s m ((sema s m)\<lparr>s_value := s_value (sema s m) - 1\<rparr>)"
  have "sched_inv ?s" using inv by (simp add: set_sema_inv wait_def)
  then show ?thesis using False
    by (intro refinesI [of _ "?s\<lparr>intr_on := b\<rparr>"] queue_same)
      (simp_all add: sema_down_loop_def intr_set_level_eq v_op_defs Let_def)
qed

lemma sema_down_inv:
  assumes inv: "sched_inv s" and idle: "running s \<noteq> idle_thread s" and m: "m \<noteq> NULL"
  shows "refines s (sema_down s m) (v_down (running s) m (intr_on s) (view s))"
proof -
  let ?s = "s\<lparr>intr_on := False\<rparr>"
  have "refines ?s (sema_down_loop ?s m (intr_on s)) (v_down (running ?s) m (intr_on s) (view ?s))"
    using inv idle by (intro sema_down_loop_inv) simp_all
  moreover have "sema_down s m = sema_down_loop ?s m (intr_on s)" using m sched_external [OF inv]
    by (simp add: sema_down_def intr_context_def intr_disable_def intr_get_level_def)
  ultimately show ?thesis using refines_from [of ?s _ _ s] by simp
qed

lemma sema_try_down_inv:
  assumes inv: "sched_inv s" and m: "m \<noteq> NULL"
  shows "\<exists>s'. sema_try_down s m = Some (s', s_value (sema s m) > 0) \<and> sched_inv s' \<and> running s' = running s
    \<and> ready_list s' = ready_list s \<and> view s' = (if s_value (sema s m) > 0 then v_take m (view s) else view s)"
proof -
  let ?x = "(sema s m)\<lparr>s_value := s_value (sema s m) - 1\<rparr>"
  define s1 where "s1 = (if s_value (sema s m) > 0 then set_sema (s\<lparr>intr_on := False\<rparr>) m ?x else s\<lparr>intr_on := False\<rparr>)"
  have "sched_inv (set_sema (s\<lparr>intr_on := False\<rparr>) m ?x) = sched_inv (s\<lparr>intr_on := False\<rparr>)"
    by (rule set_sema_inv) (simp add: wait_def)
  then have s1: "sched_inv s1" using inv by (simp add: s1_def)
  have "sema_try_down s m = do { s' \<leftarrow> intr_set_level s1 (intr_on s); Some (s', s_value (sema s m) > 0) }"
    using m by (simp add: sema_try_down_def intr_disable_def intr_get_level_def s1_def Let_def)
  then have "sema_try_down s m = Some (s1\<lparr>intr_on := intr_on s\<rparr>, s_value (sema s m) > 0)"
    using intr_set_level_eq [OF s1] by simp
  then show ?thesis using s1 by (auto simp: s1_def v_op_defs)
qed

text \<open>\<^verbatim>\<open>sema_up\<close> in a thread, or in an interrupt handler, where interrupts are off.\<close>

definition upped :: "kernel \<Rightarrow> ptr \<Rightarrow> kernel" where
  "upped s m = (let s' = set_sema s m \<lparr>s_value = add32 (s_value (sema s m)) 1, s_waiters = tl (s_waiters (sema s m))\<rparr>
     in case s_waiters (sema s m) of [] \<Rightarrow> s' | p # ps \<Rightarrow> woken s' p (the (thr s p)))"

lemma sema_up_eq:
  assumes "m \<noteq> NULL" "\<not> in_external_intr s \<or> \<not> intr_on s" "wf_threads s"
    and w: "\<forall>p \<in> set (wait s m). st s p = Some THREAD_BLOCKED"
  shows "sema_up s m = Some (upped s m)"
proof (cases "s_waiters (sema s m)")
  case Nil
  then show ?thesis using assms(1,2)
    by (cases s) (auto simp: sema_up_def upped_def set_sema_def intr_disable_def intr_get_level_def intr_set_level_def
      intr_enable_def intr_context_def Let_def)
next
  case (Cons p ps)
  then obtain t where t: "thr s p = Some t" "t_status t = THREAD_BLOCKED" using w by (auto simp: wait_def st_def)
  let ?s = "set_sema (s\<lparr>intr_on := False\<rparr>) m ((sema s m)\<lparr>s_waiters := ps\<rparr>)"
  have "wf_threads ?s" using assms(3) by (simp add: wf_threads_def)
  then have "thread_unblock ?s p = Some (?s\<lparr>ready_list := ready_list s @ [p], thr := (thr s)(p \<mapsto> t\<lparr>t_status := THREAD_READY\<rparr>)\<rparr>)"
    using thread_unblock_eq [OF is_thread_wf [of ?s p t], of t] t by simp
  then show ?thesis using assms(1,2) Cons t
    by (cases s) (auto simp: sema_up_def upped_def woken_def set_sema_def intr_disable_def intr_get_level_def
      intr_set_level_def intr_enable_def intr_context_def Let_def)
qed

lemma sched_waiting:
  "sched_inv s \<Longrightarrow> p \<in> set (wait s m) \<Longrightarrow> st s p = Some THREAD_BLOCKED \<and> p \<noteq> idle_thread s"
  using sched_lists [of s] by (auto simp: lists_ok_def wait_ok_def)

lemma upped_inv:
  assumes inv: "sched_inv s"
  shows "sched_inv (upped s m) \<and> view (upped s m) = v_up m (view s)"
proof (cases "s_waiters (sema s m)")
  case Nil
  then show ?thesis using inv by (simp add: upped_def set_sema_inv wait_def v_up_def)
next
  case (Cons p ps)
  then have "p \<in> set (wait s m)" by (simp add: wait_def)
  then obtain t where t: "thr s p = Some t" "t_status t = THREAD_BLOCKED"
    using sched_waiting [OF inv] by (auto simp: st_def)
  let ?x = "\<lparr>s_value = add32 (s_value (sema s m)) 1, s_waiters = ps\<rparr>"
  have "lists_ok ((st s)(p := Some THREAD_READY)) (ready_list s @ [p]) (\<lambda>k. s_waiters (((sema s)(m := ?x)) k)) (all_list s) (idle_thread s)"
    using lists_ok_wake_waiter [OF sched_lists [OF inv], of m p ps] Cons
    unfolding waiters_upd by (simp add: wait_def [abs_def])
  then have "sched_inv (woken (set_sema s m ?x) p t)" using woken_inv [OF inv t] by (simp add: set_sema_def)
  moreover have "view (woken (set_sema s m ?x) p t) = v_up m (view s)"
    using view_woken [of "set_sema s m ?x" p t] t Cons by (simp add: v_up_def)
  ultimately show ?thesis using Cons t by (simp add: upped_def)
qed

lemma upped_fields [simp]:
  "running (upped s m) = running s" "intr_on (upped s m) = intr_on s" "in_external_intr (upped s m) = in_external_intr s"
  "idle_thread (upped s m) = idle_thread s" "cond (upped s m) = cond s" "holder (upped s m) = holder s"
  "ready_list (upped s m) = ready_list s @ take 1 (wait s m)"
  by (auto simp: upped_def Let_def woken_def wait_def split: list.splits)

lemma sema_up_inv:
  assumes inv: "sched_inv s" and m: "m \<noteq> NULL"
  shows "sema_up s m = Some (upped s m)" "refines s (sema_up s m) (v_up m (view s))"
proof -
  show eq: "sema_up s m = Some (upped s m)"
    using sema_up_eq [OF m _ sched_wf [OF inv]] sched_external [OF inv] sched_waiting [OF inv] by blast
  have "queue_step s (upped s m)" by (rule queue_stay) simp_all
  then show "refines s (sema_up s m) (v_up m (view s))" using eq upped_inv [OF inv] by (intro refinesI) auto
qed

lemma sema_up_handler:
  assumes inv: "sched_inv s" and m: "m \<noteq> NULL"
  shows "handler_ok (\<lambda>s. sema_up s m) (v_up m) (in_handler s)"
proof -
  let ?h = "in_handler s" and ?h' = "(in_handler s)\<lparr>in_external_intr := False\<rparr>"
  have i: "sched_inv ?h'" using in_handler_inv [OF inv] .
  have same: "wait ?h = wait ?h'" "st ?h = st ?h'" by (auto simp: wait_def st_def fun_eq_iff)
  have "sema_up ?h m = Some (upped ?h m)"
    by (rule sema_up_eq [OF m]) (use sched_wf [OF inv] sched_waiting [OF i] in \<open>auto simp: wf_threads_def same\<close>)
  moreover have "(upped ?h m)\<lparr>in_external_intr := False\<rparr> = upped ?h' m"
    by (auto simp: upped_def Let_def woken_def set_sema_def split: list.splits)
  moreover have "view (upped ?h m) = view (upped ?h' m)"
    using calculation(2) by (metis view_upd(10))
  ultimately show ?thesis using upped_inv [OF i, of m] by (auto simp: handler_ok_def)
qed

section \<open>Locks and condition variables\<close>

lemma lock_held_eq:
  "sched_inv s \<Longrightarrow> l \<noteq> NULL \<Longrightarrow> lock_held_by_current_thread s l = Some (holder s l = running s)"
  by (simp add: lock_held_by_current_thread_def sched_current)

lemma lock_acquire_inv:
  assumes inv: "sched_inv s" and "running s \<noteq> idle_thread s" "l \<noteq> NULL" "holder s l \<noteq> running s"
  shows "refines s (lock_acquire s l)
    (v_down (running s) (lock_sema l) (intr_on s) (v_push (running s) (KHolder l) (view s)))"
proof -
  have "refines (push_frame s (KHolder l)) (sema_down (push_frame s (KHolder l)) (lock_sema l))
      (v_down (running s) (lock_sema l) (intr_on s) (v_push (running s) (KHolder l) (view s)))"
    using sema_down_inv [of "push_frame s (KHolder l)" "lock_sema l"] assms by (simp add: lock_sema_def)
  then show ?thesis using refines_from [of "push_frame s (KHolder l)" _ _ s] assms sched_external [OF inv]
    by (simp add: lock_acquire_def lock_held_eq intr_context_def)
qed

lemma lock_try_acquire_inv:
  assumes inv: "sched_inv s" and "l \<noteq> NULL" "holder s l \<noteq> running s"
  shows "refines s (map_option fst (lock_try_acquire s l))
    (if s_value (sema s (lock_sema l)) > 0 then v_push (running s) (KHolder l) (v_take (lock_sema l) (view s)) else view s)"
proof -
  obtain s' where "sema_try_down s (lock_sema l) = Some (s', s_value (sema s (lock_sema l)) > 0)" "sched_inv s'"
      "running s' = running s" "ready_list s' = ready_list s"
      "view s' = (if s_value (sema s (lock_sema l)) > 0 then v_take (lock_sema l) (view s) else view s)"
    using sema_try_down_inv [OF inv, of "lock_sema l"] by (auto simp: lock_sema_def)
  then show ?thesis using assms
    by (intro refinesI [where s' = "if s_value (sema s (lock_sema l)) > 0 then push_frame s' (KHolder l) else s'"] queue_same)
      (simp_all add: lock_try_acquire_def lock_held_eq)
qed

lemma lock_release_inv:
  assumes inv: "sched_inv s" and "l \<noteq> NULL" "holder s l = running s"
  shows "refines s (lock_release s l)
    (v_push (running s) (KUp (lock_sema l)) ((view s)\<lparr>v_holder := (holder s)(l := NULL)\<rparr>))"
  using assms by (intro refinesI [of _ "push_frame (s\<lparr>holder := (holder s)(l := NULL)\<rparr>) (KUp (lock_sema l))"] queue_same)
    (simp_all add: lock_release_def lock_held_eq)

lemma cond_wait_inv:
  assumes inv: "sched_inv s" and "cv \<noteq> NULL" "l \<noteq> NULL" "holder s l = running s" "wait s (elem_sema w) = []"
  shows "refines s (cond_wait s cv l w)
    (v_push (running s) (KUp (lock_sema l)) (v_push (running s) (KSema (elem_sema w)) (v_push (running s) (KAcquire l)
      ((view s)\<lparr>v_sema := (sema s)(elem_sema w := \<lparr>s_value = 0, s_waiters = []\<rparr>),
        v_cond := (cond s)(cv := cond s cv @ [w]), v_holder := (holder s)(l := NULL)\<rparr>))))"
proof -
  let ?s1 = "set_sema s (elem_sema w) \<lparr>s_value = 0, s_waiters = []\<rparr>"
  let ?s2 = "push_frame (push_frame (?s1\<lparr>cond := (cond s)(cv := cond s cv @ [w])\<rparr>) (KAcquire l)) (KSema (elem_sema w))"
  have "sched_inv ?s1" using inv assms(5) by (simp add: set_sema_inv)
  then have "refines ?s2 (lock_release ?s2 l) (v_push (running s) (KUp (lock_sema l)) ((view ?s2)\<lparr>v_holder := (holder s)(l := NULL)\<rparr>))"
    using lock_release_inv [of ?s2 l] assms by simp
  moreover have "cond_wait s cv l w = lock_release ?s2 l"
    using assms sched_external [OF inv]
    by (simp add: cond_wait_def lock_held_eq intr_context_def sema_init_def elem_sema_def)
  ultimately show ?thesis using refines_from [of ?s2 _ _ s] by (simp add: v_push_def)
qed

definition v_signal :: "ptr \<Rightarrow> kview \<Rightarrow> kview" where
  "v_signal cv v = (case v_cond v cv of [] \<Rightarrow> v | w # ws \<Rightarrow> v_up (elem_sema w) (v\<lparr>v_cond := (v_cond v)(cv := ws)\<rparr>))"

lemma cond_signal_inv:
  assumes inv: "sched_inv s" and "cv \<noteq> NULL" "l \<noteq> NULL" "holder s l = running s"
  shows "\<exists>s' zs. cond_signal s cv l = Some s' \<and> sched_inv s' \<and> view s' = v_signal cv (view s) \<and> running s' = running s
    \<and> ready_list s' = ready_list s @ zs \<and> holder s' l = holder s l \<and> cond s' = (cond s)(cv := tl (cond s cv))"
proof (cases "cond s cv")
  case Nil
  then show ?thesis using assms sched_external [OF inv]
    by (intro exI [of _ s] exI [of _ "[]"]) (simp add: cond_signal_def lock_held_eq intr_context_def v_signal_def fun_upd_idem)
next
  case (Cons w ws)
  let ?s = "s\<lparr>cond := (cond s)(cv := ws)\<rparr>"
  have "cond_signal s cv l = Some (upped ?s (elem_sema w))"
    using assms sched_external [OF inv] Cons sema_up_inv(1) [of ?s "elem_sema w"]
    by (simp add: cond_signal_def lock_held_eq intr_context_def elem_sema_def)
  then show ?thesis using upped_inv [of ?s "elem_sema w"] inv Cons
    by (intro exI [of _ "upped ?s (elem_sema w)"] exI [of _ "take 1 (wait ?s (elem_sema w))"]) (simp add: v_signal_def)
qed

lemma cond_broadcast_loop_inv:
  assumes "sched_inv s" "cv \<noteq> NULL" "l \<noteq> NULL" "holder s l = running s" "length (cond s cv) \<le> n"
  shows "\<exists>s' zs. cond_broadcast_loop (Suc n) s cv l = Some s' \<and> sched_inv s' \<and> running s' = running s
    \<and> ready_list s' = ready_list s @ zs \<and> view s' = (v_signal cv ^^ length (cond s cv)) (view s) \<and> cond s' cv = []"
  using assms
proof (induction n arbitrary: s)
  case 0
  then show ?case by (intro exI [of _ s] exI [of _ "[]"]) simp
next
  case (Suc n)
  show ?case
  proof (cases "cond s cv")
    case Nil
    then show ?thesis using Suc.prems by (intro exI [of _ s] exI [of _ "[]"]) simp
  next
    case (Cons w ws)
    obtain s1 zs where s1: "cond_signal s cv l = Some s1" "sched_inv s1" "view s1 = v_signal cv (view s)" "running s1 = running s"
        "ready_list s1 = ready_list s @ zs" "holder s1 l = holder s l" "cond s1 = (cond s)(cv := tl (cond s cv))"
      using cond_signal_inv [OF Suc.prems(1-4)] by blast
    have "length (cond s1 cv) \<le> n" "holder s1 l = running s1" using s1 Suc.prems(4,5) Cons by simp_all
    then obtain s' ys where "cond_broadcast_loop (Suc n) s1 cv l = Some s'" "sched_inv s'" "running s' = running s1"
        "ready_list s' = ready_list s1 @ ys" "view s' = (v_signal cv ^^ length (cond s1 cv)) (view s1)" "cond s' cv = []"
      using Suc.IH [OF s1(2) Suc.prems(2,3)] by blast
    then show ?thesis using s1 Cons
      by (intro exI [of _ s'] exI [of _ "zs @ ys"]) (simp add: funpow_swap1)
  qed
qed

lemma cond_broadcast_inv:
  assumes "sched_inv s" "cv \<noteq> NULL" "l \<noteq> NULL" "holder s l = running s"
  shows "refines s (cond_broadcast s cv l) ((v_signal cv ^^ length (cond s cv)) (view s))"
proof -
  obtain s' zs where "cond_broadcast_loop (Suc (length (cond s cv))) s cv l = Some s'" "sched_inv s'" "running s' = running s"
      "ready_list s' = ready_list s @ zs" "view s' = (v_signal cv ^^ length (cond s cv)) (view s)"
    using cond_broadcast_loop_inv [OF assms order_refl] by blast
  then show ?thesis using assms
    by (intro refinesI [of _ s'] queue_stay [of _ _ zs]) (simp_all add: cond_broadcast_def)
qed

section \<open>Suspended calls\<close>

definition v_resume :: "ptr \<Rightarrow> bool \<Rightarrow> kview \<Rightarrow> kview" where
  "v_resume c on v = (let w = v_pop c v in case hd (v_kont v c) of
       KDown m b \<Rightarrow> v_down c m b w
     | KSema m \<Rightarrow> v_down c m on w
     | KHolder l \<Rightarrow> w\<lparr>v_holder := (v_holder v)(l := c)\<rparr>
     | KUp m \<Rightarrow> v_up m w
     | KAcquire l \<Rightarrow> v_down c (lock_sema l) on (v_push c (KHolder l) w)
     | _ \<Rightarrow> w)"

text \<open>
  What the topmost frame needs: \<^verbatim>\<open>sema_down\<close> and \<^verbatim>\<open>lock_acquire\<close> do not run in the idle thread,
  pointers are not null, and the lock to be taken again is not held.
\<close>

definition frame_ok :: "kernel \<Rightarrow> kframe \<Rightarrow> bool" where
  "frame_ok s f = (case f of
       KDown m b \<Rightarrow> running s \<noteq> idle_thread s
     | KSema m \<Rightarrow> running s \<noteq> idle_thread s \<and> m \<noteq> NULL
     | KUp m \<Rightarrow> m \<noteq> NULL
     | KAcquire l \<Rightarrow> running s \<noteq> idle_thread s \<and> l \<noteq> NULL \<and> holder s l \<noteq> running s
     | _ \<Rightarrow> True)"

lemma resume_inv:
  assumes inv: "sched_inv s" and k: "kont s (running s) = f # fs" and ok: "frame_ok s f"
  shows "refines s (resume s) (v_resume (running s) (intr_on s) (view s))"
proof -
  let ?s = "s\<lparr>kont := (kont s)(running s := fs)\<rparr>"
  have i: "sched_inv ?s" using inv by simp
  have vw: "view ?s = v_pop (running s) (view s)" using k by (simp add: v_pop_def)
  have hd: "hd (v_kont (view s) (running s)) = f" using k by simp
  have quiet: "refines s r (v_pop (running s) (view s))" if "r = Some (?s\<lparr>intr_on := b\<rparr>)" for r b
    using that i vw by (intro refinesI [of _ "?s\<lparr>intr_on := b\<rparr>"] queue_same) simp_all
  have sub: "refines s r v" if "refines ?s r v" for r v
    using that by (rule refines_from) simp_all
  show ?thesis
  proof (cases f)
    case (KDown m b)
    then show ?thesis using sub sema_down_loop_inv [OF i, of m b] ok k hd vw
      by (simp add: resume_def v_resume_def frame_ok_def Let_def)
  next
    case (KSema m)
    then show ?thesis using sub sema_down_inv [OF i, of m] ok k hd vw
      by (simp add: resume_def v_resume_def frame_ok_def Let_def)
  next
    case (KHolder l)
    then show ?thesis using i k hd vw sched_current [OF i]
      by (intro refinesI [of _ "?s\<lparr>holder := (holder s)(l := running s)\<rparr>"] queue_same)
        (simp_all add: resume_def v_resume_def Let_def)
  next
    case (KUp m)
    then show ?thesis using sub sema_up_inv(2) [OF i, of m] ok k hd vw
      by (simp add: resume_def v_resume_def frame_ok_def Let_def)
  next
    case (KAcquire l)
    then show ?thesis using sub lock_acquire_inv [OF i, of l] ok k hd vw
      by (simp add: resume_def v_resume_def frame_ok_def Let_def)
  next
    case (KYield b)
    then show ?thesis using quiet k hd intr_set_level_eq [OF i] by (simp add: resume_def v_resume_def)
  next
    case (KIret b)
    then show ?thesis using quiet k hd by (simp add: resume_def v_resume_def)
  next
    case KIdle
    then show ?thesis using quiet k hd by (simp add: resume_def v_resume_def)
  next
    case KStart
    then show ?thesis using quiet k hd sched_external [OF inv]
      by (simp add: resume_def v_resume_def kernel_thread_start_def intr_enable_def intr_context_def)
  next
    case (KWait i b)
    obtain t where "thr s (running s) = Some t" using sched_running [OF inv] by blast
    then have "\<exists>c. get_exit_code (?s\<lparr>intr_on := b\<rparr>) (running s) i = Some c"
      by (simp add: get_exit_code_def split: list.splits)
    then show ?thesis using quiet KWait k hd intr_set_level_eq [OF i]
      by (auto simp: resume_def v_resume_def process_wait_return_def)
  qed
qed

lemma idle_round_inv:
  assumes inv: "sched_inv s" and c: "running s = idle_thread s"
  shows "refines s (idle_round s) (v_push (running s) KIdle (view s))"
proof -
  let ?s = "push_frame (s\<lparr>intr_on := False\<rparr>) KIdle"
  obtain s' where "thread_block ?s = Some s'" "sched_inv s'" "queue_step ?s s'"
      "view s' = (view ?s)\<lparr>v_blk := (v_blk (view ?s))(running ?s := running ?s \<noteq> idle_thread ?s)\<rparr>"
    using thread_block_inv [of ?s] inv by auto
  moreover have "queue_step s s'" using queue_step_trans [of ?s s "[]" s'] calculation(3) by simp
  moreover have "(v_blk (view s))(running s := False) = v_blk (view s)" using c by (intro fun_upd_idem) simp
  ultimately show ?thesis using c
    by (intro refinesI [of _ s']) (simp_all add: idle_round_def intr_disable_def v_push_def)
qed

lemma find_pid_live:
  assumes "\<forall>p \<in> set ps. \<exists>t. thr s p = Some t" "\<forall>p \<in> set ps. p \<noteq> NULL"
  shows "\<exists>c. find_pid s i ps = Some c \<and> (c \<noteq> NULL \<longrightarrow> c \<in> set ps)"
  using assms by (induction ps) auto

text \<open>
  \<^verbatim>\<open>process_wait\<close> either returns at once or marks one child as waited for and sleeps.
\<close>

lemma process_wait_inv:
  assumes inv: "sched_inv s" and idle: "running s \<noteq> idle_thread s"
  shows "\<exists>v. refines s (map_option fst (process_wait s i)) v \<and> (v = view s \<or>
    (\<exists>c b. v_live (view s) c \<and> c \<noteq> NULL \<and> v_par (view s) c = (False, running s)
      \<and> v = v_push (running s) (KWait i b) ((view s)\<lparr>v_par := (v_par (view s))(c := (True, running s)),
          v_blk := (v_blk (view s))(running s := True)\<rparr>)))"
proof -
  have lists: "lists_ok (st s) (ready_list s) (wait s) (all_list s) (idle_thread s)" using sched_lists [OF inv] .
  then have al: "\<forall>p. p \<in> set (all_list s) \<longleftrightarrow> st s p \<noteq> None \<and> st s p \<noteq> Some THREAD_DYING"
    by (simp add: lists_ok_def all_ok_def)
  let ?s0 = "s\<lparr>intr_on := False\<rparr>" and ?s1 = "s\<lparr>intr_on := True\<rparr>"
  have "\<exists>c. find_pid ?s0 i (all_list s) = Some c \<and> (c \<noteq> NULL \<longrightarrow> c \<in> set (all_list s))"
    using al sched_wf [OF inv] by (intro find_pid_live) (auto simp: st_def wf_threads_def)
  then obtain c where c: "find_pid ?s0 i (all_list s) = Some c" "c \<noteq> NULL \<Longrightarrow> c \<in> set (all_list s)" by blast
  have get: "get_thread_by_pid ?s0 i = Some (?s1, c)"
    using c(1) sched_external [OF inv] by (simp add: get_thread_by_pid_def intr_disable_def intr_enable_def intr_context_def)
  obtain t where t: "thr s (running s) = Some t" using sched_running [OF inv] by blast
  have fin: "refines s (Some ?s1) (view s)" using inv by (intro refinesI [of _ ?s1] queue_same) simp_all
  have cur: "thread_current ?s0 = Some (running s)" using sched_current [of ?s0] inv by simp
  show ?thesis
  proof (cases "c = NULL")
    case True
    have "\<exists>r. get_exit_code ?s1 (running s) i = Some r" using t by (simp add: get_exit_code_def split: list.splits)
    then show ?thesis using True get cur fin
      by (auto simp: process_wait_def process_wait_lookup_def intr_disable_def)
  next
    case False
    then obtain ct where ct: "thr s c = Some ct" "t_status ct \<noteq> THREAD_DYING" using c(2) al by (auto simp: st_def)
    show ?thesis
    proof (cases "t_is_waited_by_parent ct \<or> t_pt ct \<noteq> running s")
      case True
      then show ?thesis using False get cur fin ct
        by (auto simp: process_wait_def process_wait_lookup_def intr_disable_def)
    next
      case nw: False
      let ?ct = "ct\<lparr>t_is_waited_by_parent := True\<rparr>"
      let ?s2 = "push_frame (?s1\<lparr>thr := (thr s)(c \<mapsto> ?ct)\<rparr>) (KWait i (intr_on s))"
      have i2: "sched_inv ?s2" using upd_thread_inv [of ?s1 c ct ?ct] inv ct by simp
      have v2: "view ?s2 = v_push (running s) (KWait i (intr_on s)) ((view s)\<lparr>v_par := (v_par (view s))(c := (True, running s))\<rparr>)"
        using ct nw unfolding push_frame_fields by (intro view_eqI) (auto simp: v_push_def st_def parent_of_def)
      obtain s' where s': "thread_block ?s2 = Some s'" "sched_inv s'" "queue_step ?s2 s'"
          "view s' = (view ?s2)\<lparr>v_blk := (v_blk (view ?s2))(running ?s2 := running ?s2 \<noteq> idle_thread ?s2)\<rparr>"
        using thread_block_inv [OF i2] by blast
      have q: "queue_step s s'" using queue_step_trans [of ?s2 s "[]" s'] s'(3) by simp
      have v': "view s' = v_push (running s) (KWait i (intr_on s)) ((view s)\<lparr>v_par := (v_par (view s))(c := (True, running s)),
          v_blk := (v_blk (view s))(running s := True)\<rparr>)"
        using s'(4) idle unfolding v2 by (simp add: v_push_def)
      have "map_option fst (process_wait s i) = Some s'"
        using False nw ct get cur s'(1)
        by (simp add: process_wait_def process_wait_lookup_def process_wait_block_def upd_thread_def intr_disable_def intr_get_level_def push_frame_def)
      moreover have "v_live (view s) c" "v_par (view s) c = (False, running s)"
        using ct nw by (auto simp: st_def parent_of_def)
      ultimately show ?thesis using refinesI [OF _ s'(2) v' q] False
        by (intro exI conjI disjI2) (assumption | rule refl)+
    qed
  qed
qed

end
