(* ===== verification/Monitor.thy ===== *)
theory Monitor
  imports Synch
begin

text \<open>
  The machine that threads using the synchronization primitives see: any thread that is alive and
  not asleep may take the next step. The theory defines its steps on views, and the invariant
  that makes semaphores and locks correct: who waits is asleep in the loop of \<^verbatim>\<open>sema_down\<close>, no
  wake-up is lost, and a lock is free, in transit to or from one thread, or held by one thread.
  \<open>L\<close> is the set of the initialized locks; their semaphores are used through the lock operations
  only.
\<close>

section \<open>Suspended calls\<close>

fun is_intr :: "kframe \<Rightarrow> bool" where
  "is_intr (KYield b) = True"
| "is_intr (KIret b) = True"
| "is_intr f = False"

definition calls :: "kview \<Rightarrow> ptr \<Rightarrow> kframe list" where
  "calls v p = dropWhile is_intr (v_kont v p)"

text \<open>The stacks that occur: at most one call of a synchronization primitive is in progress.\<close>

inductive call_ok :: "ptr set \<Rightarrow> bool \<Rightarrow> kframe list \<Rightarrow> bool" for L :: "ptr set" and idle :: bool where
  none: "call_ok L idle []"
| start: "call_ok L idle [KStart]"
| idle: "idle \<Longrightarrow> call_ok L idle [KIdle]"
| wait: "\<not> idle \<Longrightarrow> call_ok L idle [KWait i b]"
| down: "\<not> idle \<Longrightarrow> m \<notin> lock_sema ` L \<Longrightarrow> call_ok L idle [KDown m b]"
| lock_down: "\<not> idle \<Longrightarrow> l \<in> L \<Longrightarrow> call_ok L idle [KDown (lock_sema l) b, KHolder l]"
| lock_hold: "\<not> idle \<Longrightarrow> l \<in> L \<Longrightarrow> call_ok L idle [KHolder l]"
| lock_up: "\<not> idle \<Longrightarrow> l \<in> L \<Longrightarrow> call_ok L idle [KUp (lock_sema l)]"
| cond_up: "\<not> idle \<Longrightarrow> l \<in> L \<Longrightarrow> m \<noteq> NULL \<Longrightarrow> m \<notin> lock_sema ` L \<Longrightarrow>
    call_ok L idle [KUp (lock_sema l), KSema m, KAcquire l]"
| cond_sema: "\<not> idle \<Longrightarrow> l \<in> L \<Longrightarrow> m \<noteq> NULL \<Longrightarrow> m \<notin> lock_sema ` L \<Longrightarrow> call_ok L idle [KSema m, KAcquire l]"
| cond_down: "\<not> idle \<Longrightarrow> l \<in> L \<Longrightarrow> m \<notin> lock_sema ` L \<Longrightarrow> call_ok L idle [KDown m b, KAcquire l]"
| cond_acquire: "\<not> idle \<Longrightarrow> l \<in> L \<Longrightarrow> call_ok L idle [KAcquire l]"

inductive_simps call_ok_simps:
  "call_ok L i []"
  "call_ok L i (KStart # fs)"
  "call_ok L i (KIdle # fs)"
  "call_ok L i (KWait j b # fs)"
  "call_ok L i (KDown m b # fs)"
  "call_ok L i (KHolder l # fs)"
  "call_ok L i (KUp m # fs)"
  "call_ok L i (KSema m # fs)"
  "call_ok L i (KAcquire l # fs)"
  "call_ok L i (KYield b # fs)"
  "call_ok L i (KIret b # fs)"

section \<open>Steps\<close>

text \<open>
  The steps of thread \<open>c\<close>. The first rules push, drop or execute frames; the others are calls of
  the primitives, made when no call is in progress, and the wake-ups of device interrupts.
\<close>

inductive vstep :: "ptr set \<Rightarrow> ptr \<Rightarrow> kview \<Rightarrow> kview \<Rightarrow> bool" for L :: "ptr set" and c :: ptr where
  push_intr: "is_intr f \<Longrightarrow> vstep L c v (v_push c f v)"
| pop_quiet: "v_kont v c = f # fs \<Longrightarrow> is_intr f \<or> f = KStart \<or> f = KIdle \<or> f = KWait i b \<Longrightarrow> vstep L c v (v_pop c v)"
| pop_down: "v_kont v c = KDown m b # fs \<Longrightarrow> vstep L c v (v_down c m b (v_pop c v))"
| pop_sema: "v_kont v c = KSema m # fs \<Longrightarrow> vstep L c v (v_down c m b (v_pop c v))"
| pop_acquire: "v_kont v c = KAcquire l # fs \<Longrightarrow>
    vstep L c v (v_down c (lock_sema l) b (v_push c (KHolder l) (v_pop c v)))"
| pop_holder: "v_kont v c = KHolder l # fs \<Longrightarrow> vstep L c v ((v_pop c v)\<lparr>v_holder := (v_holder v)(l := c)\<rparr>)"
| pop_up: "v_kont v c = KUp m # fs \<Longrightarrow> vstep L c v (v_up m (v_pop c v))"
| idle: "v_kont v c = [] \<Longrightarrow> c = v_idle v \<Longrightarrow> vstep L c v (v_push c KIdle v)"
| up: "m \<notin> lock_sema ` L \<Longrightarrow> vstep L c v (v_up m v)"
| take: "m \<notin> lock_sema ` L \<Longrightarrow> 0 < s_value (v_sema v m) \<Longrightarrow> vstep L c v (v_take m v)"
| down: "v_kont v c = [] \<Longrightarrow> c \<noteq> v_idle v \<Longrightarrow> m \<notin> lock_sema ` L \<Longrightarrow> vstep L c v (v_down c m b v)"
| acquire: "v_kont v c = [] \<Longrightarrow> c \<noteq> v_idle v \<Longrightarrow> l \<in> L \<Longrightarrow>
    vstep L c v (v_down c (lock_sema l) b (v_push c (KHolder l) v))"
| try_acquire: "v_kont v c = [] \<Longrightarrow> c \<noteq> v_idle v \<Longrightarrow> l \<in> L \<Longrightarrow> 0 < s_value (v_sema v (lock_sema l)) \<Longrightarrow>
    vstep L c v (v_push c (KHolder l) (v_take (lock_sema l) v))"
| release: "v_kont v c = [] \<Longrightarrow> c \<noteq> v_idle v \<Longrightarrow> l \<in> L \<Longrightarrow> v_holder v l = c \<Longrightarrow>
    vstep L c v (v_push c (KUp (lock_sema l)) (v\<lparr>v_holder := (v_holder v)(l := NULL)\<rparr>))"
| cond_wait: "v_kont v c = [] \<Longrightarrow> c \<noteq> v_idle v \<Longrightarrow> l \<in> L \<Longrightarrow> v_holder v l = c \<Longrightarrow>
    s_waiters (v_sema v (elem_sema w)) = [] \<Longrightarrow> elem_sema w \<notin> lock_sema ` L \<Longrightarrow>
    vstep L c v (v_push c (KUp (lock_sema l)) (v_push c (KSema (elem_sema w)) (v_push c (KAcquire l)
      (v\<lparr>v_sema := (v_sema v)(elem_sema w := \<lparr>s_value = 0, s_waiters = []\<rparr>),
        v_cond := (v_cond v)(cv := v_cond v cv @ [w]), v_holder := (v_holder v)(l := NULL)\<rparr>))))"
| signal: "v_cond v cv = w # ws \<Longrightarrow> vstep L c v (v_up (elem_sema w) (v\<lparr>v_cond := (v_cond v)(cv := ws)\<rparr>))"
| create: "\<not> v_live v p \<Longrightarrow> p \<noteq> NULL \<Longrightarrow> vstep L c v
    (v\<lparr>v_live := (v_live v)(p := True), v_par := (v_par v)(p := (False, c)), v_kont := (v_kont v)(p := [KStart])\<rparr>)"
| exit: "v_kont v c = [] \<Longrightarrow> c \<noteq> v_idle v \<Longrightarrow> vstep L c v (v_exit c v)"
| wait_child: "v_kont v c = [] \<Longrightarrow> c \<noteq> v_idle v \<Longrightarrow> v_live v p \<Longrightarrow> v_par v p = (False, c) \<Longrightarrow>
    vstep L c v (v_push c (KWait i b) (v\<lparr>v_par := (v_par v)(p := (True, c)), v_blk := (v_blk v)(c := True)\<rparr>))"

definition awake_step :: "ptr set \<Rightarrow> ptr \<Rightarrow> kview \<Rightarrow> kview \<Rightarrow> bool" where
  "awake_step L c v w \<longleftrightarrow> v_live v c \<and> \<not> v_blk v c \<and> c \<noteq> NULL \<and> vstep L c v w"

section \<open>The invariant\<close>

definition in_down :: "kview \<Rightarrow> ptr \<Rightarrow> ptr \<Rightarrow> bool" where
  "in_down v m p \<longleftrightarrow> (\<exists>b fs. calls v p = KDown m b # fs)"

definition transit :: "kview \<Rightarrow> ptr \<Rightarrow> ptr \<Rightarrow> bool" where
  "transit v l p \<longleftrightarrow> (\<exists>fs. calls v p = KHolder l # fs \<or> calls v p = KUp (lock_sema l) # fs)"

definition in_wait :: "kview \<Rightarrow> ptr \<Rightarrow> bool" where
  "in_wait v p \<longleftrightarrow> (\<exists>i b fs. calls v p = KWait i b # fs)"

definition waiters :: "kview \<Rightarrow> ptr \<Rightarrow> ptr list" where
  "waiters v m = s_waiters (v_sema v m)"

definition val :: "kview \<Rightarrow> ptr \<Rightarrow> nat" where
  "val v m = s_value (v_sema v m)"

text \<open>The threads that were woken and have yet to test the semaphore again.\<close>

definition retesting :: "kview \<Rightarrow> ptr \<Rightarrow> ptr set" where
  "retesting v m = {p. in_down v m p \<and> p \<notin> set (waiters v m)}"

definition lock_ok :: "kview \<Rightarrow> ptr \<Rightarrow> bool" where
  "lock_ok v l \<longleftrightarrow>
     (val v (lock_sema l) = 1 \<and> v_holder v l = NULL \<and> {p. transit v l p} = {}) \<or>
     (val v (lock_sema l) = 0 \<and> v_holder v l = NULL \<and> (\<exists>p. {p. transit v l p} = {p})) \<or>
     (val v (lock_sema l) = 0 \<and> v_holder v l \<noteq> NULL \<and> {p. transit v l p} = {})"

definition stacks_inv :: "ptr set \<Rightarrow> kview \<Rightarrow> bool" where
  "stacks_inv L v \<longleftrightarrow> (\<forall>p. call_ok L (p = v_idle v) (calls v p)) \<and> (\<forall>p. v_kont v p \<noteq> [] \<longrightarrow> v_live v p)
     \<and> (\<forall>cv. \<forall>w \<in> set (v_cond v cv). elem_sema w \<notin> lock_sema ` L)
     \<and> (\<forall>p l. KAcquire l \<in> set (v_kont v p) \<longrightarrow> p \<noteq> NULL \<longrightarrow> v_holder v l \<noteq> p)"

definition sleep_inv :: "kview \<Rightarrow> bool" where
  "sleep_inv v \<longleftrightarrow> (\<forall>m. distinct (waiters v m)) \<and> (\<forall>m p. p \<in> set (waiters v m) \<longrightarrow> v_blk v p \<and> in_down v m p)
     \<and> (\<forall>p. v_blk v p \<longrightarrow> v_live v p \<and> ((\<exists>m. p \<in> set (waiters v m)) \<or> in_wait v p))"

definition wakeup_inv :: "kview \<Rightarrow> bool" where
  "wakeup_inv v \<longleftrightarrow> finite {p. v_live v p} \<and> (\<forall>m. waiters v m \<noteq> [] \<longrightarrow> val v m \<le> card (retesting v m))"

definition child_inv :: "kview \<Rightarrow> bool" where
  "child_inv v \<longleftrightarrow> (\<forall>p q. v_par v p = (True, q) \<longrightarrow> q \<noteq> NULL \<and> v_blk v q \<and> in_wait v q)
     \<and> (\<forall>p p' q. v_par v p = (True, q) \<longrightarrow> v_par v p' = (True, q) \<longrightarrow> p = p')
     \<and> (\<forall>p. v_live v p \<longrightarrow> snd (v_par v p) \<noteq> p)"

definition sync_inv :: "ptr set \<Rightarrow> kview \<Rightarrow> bool" where
  "sync_inv L v \<longleftrightarrow> NULL \<notin> L \<and> stacks_inv L v \<and> sleep_inv v \<and> (\<forall>l \<in> L. lock_ok v l) \<and> wakeup_inv v \<and> child_inv v"

section \<open>Effect of the operations\<close>

lemma calls_push: "calls (v_push c f v) p = (if p = c then if is_intr f then calls v c else f # v_kont v c else calls v p)"
  by (simp add: calls_def v_push_def)

lemma calls_nil [simp]: "v_kont v p = [] \<Longrightarrow> calls v p = []"
  by (simp add: calls_def)

lemma calls_frame: "v_kont v p = f # fs \<Longrightarrow> \<not> is_intr f \<Longrightarrow> calls v p = f # fs"
  by (simp add: calls_def)

lemma calls_pop_intr: "v_kont v c = f # fs \<Longrightarrow> is_intr f \<Longrightarrow> calls (v_pop c v) p = calls v p"
  by (auto simp: calls_def v_pop_def)

lemma lock_sema_eq [simp]: "lock_sema l = lock_sema k \<longleftrightarrow> l = k"
  by (simp add: lock_sema_def)

lemma push_fields [simp]:
  "v_blk (v_push c f v) = v_blk v" "v_live (v_push c f v) = v_live v" "v_par (v_push c f v) = v_par v"
  "v_holder (v_push c f v) = v_holder v" "v_cond (v_push c f v) = v_cond v" "v_idle (v_push c f v) = v_idle v"
  "v_sema (v_push c f v) = v_sema v" "v_kont (v_push c f v) = (v_kont v)(c := f # v_kont v c)"
  by (simp_all add: v_push_def)

lemma pop_fields [simp]:
  "v_blk (v_pop c v) = v_blk v" "v_live (v_pop c v) = v_live v" "v_par (v_pop c v) = v_par v"
  "v_holder (v_pop c v) = v_holder v" "v_cond (v_pop c v) = v_cond v" "v_idle (v_pop c v) = v_idle v"
  "v_sema (v_pop c v) = v_sema v" "v_kont (v_pop c v) = (v_kont v)(c := tl (v_kont v c))"
  by (simp_all add: v_pop_def)

lemma take_fields [simp]:
  "v_blk (v_take m v) = v_blk v" "v_live (v_take m v) = v_live v" "v_par (v_take m v) = v_par v"
  "v_holder (v_take m v) = v_holder v" "v_cond (v_take m v) = v_cond v" "v_idle (v_take m v) = v_idle v"
  "v_kont (v_take m v) = v_kont v" "waiters (v_take m v) = waiters v" "val (v_take m v) = (val v)(m := val v m - 1)"
  by (auto simp: v_take_def waiters_def val_def fun_eq_iff)

lemma sleep_fields [simp]:
  "v_blk (v_sleep c m b v) = (v_blk v)(c := True)" "v_live (v_sleep c m b v) = v_live v" "v_par (v_sleep c m b v) = v_par v"
  "v_holder (v_sleep c m b v) = v_holder v" "v_cond (v_sleep c m b v) = v_cond v" "v_idle (v_sleep c m b v) = v_idle v"
  "v_kont (v_sleep c m b v) = (v_kont v)(c := KDown m b # v_kont v c)"
  "waiters (v_sleep c m b v) = (waiters v)(m := waiters v m @ [c])" "val (v_sleep c m b v) = val v"
  by (auto simp: v_sleep_def v_push_def waiters_def val_def fun_eq_iff)

lemma up_fields [simp]:
  "v_live (v_up m v) = v_live v" "v_par (v_up m v) = v_par v" "v_holder (v_up m v) = v_holder v" "v_cond (v_up m v) = v_cond v"
  "v_idle (v_up m v) = v_idle v" "v_kont (v_up m v) = v_kont v" "waiters (v_up m v) = (waiters v)(m := tl (waiters v m))"
  "val (v_up m v) = (val v)(m := add32 (val v m) 1)"
  "v_blk (v_up m v) = (case waiters v m of [] \<Rightarrow> v_blk v | p # ps \<Rightarrow> (v_blk v)(p := False))"
  by (auto simp: v_up_def waiters_def val_def fun_eq_iff split: list.split)

lemma same_waiters [simp]:
  "waiters (v_push c f v) = waiters v" "val (v_push c f v) = val v" "waiters (v_pop c v) = waiters v" "val (v_pop c v) = val v"
  "waiters (v\<lparr>v_holder := h\<rparr>) = waiters v" "val (v\<lparr>v_holder := h\<rparr>) = val v"
  "waiters (v\<lparr>v_cond := cs\<rparr>) = waiters v" "val (v\<lparr>v_cond := cs\<rparr>) = val v"
  "waiters (v\<lparr>v_par := h1\<rparr>) = waiters v" "val (v\<lparr>v_par := h1\<rparr>) = val v"
  "waiters (v\<lparr>v_blk := h2\<rparr>) = waiters v" "val (v\<lparr>v_blk := h2\<rparr>) = val v"
  "waiters (v\<lparr>v_live := h2\<rparr>) = waiters v" "val (v\<lparr>v_live := h2\<rparr>) = val v"
  "waiters (v\<lparr>v_kont := k\<rparr>) = waiters v" "val (v\<lparr>v_kont := k\<rparr>) = val v"
  "waiters (v\<lparr>v_sema := (v_sema v)(m := x)\<rparr>) = (waiters v)(m := s_waiters x)"
  "val (v\<lparr>v_sema := (v_sema v)(m := x)\<rparr>) = (val v)(m := s_value x)"
  by (auto simp: waiters_def val_def fun_eq_iff)

lemma exit_fields [simp]:
  "v_live (v_exit c v) = (v_live v)(c := False)" "v_par (v_exit c v) = (v_par v)(c := (False, NULL))"
  "v_holder (v_exit c v) = v_holder v" "v_cond (v_exit c v) = v_cond v" "v_idle (v_exit c v) = v_idle v"
  "v_kont (v_exit c v) = v_kont v" "waiters (v_exit c v) = waiters v" "val (v_exit c v) = val v"
  "v_blk (v_exit c v) = (case v_par v c of (w, p) \<Rightarrow> if w \<and> p \<noteq> NULL then (v_blk v)(p := False) else v_blk v)"
  by (auto simp: v_exit_def waiters_def val_def fun_eq_iff split: prod.splits)

lemma calls_cong: "v_kont v p = v_kont w q \<Longrightarrow> calls v p = calls w q"
  by (simp add: calls_def)

text \<open>The frames of the stack below a frame that is being executed contain no interrupt frame.\<close>

lemma call_ok_plain: "call_ok L i fs \<Longrightarrow> f \<in> set fs \<Longrightarrow> \<not> is_intr f"
  by (induction rule: call_ok.induct) auto

lemma dropWhile_plain: "(\<And>f. f \<in> set fs \<Longrightarrow> \<not> is_intr f) \<Longrightarrow> dropWhile is_intr fs = fs"
  by (cases fs) auto

lemma calls_pop:
  assumes "call_ok L i (calls v c)" "v_kont v c = f # fs" "\<not> is_intr f"
  shows "dropWhile is_intr fs = fs"
  using assms call_ok_plain [of L i "f # fs"] by (intro dropWhile_plain) (auto simp: calls_def)

lemma stacks_step:
  assumes step: "awake_step L c v w" and inv: "stacks_inv L v"
  shows "stacks_inv L w"
proof -
  have ok: "call_ok L (p = v_idle v) (calls v p)" for p using inv by (simp add: stacks_inv_def)
  have ok': "p \<noteq> v_idle v \<Longrightarrow> call_ok L False (calls v p)" for p using ok [of p] by simp
  note pop = calls_pop [OF ok [of c]]
  have act: "v_live v c" "vstep L c v w" using step by (simp_all add: awake_step_def)
  have "\<forall>p. call_ok L (p = v_idle w) (calls w p)"
    using act(2)
  proof cases
    case (pop_quiet f fs i b)
    then show ?thesis using ok pop [of f fs] ok [of c]
      by (auto simp: calls_def call_ok_simps)
  next
    case (pop_down m b fs)
    then show ?thesis using ok pop [of "KDown m b" fs] ok [of c]
      by (auto simp: calls_def call_ok_simps v_down_def)
  next
    case (pop_sema m fs b)
    then show ?thesis using ok pop [of "KSema m" fs] ok [of c]
      by (auto simp: calls_def call_ok_simps v_down_def)
  next
    case (pop_acquire l fs b)
    then show ?thesis using ok pop [of "KAcquire l" fs] ok [of c]
      by (auto simp: calls_def call_ok_simps v_down_def)
  next
    case (pop_holder l fs)
    then show ?thesis using ok pop [of "KHolder l" fs] ok [of c]
      by (auto simp: calls_def call_ok_simps)
  next
    case (pop_up m fs)
    then show ?thesis using ok pop [of "KUp m" fs] ok [of c]
      by (auto simp: calls_def call_ok_simps)
  qed (use ok ok' in \<open>auto simp: calls_def call_ok_simps v_down_def elem_sema_def\<close>)
  moreover have "\<forall>p. v_kont w p \<noteq> [] \<longrightarrow> v_live w p"
    using act(2) inv act(1) by cases (auto simp: stacks_inv_def v_down_def)
  moreover have cond: "x \<in> set (v_cond v cv) \<Longrightarrow> elem_sema x \<notin> lock_sema ` L" for x cv
    using inv by (simp add: stacks_inv_def)
  have "\<forall>cv. \<forall>x \<in> set (v_cond w cv). elem_sema x \<notin> lock_sema ` L"
    using act(2)
  proof cases
    case (signal cv x xs)
    then show ?thesis using cond cond [of _ cv] by simp
  qed (use cond in \<open>auto simp: v_down_def\<close>)
  moreover have acq: "KAcquire l \<in> set (v_kont v p) \<Longrightarrow> p \<noteq> NULL \<Longrightarrow> v_holder v l \<noteq> p" for p l
    using inv by (simp add: stacks_inv_def)
  have "\<forall>p l. KAcquire l \<in> set (v_kont w p) \<longrightarrow> p \<noteq> NULL \<longrightarrow> v_holder w l \<noteq> p"
    using act(2)
  proof cases
    case (pop_holder l fs)
    then have "fs = []" using ok [of c] by (simp add: calls_def call_ok_simps)
    then show ?thesis using acq pop_holder by auto
  qed (use acq acq [of _ c] in \<open>auto simp: v_down_def split: if_splits\<close>)
  ultimately show ?thesis by (simp add: stacks_inv_def)
qed

text \<open>Steps that neither put a thread to sleep nor wake one.\<close>

lemma sleep_quiet:
  assumes "sleep_inv v" "waiters w = waiters v" "v_blk w = v_blk v" "\<And>p. v_blk v p \<Longrightarrow> v_live v p \<Longrightarrow> v_live w p"
    "\<And>p. v_blk v p \<Longrightarrow> calls w p = calls v p"
  shows "sleep_inv w"
  using assms unfolding sleep_inv_def in_down_def in_wait_def assms(2,3) by metis

lemma sleep_inD: "sleep_inv v \<Longrightarrow> p \<in> set (waiters v m) \<Longrightarrow> v_blk v p \<and> in_down v m p"
  by (simp add: sleep_inv_def)

lemma sleep_blkD: "sleep_inv v \<Longrightarrow> v_blk v p \<Longrightarrow> v_live v p \<and> ((\<exists>m. p \<in> set (waiters v m)) \<or> in_wait v p)"
  by (simp add: sleep_inv_def)

lemma sleep_distinct: "sleep_inv v \<Longrightarrow> distinct (waiters v m)"
  by (simp add: sleep_inv_def)

lemma sleep_one: "sleep_inv v \<Longrightarrow> p \<in> set (waiters v m) \<Longrightarrow> p \<in> set (waiters v m') \<Longrightarrow> m = m'"
  using sleep_inD [of v p m] sleep_inD [of v p m'] by (auto simp: in_down_def)

lemma sleep_excl: "sleep_inv v \<Longrightarrow> in_wait v p \<Longrightarrow> p \<notin> set (waiters v m)"
  using sleep_inD [of v p m] by (auto simp: in_down_def in_wait_def)

lemma sleep_sleep:
  assumes inv: "sleep_inv v" and c: "\<not> v_blk v c" "v_live v c"
  shows "sleep_inv (v_sleep c m b v)"
proof -
  have nw: "c \<notin> set (waiters v k)" for k using sleep_inD [OF inv, of c k] c(1) by auto
  have other: "p \<noteq> c \<Longrightarrow> in_down (v_sleep c m b v) k p = in_down v k p"
    "p \<noteq> c \<Longrightarrow> in_wait (v_sleep c m b v) p = in_wait v p" for p k
    by (simp_all add: in_down_def in_wait_def calls_def)
  have me: "in_down (v_sleep c m b v) m c" by (simp add: in_down_def calls_def)
  show ?thesis unfolding sleep_inv_def
  proof (intro conjI allI impI)
    fix k show "distinct (waiters (v_sleep c m b v) k)" using sleep_distinct [OF inv] nw by simp
  next
    fix k p assume "p \<in> set (waiters (v_sleep c m b v) k)"
    then have "(p = c \<and> k = m) \<or> (p \<noteq> c \<and> p \<in> set (waiters v k))" using nw by (auto split: if_splits)
    then show "v_blk (v_sleep c m b v) p" "in_down (v_sleep c m b v) k p"
      using me other sleep_inD [OF inv] by auto
  next
    fix p assume p: "v_blk (v_sleep c m b v) p"
    then show "v_live (v_sleep c m b v) p" using sleep_blkD [OF inv] c(2) by (auto split: if_splits)
    show "(\<exists>k. p \<in> set (waiters (v_sleep c m b v) k)) \<or> in_wait (v_sleep c m b v) p"
    proof (cases "p = c")
      case False
      then have "(\<exists>k. p \<in> set (waiters v k)) \<or> in_wait v p" using p sleep_blkD [OF inv] by simp
      then show ?thesis using other(2) [OF False] by auto
    qed (auto intro: exI [of _ m])
  qed
qed

lemma sleep_up:
  assumes inv: "sleep_inv v"
  shows "sleep_inv (v_up m v)"
proof (cases "waiters v m")
  case Nil
  then show ?thesis by (intro sleep_quiet [OF inv]) (simp_all add: fun_upd_idem calls_def)
next
  case (Cons p ps)
  have d: "p \<notin> set ps" "distinct ps" using sleep_distinct [OF inv, of m] Cons by simp_all
  have pm: "p \<in> set (waiters v k) \<longleftrightarrow> k = m" for k using sleep_one [OF inv, of p m k] Cons by auto
  have np: "\<not> in_wait v p" using sleep_excl [OF inv, of p m] Cons by auto
  have wt: "q \<in> set (waiters (v_up m v) k) \<longleftrightarrow> q \<noteq> p \<and> q \<in> set (waiters v k)" for q k
    using d pm [of k] Cons by auto
  have same: "in_down (v_up m v) = in_down v" "in_wait (v_up m v) = in_wait v"
    by (simp_all add: in_down_def [abs_def] in_wait_def [abs_def] calls_def)
  show ?thesis unfolding sleep_inv_def wt same
  proof (intro conjI allI impI)
    fix k show "distinct (waiters (v_up m v) k)" using sleep_distinct [OF inv] d Cons by simp
  qed (use sleep_inD [OF inv] sleep_blkD [OF inv] np Cons in \<open>auto split: if_splits\<close>)
qed

lemma sleep_step:
  assumes step: "awake_step L c v w" and stacks: "stacks_inv L v" and inv: "sleep_inv v" and child: "child_inv v"
  shows "sleep_inv w"
proof -
  have act: "v_live v c" "\<not> v_blk v c" "vstep L c v w" using step by (simp_all add: awake_step_def)
  have q: "sleep_inv u" if "waiters u = waiters v" "v_blk u = v_blk v" "v_live u = v_live v" "\<And>p. p \<noteq> c \<Longrightarrow> calls u p = calls v p" for u
    using that act(2) by (intro sleep_quiet [OF inv]) (auto, metis)
  have down: "sleep_inv (v_down c m b u)" if "sleep_inv u" "v_blk u = v_blk v" "v_live u = v_live v" for u m b
  proof (cases "s_value (v_sema u m) = 0")
    case False
    have "sleep_inv (v_take m u)" by (rule sleep_quiet [OF that(1)]) (simp_all add: calls_def)
    then show ?thesis using False by (simp add: v_down_def)
  qed (use that act sleep_sleep [OF that(1), of c] in \<open>simp add: v_down_def\<close>)
  show ?thesis using act(3)
  proof cases
    case (create p)
    then have "\<not> v_blk v p" using sleep_blkD [OF inv] by blast
    then show ?thesis unfolding create(1) by (intro sleep_quiet [OF inv]) (auto simp: calls_def)
  next
    case exit
    obtain x y where xy: "v_par v c = (x, y)" by fastforce
    show ?thesis
    proof (cases "x \<and> y \<noteq> NULL")
      case True
      then have y: "v_blk v y" "in_wait v y" using child xy by (auto simp: child_inv_def)
      have "in_down w = in_down v" "in_wait w = in_wait v"
        unfolding exit(1) by (simp_all add: in_down_def [abs_def] in_wait_def [abs_def] calls_def)
      then show ?thesis using sleep_distinct [OF inv] sleep_inD [OF inv] sleep_blkD [OF inv] sleep_excl [OF inv y(2)] act(2) xy True
        unfolding exit(1) sleep_inv_def by auto
    next
      case False
      then show ?thesis unfolding exit(1) using xy act(2) by (intro sleep_quiet [OF inv]) (auto simp: calls_def)
    qed
  next
    case (wait_child p i b)
    have "in_wait w c" unfolding wait_child(1) by (simp add: in_wait_def calls_def)
    moreover have "q \<noteq> c \<Longrightarrow> in_down w m q = in_down v m q" "q \<noteq> c \<Longrightarrow> in_wait w q = in_wait v q" for q m
      unfolding wait_child(1) by (simp_all add: in_down_def in_wait_def calls_def)
    moreover have "c \<notin> set (waiters v m)" for m using sleep_inD [OF inv, of c m] act(2) by auto
    ultimately show ?thesis
      using sleep_distinct [OF inv] sleep_inD [OF inv] sleep_blkD [OF inv] act(1)
      unfolding sleep_inv_def wait_child(1) by simp
  next
    case (cond_wait l x cv)
    then have "waiters v (elem_sema x) = []" by (simp add: waiters_def)
    then show ?thesis unfolding cond_wait(1) by (intro q) (simp_all add: fun_upd_idem calls_def)
  qed (auto intro!: down q sleep_up simp: calls_def split: if_splits)
qed

section \<open>No wake-up is lost\<close>

lemma retesting_finite:
  assumes "stacks_inv L v" "finite {p. v_live v p}"
  shows "finite (retesting v m)"
proof (rule finite_subset [OF _ assms(2)])
  have "in_down v m p \<Longrightarrow> v_kont v p \<noteq> []" for p by (auto simp: in_down_def)
  then show "retesting v m \<subseteq> {p. v_live v p}" using assms(1) by (auto simp: retesting_def stacks_inv_def)
qed

text \<open>
  How a step may change the value of a semaphore with waiters: it does not grow; or a thread that
  was testing it takes one; or it grows by one and one waiter begins to test.
\<close>

definition balanced :: "kview \<Rightarrow> kview \<Rightarrow> ptr \<Rightarrow> bool" where
  "balanced v w m \<longleftrightarrow> (val w m \<le> val v m \<and> retesting v m \<subseteq> retesting w m)
     \<or> (\<exists>c. val w m < val v m \<and> retesting v m \<subseteq> insert c (retesting w m))
     \<or> (\<exists>p. val w m \<le> Suc (val v m) \<and> p \<notin> retesting v m \<and> insert p (retesting v m) \<subseteq> retesting w m)"

lemma wakeupI:
  assumes inv: "wakeup_inv v" and w: "stacks_inv L w" "stacks_inv L v" "finite {p. v_live w p}"
    and step: "\<And>m. waiters w m \<noteq> [] \<Longrightarrow> val w m = 0 \<or> waiters v m \<noteq> [] \<and> balanced v w m"
  shows "wakeup_inv w"
proof -
  have "val w m \<le> card (retesting w m)" if wm: "waiters w m \<noteq> []" for m
  proof (cases "val w m = 0")
    case False
    then have v: "waiters v m \<noteq> []" and b: "balanced v w m" using step [OF wm] by auto
    have le: "val v m \<le> card (retesting v m)" using inv v by (simp add: wakeup_inv_def)
    have lv: "finite {p. v_live v p}" using inv by (simp add: wakeup_inv_def)
    have fin: "finite (retesting w m)" "finite (retesting v m)"
      using retesting_finite [OF w(1,3)] retesting_finite [OF w(2) lv] .
    from b show ?thesis unfolding balanced_def
    proof (elim disjE conjE exE)
      assume "val w m \<le> val v m" "retesting v m \<subseteq> retesting w m"
      then show ?thesis using le card_mono [OF fin(1), of "retesting v m"] by simp
    next
      fix c assume a: "val w m < val v m" "retesting v m \<subseteq> insert c (retesting w m)"
      have "card (retesting v m) \<le> card (insert c (retesting w m))" using a(2) fin(1) by (intro card_mono) auto
      also have "\<dots> \<le> Suc (card (retesting w m))" using fin(1) by (simp add: card_insert_if)
      finally show ?thesis using le a(1) by simp
    next
      fix p assume a: "val w m \<le> Suc (val v m)" "p \<notin> retesting v m" "insert p (retesting v m) \<subseteq> retesting w m"
      have "Suc (card (retesting v m)) = card (insert p (retesting v m))" using a(2) fin(2) by simp
      also have "\<dots> \<le> card (retesting w m)" using a(3) fin(1) by (intro card_mono) auto
      finally show ?thesis using le a(1) by simp
    qed
  qed simp
  then show ?thesis using w(3) by (simp add: wakeup_inv_def)
qed

lemma balanced_same:
  "val w m \<le> val v m \<Longrightarrow> waiters w m = waiters v m \<Longrightarrow> (\<And>p. in_down v m p \<Longrightarrow> in_down w m p) \<Longrightarrow> balanced v w m"
  unfolding balanced_def by (intro disjI1 conjI) (auto simp: retesting_def)

lemma balanced_take:
  "val w m < val v m \<Longrightarrow> waiters w m = waiters v m \<Longrightarrow> (\<And>p. p \<noteq> c \<Longrightarrow> in_down v m p \<Longrightarrow> in_down w m p) \<Longrightarrow> balanced v w m"
  unfolding balanced_def by (intro disjI2 disjI1 exI [of _ c] conjI) (auto simp: retesting_def)

lemma add32_le: "add32 a b \<le> a + b"
  by (simp add: add32_def)

lemma in_down_same [simp]:
  "in_down (v_up m v) = in_down v" "in_down (v_take m v) = in_down v" "in_down (v\<lparr>v_cond := cs\<rparr>) = in_down v"
  by (simp_all add: in_down_def [abs_def] calls_def)

lemma balanced_up:
  assumes inv: "sleep_inv v" and u: "\<And>k p. in_down v k p \<Longrightarrow> in_down u k p" "waiters u = waiters v" "val u = val v"
    and w: "waiters (v_up m u) k \<noteq> []"
  shows "waiters v k \<noteq> [] \<and> balanced v (v_up m u) k"
proof (cases "k = m")
  case True
  then obtain p ps where p: "waiters v m = p # ps" using w u(2) by (cases "waiters v m") auto
  have pc: "in_down v m p" "p \<notin> set ps"
    using p sleep_inD [OF inv, of p m] sleep_distinct [OF inv, of m] by auto
  have "val (v_up m u) m \<le> Suc (val v m)" using u(3) add32_le [of "val v m" 1] by simp
  moreover have "p \<notin> retesting v m" using p by (simp add: retesting_def)
  moreover have "insert p (retesting v m) \<subseteq> retesting (v_up m u) m"
    using p pc u(1,2) by (auto simp: retesting_def)
  ultimately show ?thesis using True p unfolding balanced_def by (intro conjI disjI2 exI [of _ p]) simp_all
next
  case False
  then show ?thesis using w u by (auto intro!: balanced_same)
qed

lemma balanced_down:
  assumes u: "\<And>k p. in_down v k p \<Longrightarrow> in_down u k p \<or> p = c \<and> k = m" "waiters u = waiters v" "val u = val v"
    and w: "waiters (v_down c m b u) k \<noteq> []" and c: "\<And>k. in_down u k c \<Longrightarrow> k = m"
  shows "val (v_down c m b u) k = 0 \<or> waiters v k \<noteq> [] \<and> balanced v (v_down c m b u) k"
proof (cases "s_value (v_sema u m) = 0")
  case True
  then have d: "v_down c m b u = v_sleep c m b u" by (simp add: v_down_def)
  have same: "in_down (v_sleep c m b u) k q" if "in_down v k q" "k \<noteq> m" for q
    using u(1) [OF that(1)] c [of k] that(2) by (cases "q = c") (auto simp: in_down_def calls_def)
  have "val u m = 0" using True by (simp add: val_def)
  then show ?thesis using w u(2,3) same unfolding d by (cases "k = m") (auto intro!: balanced_same)
next
  case False
  then have d: "v_down c m b u = v_take m u" and pos: "0 < val u m" by (simp_all add: v_down_def val_def)
  show ?thesis
  proof (cases "k = m")
    case True
    then show ?thesis using w u(2,3) pos unfolding d by (auto intro!: balanced_take [where c = c] dest: u(1))
  next
    case False
    then show ?thesis using w u(2,3) unfolding d by (auto intro!: balanced_same dest: u(1))
  qed
qed

lemma wakeup_step:
  assumes step: "awake_step L c v w" and inv: "stacks_inv L v" "sleep_inv v" "wakeup_inv v" and w: "stacks_inv L w"
  shows "wakeup_inv w"
proof (rule wakeupI [OF inv(3) w inv(1)])
  have act: "\<not> v_blk v c" "vstep L c v w" using step by (simp_all add: awake_step_def)
  have fin: "finite {p. v_live v p}" using inv(3) by (simp add: wakeup_inv_def)
  have "\<exists>p. {q. v_live w q} \<subseteq> insert p {q. v_live v q}"
    using act(2) by cases (auto simp: v_down_def)
  then show "finite {p. v_live w p}" using fin by (auto intro: finite_subset)
  have ok: "call_ok L (c = v_idle v) (calls v c)" using inv(1) by (simp add: stacks_inv_def)
  fix m assume wm: "waiters w m \<noteq> []"
  have same: "val w m = 0 \<or> waiters v m \<noteq> [] \<and> balanced v w m"
    if "waiters w m = waiters v m" "val w m \<le> val v m" "\<And>p. in_down v m p \<Longrightarrow> in_down w m p"
    using that wm by (auto intro: balanced_same)
  show "val w m = 0 \<or> waiters v m \<noteq> [] \<and> balanced v w m"
    using act(2)
  proof cases
    case (pop_down k b fs)
    then have "fs = [] \<or> (\<exists>l. fs = [KHolder l]) \<or> (\<exists>l. fs = [KAcquire l])"
      using ok by (auto simp: calls_def call_ok_simps)
    then show ?thesis unfolding pop_down(1)
      by (intro balanced_down) (use wm pop_down in \<open>auto simp: in_down_def calls_def\<close>)
  next
    case (pop_sema k fs b)
    then have "\<exists>l. fs = [KAcquire l]" using ok by (auto simp: calls_def call_ok_simps)
    then show ?thesis unfolding pop_sema(1)
      by (intro balanced_down) (use wm pop_sema in \<open>auto simp: in_down_def calls_def\<close>)
  next
    case (pop_acquire l fs b)
    show ?thesis unfolding pop_acquire(1)
      by (rule balanced_down) (use wm pop_acquire in \<open>auto simp: in_down_def calls_def\<close>)
  next
    case (pop_up k fs)
    show ?thesis unfolding pop_up(1)
      by (rule disjI2, rule balanced_up [OF inv(2)]) (use wm pop_up in \<open>auto simp: in_down_def calls_def\<close>)
  next
    case (up k)
    show ?thesis unfolding up(1) by (rule disjI2, rule balanced_up [OF inv(2)]) (use wm up in auto)
  next
    case (down k b)
    show ?thesis unfolding down(1)
      by (rule balanced_down) (use wm down in \<open>auto simp: in_down_def calls_def\<close>)
  next
    case (acquire l b)
    show ?thesis unfolding acquire(1)
      by (rule balanced_down) (use wm acquire in \<open>auto simp: in_down_def calls_def\<close>)
  next
    case (signal cv x xs)
    show ?thesis unfolding signal(1) by (rule disjI2, rule balanced_up [OF inv(2)]) (use wm signal in auto)
  next
    case (create p)
    then have "v_kont v p = []" using inv(1) by (auto simp: stacks_inv_def)
    then show ?thesis using wm unfolding create(1) by (intro same [unfolded create(1)]) (auto simp: in_down_def calls_def)
  qed (rule same; use wm in \<open>auto simp: in_down_def calls_def split: if_splits\<close>)+
qed

section \<open>A lock has one owner\<close>

lemma lock_quiet:
  assumes "lock_ok v l" "val w (lock_sema l) = val v (lock_sema l)" "v_holder w l = v_holder v l"
    and t: "\<And>p. transit w l p = transit v l p"
  shows "lock_ok w l"
  using assms(1) unfolding lock_ok_def assms(2,3) t .

lemma lock_free: "lock_ok v l \<Longrightarrow> 0 < val v (lock_sema l) \<Longrightarrow> val v (lock_sema l) = 1 \<and> v_holder v l = NULL \<and> (\<forall>p. \<not> transit v l p)"
  by (auto simp: lock_ok_def)

lemma lock_transit: "lock_ok v l \<Longrightarrow> transit v l c \<Longrightarrow> val v (lock_sema l) = 0 \<and> v_holder v l = NULL \<and> (\<forall>p. transit v l p \<longleftrightarrow> p = c)"
  unfolding lock_ok_def set_eq_iff by (elim disjE conjE exE) auto

lemma lock_held: "lock_ok v l \<Longrightarrow> v_holder v l \<noteq> NULL \<Longrightarrow> val v (lock_sema l) = 0 \<and> (\<forall>p. \<not> transit v l p)"
  by (auto simp: lock_ok_def)

lemma lock_take:
  assumes "lock_ok v l" "0 < val v (lock_sema l)" "val w (lock_sema l) = val v (lock_sema l) - 1" "v_holder w l = v_holder v l"
    "transit w l c" "\<And>p. p \<noteq> c \<Longrightarrow> transit w l p = transit v l p"
  shows "lock_ok w l"
proof -
  have "{p. transit w l p} = {c}" using lock_free [OF assms(1,2)] assms(5,6) by auto
  then show ?thesis using lock_free [OF assms(1,2)] assms(3,4) by (simp add: lock_ok_def)
qed

lemma lock_hold:
  assumes "lock_ok v l" "transit v l c" "val w (lock_sema l) = val v (lock_sema l)" "v_holder w l = c" "c \<noteq> NULL"
    "\<not> transit w l c" "\<And>p. p \<noteq> c \<Longrightarrow> transit w l p = transit v l p"
  shows "lock_ok w l"
proof -
  have "{p. transit w l p} = {}" using lock_transit [OF assms(1,2)] assms(6,7) by (metis (no_types) empty_Collect_eq)
  then show ?thesis using lock_transit [OF assms(1,2)] assms(3,4,5) by (simp add: lock_ok_def)
qed

lemma lock_drop:
  assumes "lock_ok v l" "v_holder v l = c" "c \<noteq> NULL" "val w (lock_sema l) = val v (lock_sema l)" "v_holder w l = NULL"
    "transit w l c" "\<And>p. p \<noteq> c \<Longrightarrow> transit w l p = transit v l p"
  shows "lock_ok w l"
proof -
  have h: "val v (lock_sema l) = 0 \<and> (\<forall>p. \<not> transit v l p)" using lock_held [OF assms(1)] assms(2,3) by simp
  then have "{p. transit w l p} = {c}" using assms(6,7) by auto
  then show ?thesis using h assms(4,5) by (simp add: lock_ok_def)
qed

lemma lock_up:
  assumes "lock_ok v l" "transit v l c" "val w (lock_sema l) = add32 (val v (lock_sema l)) 1" "v_holder w l = v_holder v l"
    "\<not> transit w l c" "\<And>p. p \<noteq> c \<Longrightarrow> transit w l p = transit v l p"
  shows "lock_ok w l"
proof -
  have "{p. transit w l p} = {}" using lock_transit [OF assms(1,2)] assms(5,6) by (metis (no_types) empty_Collect_eq)
  then show ?thesis using lock_transit [OF assms(1,2)] assms(3,4) by (simp add: lock_ok_def add32_def)
qed

lemma lock_down:
  assumes ok: "lock_ok v l" and u: "val u = val v" "v_holder u l = v_holder v l" "\<And>p. p \<noteq> c \<Longrightarrow> calls u p = calls v p"
    and c: "\<not> transit v l c" "transit u l c \<longleftrightarrow> m = lock_sema l"
  shows "lock_ok (v_down c m b u) l"
proof -
  have other: "p \<noteq> c \<Longrightarrow> transit (v_down c m b u) l p = transit v l p" for p
    using u(3) [of p] by (simp add: transit_def calls_def v_down_def)
  show ?thesis
  proof (cases "s_value (v_sema u m) = 0")
    case True
    have "\<not> transit (v_sleep c m b u) l c" by (simp add: transit_def calls_def)
    then have "transit (v_down c m b u) l p = transit v l p" for p
      using other [of p] c(1) True by (cases "p = c") (simp_all add: v_down_def)
    then show ?thesis using True u by (intro lock_quiet [OF ok]) (simp_all add: v_down_def)
  next
    case False
    have me: "transit (v_down c m b u) l c \<longleftrightarrow> m = lock_sema l" using False c(2) by (simp add: transit_def calls_def v_down_def)
    show ?thesis
    proof (cases "m = lock_sema l")
      case True
      have "0 < val v m" using False u(1) by (metis val_def neq0_conv)
      then show ?thesis using True False u other me
        by (intro lock_take [OF ok, of _ c]) (simp_all add: v_down_def)
    next
      case m: False
      have "transit (v_down c m b u) l p = transit v l p" for p
        using other [of p] me m c(1) by (cases "p = c") simp_all
      then show ?thesis using False m u by (intro lock_quiet [OF ok]) (simp_all add: v_down_def)
    qed
  qed
qed

lemma transit_same [simp]:
  "transit (v_up m v) = transit v" "transit (v_take m v) = transit v" "transit (v\<lparr>v_cond := cs\<rparr>) = transit v"
  "transit (v\<lparr>v_holder := h\<rparr>) = transit v"
  by (simp_all add: transit_def [abs_def] calls_def)

lemma lock_step:
  assumes step: "awake_step L c v w" and st: "stacks_inv L v" and l: "l \<in> L" and ok: "lock_ok v l"
  shows "lock_ok w l"
proof -
  have act: "c \<noteq> NULL" "vstep L c v w" using step by (simp_all add: awake_step_def)
  have cok: "call_ok L (c = v_idle v) (calls v c)" using st by (simp add: stacks_inv_def)
  show ?thesis using act(2)
  proof cases
    case (pop_quiet f fs i b)
    have "transit w l p = transit v l p" for p
      unfolding pop_quiet(1) using pop_quiet(2,3) cok
      by (cases "p = c") (auto simp: transit_def calls_def call_ok_simps)
    then show ?thesis unfolding pop_quiet(1) by (intro lock_quiet [OF ok]) simp_all
  next
    case (pop_down k b fs)
    then have "(fs = [] \<and> k \<notin> lock_sema ` L) \<or> (\<exists>l. fs = [KHolder l] \<and> k = lock_sema l) \<or> (\<exists>l. fs = [KAcquire l] \<and> k \<notin> lock_sema ` L)"
      using cok by (auto simp: calls_def call_ok_simps)
    then show ?thesis unfolding pop_down(1)
      by (intro lock_down [OF ok]) (use l pop_down in \<open>auto simp: transit_def calls_def\<close>)
  next
    case (pop_sema k fs b)
    then have "(\<exists>l. fs = [KAcquire l]) \<and> k \<notin> lock_sema ` L" using cok by (auto simp: calls_def call_ok_simps)
    then show ?thesis unfolding pop_sema(1)
      by (intro lock_down [OF ok]) (use l pop_sema in \<open>auto simp: transit_def calls_def\<close>)
  next
    case (pop_acquire k fs b)
    show ?thesis unfolding pop_acquire(1)
      by (intro lock_down [OF ok]) (use pop_acquire in \<open>auto simp: transit_def calls_def\<close>)
  next
    case (pop_holder k fs)
    then have fs: "fs = []" using cok by (auto simp: calls_def call_ok_simps)
    show ?thesis
    proof (cases "k = l")
      case True
      then show ?thesis unfolding pop_holder(1)
        by (intro lock_hold [OF ok, of c]) (use pop_holder fs act(1) in \<open>auto simp: transit_def calls_def\<close>)
    next
      case False
      have "transit w l p = transit v l p" for p
        unfolding pop_holder(1) using pop_holder(2) fs False by (cases "p = c") (auto simp: transit_def calls_def)
      then show ?thesis unfolding pop_holder(1) using False by (intro lock_quiet [OF ok]) simp_all
    qed
  next
    case (pop_up k fs)
    then have fs: "fs = [] \<or> (\<exists>m l. fs = [KSema m, KAcquire l])" using cok by (auto simp: calls_def call_ok_simps)
    show ?thesis
    proof (cases "k = lock_sema l")
      case True
      then show ?thesis unfolding pop_up(1)
        by (intro lock_up [OF ok, of c]) (use pop_up fs in \<open>auto simp: transit_def calls_def\<close>)
    next
      case False
      have "transit w l p = transit v l p" for p
        unfolding pop_up(1) using pop_up(2) fs False by (cases "p = c") (auto simp: transit_def calls_def)
      then show ?thesis unfolding pop_up(1) using False by (intro lock_quiet [OF ok]) simp_all
    qed
  next
    case (down m b)
    then show ?thesis unfolding down(1) using l by (intro lock_down [OF ok]) (auto simp: transit_def)
  next
    case (acquire k b)
    then show ?thesis unfolding acquire(1) by (intro lock_down [OF ok]) (auto simp: transit_def calls_def)
  next
    case (try_acquire k)
    show ?thesis
    proof (cases "k = l")
      case True
      then show ?thesis unfolding try_acquire(1)
        by (intro lock_take [OF ok, of _ c]) (use try_acquire in \<open>auto simp: transit_def calls_def val_def\<close>)
    next
      case False
      then show ?thesis unfolding try_acquire(1)
        by (intro lock_quiet [OF ok]) (use try_acquire in \<open>auto simp: transit_def calls_def\<close>)
    qed
  next
    case (release k)
    show ?thesis
    proof (cases "k = l")
      case True
      then show ?thesis unfolding release(1)
        by (intro lock_drop [OF ok, of c]) (use release act(1) in \<open>auto simp: transit_def calls_def\<close>)
    next
      case False
      then show ?thesis unfolding release(1)
        by (intro lock_quiet [OF ok]) (use release in \<open>auto simp: transit_def calls_def\<close>)
    qed
  next
    case (cond_wait k x cv)
    have "lock_sema l \<noteq> elem_sema x" using cond_wait(7) l by (metis imageI)
    then have v: "val w (lock_sema l) = val v (lock_sema l)" using cond_wait(1) by simp
    show ?thesis
    proof (cases "k = l")
      case True
      then show ?thesis
        by (intro lock_drop [OF ok, of c] v) (use cond_wait act(1) in \<open>auto simp: transit_def calls_def\<close>)
    next
      case False
      then show ?thesis
        by (intro lock_quiet [OF ok] v) (use cond_wait in \<open>auto simp: transit_def calls_def\<close>)
    qed
  next
    case (signal cv x xs)
    have "\<forall>y \<in> set (v_cond v cv). elem_sema y \<notin> lock_sema ` L" using st by (simp add: stacks_inv_def)
    then have "elem_sema x \<notin> lock_sema ` L" using signal(2) by simp
    then have "lock_sema l \<noteq> elem_sema x" using l by (metis imageI)
    then show ?thesis unfolding signal(1) by (intro lock_quiet [OF ok]) simp_all
  next
    case (create p)
    then have "v_kont v p = []" using st by (auto simp: stacks_inv_def)
    then show ?thesis unfolding create(1) by (intro lock_quiet [OF ok]) (auto simp: transit_def calls_def)
  qed (rule lock_quiet [OF ok]; use l in \<open>auto simp: transit_def calls_def split: if_splits\<close>)+
qed

section \<open>The invariant is preserved\<close>

lemma in_wait_same [simp]:
  "in_wait (v_up m v) = in_wait v" "in_wait (v_take m v) = in_wait v" "in_wait (v\<lparr>v_cond := cs\<rparr>) = in_wait v"
  "in_wait (v\<lparr>v_holder := h\<rparr>) = in_wait v"
  by (simp_all add: in_wait_def [abs_def] calls_def)

lemma child_quiet:
  assumes inv: "child_inv v" and w: "v_par w = v_par v" "\<And>p. v_live w p \<Longrightarrow> v_live v p" "\<And>q. v_blk v q \<Longrightarrow> in_wait v q \<Longrightarrow> v_blk w q \<and> in_wait w q"
  shows "child_inv w"
  using inv w(2,3) unfolding child_inv_def w(1) by blast

lemma child_up:
  assumes inv: "child_inv v" and sl: "sleep_inv v"
    and u: "v_par u = v_par v" "v_live u = v_live v" "waiters u = waiters v" "v_blk u = v_blk v" "\<And>q. v_blk v q \<Longrightarrow> in_wait v q \<Longrightarrow> in_wait u q"
  shows "child_inv (v_up m u)"
proof (rule child_quiet [OF inv])
  fix q assume q: "v_blk v q" "in_wait v q"
  then have "q \<notin> set (waiters v m)" using sleep_excl [OF sl] by blast
  then show "v_blk (v_up m u) q \<and> in_wait (v_up m u) q" using q u by (auto split: list.split)
qed (simp_all add: u)

lemma child_down:
  assumes inv: "child_inv v" and c: "\<not> v_blk v c"
    and u: "v_par u = v_par v" "v_live u = v_live v" "v_blk u = v_blk v" "\<And>q. q \<noteq> c \<Longrightarrow> calls u q = calls v q"
  shows "child_inv (v_down c m b u)"
proof (rule child_quiet [OF inv])
  fix q assume q: "v_blk v q" "in_wait v q"
  then have "q \<noteq> c" using c by auto
  then show "v_blk (v_down c m b u) q \<and> in_wait (v_down c m b u) q"
    using q u(3) u(4) [of q] by (simp add: v_down_def in_wait_def calls_def)
qed (simp_all add: u v_down_def split: if_splits)

lemma child_step:
  assumes step: "awake_step L c v w" and st: "stacks_inv L v" and sl: "sleep_inv v" and inv: "child_inv v"
  shows "child_inv w"
proof -
  have act: "v_live v c" "\<not> v_blk v c" "c \<noteq> NULL" "vstep L c v w" using step by (simp_all add: awake_step_def)
  have nc: "v_blk v q \<Longrightarrow> q \<noteq> c" for q using act(2) by auto
  have quiet: "child_inv u" if "v_par u = v_par v" "v_live u = v_live v" "v_blk u = v_blk v" "\<And>q. q \<noteq> c \<Longrightarrow> calls u q = calls v q" for u
    by (rule child_quiet [OF inv]) (use that nc in \<open>auto simp: in_wait_def\<close>)
  show ?thesis using act(4)
  proof cases
    case (create p)
    have "\<not> v_blk v p" using sleep_blkD [OF sl] create(2) by blast
    then have "v_blk v q \<Longrightarrow> q \<noteq> p" for q by auto
    then show ?thesis using inv create act(1) unfolding create(1) child_inv_def by (auto simp: in_wait_def calls_def)
  next
    case exit
    obtain x y where xy: "v_par v c = (x, y)" by fastforce
    have "v_par v p = (True, q) \<Longrightarrow> p \<noteq> c \<Longrightarrow> x \<Longrightarrow> q \<noteq> y" for p q using inv xy unfolding child_inv_def by metis
    then show ?thesis using inv xy act(2) unfolding exit(1) child_inv_def
      by (auto simp: in_wait_def calls_def split: if_splits)
  next
    case (wait_child p i b)
    have "c \<noteq> p" using inv wait_child(4,5) unfolding child_inv_def by (metis snd_conv)
    moreover have "v_par v q \<noteq> (True, c)" for q using inv act(2) unfolding child_inv_def by metis
    moreover have "in_wait w c" "q \<noteq> c \<Longrightarrow> in_wait w q = in_wait v q" for q
      unfolding wait_child(1) by (simp_all add: in_wait_def calls_def)
    ultimately show ?thesis using inv act(3) unfolding child_inv_def wait_child(1) by (auto split: if_splits)
  next
    case (pop_up m fs)
    then show ?thesis unfolding pop_up(1)
      by (intro child_up [OF inv sl]) (auto simp: in_wait_def calls_def)
  next
    case (up m)
    then show ?thesis unfolding up(1) by (intro child_up [OF inv sl]) auto
  next
    case (signal cv x xs)
    then show ?thesis unfolding signal(1) by (intro child_up [OF inv sl]) auto
  qed (auto intro!: quiet child_down [OF inv act(2)] simp: calls_def split: if_splits)
qed

theorem sync_step:
  assumes "sync_inv L v" "awake_step L c v w"
  shows "sync_inv L w"
proof -
  have v: "stacks_inv L v" "sleep_inv v" "wakeup_inv v" "child_inv v" "NULL \<notin> L" "\<And>l. l \<in> L \<Longrightarrow> lock_ok v l"
    using assms(1) by (simp_all add: sync_inv_def)
  have w: "stacks_inv L w" using stacks_step [OF assms(2) v(1)] .
  show ?thesis unfolding sync_inv_def
    using w v(5) sleep_step [OF assms(2) v(1,2,4)] lock_step [OF assms(2) v(1) _ v(6)] wakeup_step [OF assms(2) v(1-3) w]
      child_step [OF assms(2) v(1,2,4)] by blast
qed

end
