(* ===== verification/KernelSteps.thy ===== *)
theory KernelSteps
  imports Monitor
begin

text \<open>
  The kernel as a transition system. In every step the running thread executes the topmost frame
  of its stack of suspended calls, or calls a primitive, or is interrupted by the timer or by a
  device whose handler performs \<^verbatim>\<open>sema_up\<close>. The theory shows that every step of a client that
  observes the rules of use returns (no assertion fails), keeps the scheduler invariant and is a
  step of the machine of theory Monitor, and derives exclusion, absence of lost wake-ups and
  first-in-first-out service.
\<close>

section \<open>Operations\<close>

datatype kop =
    Resume
  | Tick
  | Device ptr
  | Yield
  | SemaDown ptr
  | SemaTryDown ptr
  | SemaUp ptr
  | LockAcquire ptr
  | LockTryAcquire ptr
  | LockRelease ptr
  | CondWait ptr ptr ptr
  | CondSignal ptr ptr
  | CondBroadcast ptr ptr
  | Create ptr "u8 list" int ptr
  | Exit
  | WaitChild int
  | IdleRound
  | SetLevel bool
  | SetPriority int

definition kexec :: "kop \<Rightarrow> kernel \<Rightarrow> kernel option" where
  "kexec op s = (case op of
       Resume \<Rightarrow> resume s
     | Tick \<Rightarrow> intr_handler thread_tick s
     | Device m \<Rightarrow> intr_handler (\<lambda>s. sema_up s m) s
     | Yield \<Rightarrow> thread_yield s
     | SemaDown m \<Rightarrow> sema_down s m
     | SemaTryDown m \<Rightarrow> map_option fst (sema_try_down s m)
     | SemaUp m \<Rightarrow> sema_up s m
     | LockAcquire l \<Rightarrow> lock_acquire s l
     | LockTryAcquire l \<Rightarrow> map_option fst (lock_try_acquire s l)
     | LockRelease l \<Rightarrow> lock_release s l
     | CondWait cv l w \<Rightarrow> cond_wait s cv l w
     | CondSignal cv l \<Rightarrow> cond_signal s cv l
     | CondBroadcast cv l \<Rightarrow> cond_broadcast s cv l
     | Create page name priority func \<Rightarrow>
         map_option fst (thread_create_with_pt s page name priority func (running s))
     | Exit \<Rightarrow> thread_exit s
     | WaitChild tid \<Rightarrow> map_option fst (process_wait s tid)
     | IdleRound \<Rightarrow> idle_round s
     | SetLevel b \<Rightarrow> intr_set_level s b
     | SetPriority p \<Rightarrow> thread_set_priority s p)"

text \<open>
  The rules of use. A primitive is called when no other call is in progress and not by the idle
  thread; the semaphore of a lock is not used directly; a lock is acquired only by a thread that
  does not hold it and released, waited on and signalled under only by its holder; the waiter
  element of \<^verbatim>\<open>cond_wait\<close> is storage of the caller, on which nobody waits; \<^verbatim>\<open>palloc_get_page\<close> returned a
  null pointer or a page that is not the page of a thread.
\<close>

definition enabled :: "ptr set \<Rightarrow> kop \<Rightarrow> kernel \<Rightarrow> bool" where
  "enabled L op s = (case op of
       Resume \<Rightarrow> kont s (running s) \<noteq> []
     | Tick \<Rightarrow> intr_on s
     | Device m \<Rightarrow> intr_on s \<and> m \<noteq> NULL \<and> m \<notin> lock_sema ` L
     | IdleRound \<Rightarrow> kont s (running s) = [] \<and> running s = idle_thread s
     | _ \<Rightarrow> kont s (running s) = [] \<and> running s \<noteq> idle_thread s \<and> (case op of
           SemaDown m \<Rightarrow> m \<noteq> NULL \<and> m \<notin> lock_sema ` L
         | SemaTryDown m \<Rightarrow> m \<noteq> NULL \<and> m \<notin> lock_sema ` L
         | SemaUp m \<Rightarrow> m \<noteq> NULL \<and> m \<notin> lock_sema ` L
         | LockAcquire l \<Rightarrow> l \<in> L \<and> holder s l \<noteq> running s
         | LockTryAcquire l \<Rightarrow> l \<in> L \<and> holder s l \<noteq> running s
         | LockRelease l \<Rightarrow> l \<in> L \<and> holder s l = running s
         | CondWait cv l w \<Rightarrow> cv \<noteq> NULL \<and> l \<in> L \<and> holder s l = running s
             \<and> wait s (elem_sema w) = [] \<and> elem_sema w \<notin> lock_sema ` L
         | CondSignal cv l \<Rightarrow> cv \<noteq> NULL \<and> l \<in> L \<and> holder s l = running s
         | CondBroadcast cv l \<Rightarrow> cv \<noteq> NULL \<and> l \<in> L \<and> holder s l = running s
         | Create page name priority func \<Rightarrow> thr s page = None \<and> func \<noteq> NULL
             \<and> PRI_MIN \<le> priority \<and> priority \<le> PRI_MAX
         | _ \<Rightarrow> True))"

inductive kstep :: "ptr set \<Rightarrow> kernel \<Rightarrow> kernel \<Rightarrow> bool" for L :: "ptr set" where
  step: "enabled L op s \<Longrightarrow> kexec op s = Some s' \<Longrightarrow> kstep L s s'"

inductive reachable :: "ptr set \<Rightarrow> kernel \<Rightarrow> kernel \<Rightarrow> bool" for L :: "ptr set" and s0 :: kernel where
  start: "reachable L s0 s0"
| step: "reachable L s0 s \<Longrightarrow> kstep L s s' \<Longrightarrow> reachable L s0 s'"

definition kernel_inv :: "ptr set \<Rightarrow> kernel \<Rightarrow> bool" where
  "kernel_inv L s \<longleftrightarrow> sched_inv s \<and> sync_inv L (view s)"

section \<open>Every operation refines steps of the monitor machine\<close>

abbreviation vsteps :: "ptr set \<Rightarrow> ptr \<Rightarrow> kview \<Rightarrow> kview \<Rightarrow> bool" where
  "vsteps L c \<equiv> (awake_step L c)\<^sup>*\<^sup>*"

lemma vsteps_inv: "vsteps L c v w \<Longrightarrow> sync_inv L v \<Longrightarrow> sync_inv L w"
  by (induction rule: rtranclp_induct) (auto intro: sync_step)

definition simulates :: "ptr set \<Rightarrow> kernel \<Rightarrow> kernel option \<Rightarrow> bool" where
  "simulates L s r \<longleftrightarrow> (\<exists>s'. r = Some s' \<and> sched_inv s' \<and> queue_step s s' \<and> vsteps L (running s) (view s) (view s'))"

lemma refines_simulates:
  "refines s r v \<Longrightarrow> vsteps L (running s) (view s) v \<Longrightarrow> simulates L s r"
  by (auto simp: refines_def simulates_def)

lemma running_awake:
  assumes "sched_inv s"
  shows "v_live (view s) (running s)" "\<not> v_blk (view s) (running s)" "running s \<noteq> NULL"
proof -
  show "running s \<noteq> NULL" using sched_running [OF assms] by blast
qed (use sched_st_running [OF assms] in simp_all)

lemma one_step:
  assumes "sched_inv s" "vstep L (running s) (view s) v"
  shows "vsteps L (running s) (view s) v"
  using running_awake [OF assms(1)] assms(2) by (intro r_into_rtranclp) (simp add: awake_step_def)

lemma resume_sim:
  assumes inv: "sched_inv s" "sync_inv L (view s)" and k: "kont s (running s) \<noteq> []"
  shows "simulates L s (resume s)"
proof -
  obtain f fs where f: "kont s (running s) = f # fs" using k by (cases "kont s (running s)") auto
  let ?v = "view s" and ?c = "running s"
  have st: "stacks_inv L ?v" and L: "NULL \<notin> L" using inv(2) by (simp_all add: sync_inv_def)
  then have ok: "call_ok L (?c = idle_thread s) (calls ?v ?c)" by (simp add: stacks_inv_def)
  have acq: "KAcquire l \<in> set (kont s ?c) \<Longrightarrow> holder s l \<noteq> ?c" for l
    using st running_awake(3) [OF inv(1)] by (simp add: stacks_inv_def)
  have L': "l \<in> L \<Longrightarrow> 0 < l" for l using L by (cases l) auto
  have "frame_ok s f"
    using ok acq L' f by (cases f) (auto simp: frame_ok_def calls_def call_ok_simps lock_sema_def)
  then have r: "refines s (resume s) (v_resume ?c (intr_on s) ?v)" using resume_inv [OF inv(1) f] by blast
  have hd: "v_kont ?v ?c = f # fs" using f by simp
  have "vstep L ?c ?v (v_resume ?c (intr_on s) ?v)"
    using hd vstep.pop_holder [of ?v ?c _ fs L] by (cases f) (auto simp: v_resume_def Let_def intro: vstep.intros)
  then show ?thesis using refines_simulates [OF r one_step [OF inv(1)]] by blast
qed

lemma interrupt_sim:
  assumes inv: "sched_inv s" and h: "handler_ok h f (in_handler s)"
    and f: "\<And>v. v_live v (running s) \<Longrightarrow> \<not> v_blk v (running s) \<Longrightarrow> vsteps L (running s) v (f v)"
    and awake: "\<And>v. v_live v (running s) \<Longrightarrow> \<not> v_blk v (running s) \<Longrightarrow> v_live (f v) (running s) \<and> \<not> v_blk (f v) (running s)"
  shows "simulates L s (intr_handler h s)"
proof -
  let ?c = "running s" and ?v = "view s" and ?h = "view (in_handler s)"
  obtain s' k where s': "intr_handler h s = Some s'" "sched_inv s'" "queue_step s s'"
      "view s' = (f ?h)\<lparr>v_kont := (v_kont (f ?h))(?c := k @ v_kont (f ?h) ?c)\<rparr>" "k = [] \<or> k = [KYield False]"
    using intr_handler_inv [OF inv h] by blast
  have hv: "?h = v_push ?c (KIret (intr_on s)) ?v" by (simp add: v_push_def)
  have 1: "vsteps L ?c ?v ?h" unfolding hv by (rule one_step [OF inv]) (rule push_intr, simp)
  have aw: "v_live ?h ?c" "\<not> v_blk ?h ?c" using running_awake [OF inv] by simp_all
  have "vsteps L ?c (f ?h) (view s')"
  proof (cases "k = []")
    case True
    then have "view s' = f ?h" using s'(4) by simp
    then show ?thesis by simp
  next
    case False
    then have "view s' = v_push ?c (KYield False) (f ?h)" using s'(4,5) by (simp add: v_push_def)
    then have "vstep L ?c (f ?h) (view s')" by (simp add: push_intr)
    then show ?thesis using awake [OF aw] running_awake(3) [OF inv] by (intro r_into_rtranclp) (simp add: awake_step_def)
  qed
  then show ?thesis using 1 f [OF aw] s' unfolding simulates_def by (meson rtranclp_trans)
qed

lemma up_awake: "\<not> v_blk v c \<Longrightarrow> \<not> v_blk (v_up m v) c"
  by (auto split: list.split)

lemma up_step:
  "v_live v c \<Longrightarrow> \<not> v_blk v c \<Longrightarrow> c \<noteq> NULL \<Longrightarrow> m \<notin> lock_sema ` L \<Longrightarrow> vsteps L c v (v_up m v)"
  by (intro r_into_rtranclp) (simp add: awake_step_def vstep.up)

lemma signal_steps:
  "v_live v c \<Longrightarrow> \<not> v_blk v c \<Longrightarrow> c \<noteq> NULL \<Longrightarrow> vsteps L c v ((v_signal cv ^^ n) v) \<and> v_live ((v_signal cv ^^ n) v) c \<and> \<not> v_blk ((v_signal cv ^^ n) v) c"
proof (induction n)
  case (Suc n)
  define u where "u = (v_signal cv ^^ n) v"
  have u: "vsteps L c v u" "v_live u c" "\<not> v_blk u c" using Suc unfolding u_def by blast+
  have "vsteps L c v (v_signal cv u) \<and> v_live (v_signal cv u) c \<and> \<not> v_blk (v_signal cv u) c"
  proof (cases "v_cond u cv")
    case Nil
    then show ?thesis using u by (simp add: v_signal_def)
  next
    case (Cons w ws)
    then have eq: "v_signal cv u = v_up (elem_sema w) (u\<lparr>v_cond := (v_cond u)(cv := ws)\<rparr>)" by (simp add: v_signal_def)
    have "awake_step L c u (v_signal cv u)" using u(2,3) Suc.prems(3) Cons by (simp add: eq awake_step_def vstep.signal)
    then have "vsteps L c v (v_signal cv u)" using u(1) by (rule rtranclp.rtrancl_into_rtrancl [rotated])
    moreover have "\<not> v_blk (v_signal cv u) c" unfolding eq by (rule up_awake) (use u(3) in simp)
    ultimately show ?thesis using u(2) eq by simp
  qed
  then show ?case by (simp add: u_def)
qed simp

text \<open>The steps of one operation, collected.\<close>

lemma kexec_sim:
  assumes inv: "sched_inv s" "sync_inv L (view s)" and en: "enabled L op s"
  shows "simulates L s (kexec op s)"
proof -
  let ?c = "running s" and ?v = "view s"
  note aw = running_awake [OF inv(1)]
  have L: "NULL \<notin> L" using inv(2) by (simp add: sync_inv_def)
  then have L': "l \<in> L \<Longrightarrow> l \<noteq> NULL" for l by metis
  note sim = refines_simulates [OF _ one_step [OF inv(1)]]
  have refl: "simulates L s r" if "refines s r ?v" for r using refines_simulates [OF that] by simp
  show ?thesis
  proof (cases op)
    case Resume
    then show ?thesis using resume_sim [OF inv] en by (simp add: kexec_def enabled_def)
  next
    case Tick
    then show ?thesis using interrupt_sim [OF inv(1) thread_tick_ok [OF inv(1)]] by (simp add: kexec_def)
  next
    case (Device m)
    then have m: "m \<noteq> NULL" "m \<notin> lock_sema ` L" using en by (simp_all add: enabled_def)
    have "simulates L s (intr_handler (\<lambda>s. sema_up s m) s)"
      by (rule interrupt_sim [OF inv(1) sema_up_handler [OF inv(1) m(1)]]) (use m(2) aw(3) up_step up_awake in auto)
    then show ?thesis using Device by (simp add: kexec_def)
  next
    case Yield
    obtain s' where "thread_yield s = Some s'" "sched_inv s'" "queue_step s s'" "view s' = v_push ?c (KYield (intr_on s)) ?v"
      using thread_yield_inv [OF inv(1)] by (auto simp: v_push_def)
    then have "refines s (kexec op s) (v_push ?c (KYield (intr_on s)) ?v)" using Yield by (simp add: kexec_def refines_def)
    then show ?thesis by (rule sim) (simp add: vstep.push_intr)
  next
    case (SemaDown m)
    then show ?thesis using sim [OF sema_down_inv [OF inv(1)] vstep.down] en by (auto simp: kexec_def enabled_def)
  next
    case (SemaTryDown m)
    then obtain s' where "kexec op s = Some s'" "sched_inv s'" "running s' = running s" "ready_list s' = ready_list s"
        "view s' = (if s_value (sema s m) > 0 then v_take m ?v else ?v)"
      using sema_try_down_inv [OF inv(1), of m] en by (auto simp: kexec_def enabled_def)
    then have "refines s (kexec op s) (if s_value (sema s m) > 0 then v_take m ?v else ?v)"
      by (intro refinesI queue_same)
    then show ?thesis using sim refl vstep.take [of m L ?v ?c] SemaTryDown en
      by (auto simp: enabled_def split: if_splits)
  next
    case (SemaUp m)
    then show ?thesis using sim [OF sema_up_inv(2) [OF inv(1)] vstep.up] en by (simp add: kexec_def enabled_def)
  next
    case (LockAcquire l)
    then show ?thesis using sim [OF lock_acquire_inv [OF inv(1)] vstep.acquire] en L' by (auto simp: kexec_def enabled_def)
  next
    case (LockTryAcquire l)
    then show ?thesis
      using lock_try_acquire_inv [OF inv(1), of l] en L' sim refl vstep.try_acquire [of ?v ?c l L]
      by (auto simp: kexec_def enabled_def split: if_splits)
  next
    case (LockRelease l)
    then show ?thesis using sim [OF lock_release_inv [OF inv(1)]] vstep.release [of ?v ?c l L] en L'
      by (auto simp: kexec_def enabled_def)
  next
    case (CondWait cv l w)
    then show ?thesis using sim [OF cond_wait_inv [OF inv(1)]] vstep.cond_wait [of ?v ?c l L w cv] en L'
      by (auto simp: kexec_def enabled_def wait_def)
  next
    case (CondSignal cv l)
    then obtain s' zs where s': "kexec op s = Some s'" "sched_inv s'" "view s' = v_signal cv ?v" "running s' = running s"
        "ready_list s' = ready_list s @ zs"
      using cond_signal_inv [OF inv(1), of cv l] en L' by (auto simp: kexec_def enabled_def)
    then have "refines s (kexec op s) (v_signal cv ?v)" by (intro refinesI queue_stay)
    then show ?thesis using refines_simulates signal_steps [OF aw, of L 1 cv] by simp
  next
    case (CondBroadcast cv l)
    then have "refines s (kexec op s) ((v_signal cv ^^ length (cond s cv)) ?v)"
      using cond_broadcast_inv [OF inv(1), of cv l] en L' by (auto simp: kexec_def enabled_def)
    then show ?thesis using refines_simulates signal_steps [OF aw] by blast
  next
    case (Create page name pr func)
    then have pre: "thr s page = None" "func \<noteq> NULL" "PRI_MIN \<le> pr" "pr \<le> PRI_MAX" using en by (simp_all add: enabled_def)
    show ?thesis
    proof (cases "page = NULL")
      case True
      then have "kexec op s = Some s" using Create pre by (simp add: kexec_def thread_create_with_pt_def)
      then show ?thesis using inv(1) by (intro refl refinesI [of _ s] queue_same) simp_all
    next
      case False
      then have "\<exists>s'. kexec op s = Some s' \<and> sched_inv s' \<and> queue_step s s' \<and> view s' = ?v\<lparr>v_live := (v_live ?v)(page := True),
          v_par := (v_par ?v)(page := (False, ?c)), v_kont := (v_kont ?v)(page := [KStart])\<rparr>"
        using thread_create_inv [OF inv(1) pre(1) _ pre(2-4), of name ?c] Create by (auto simp: kexec_def)
      moreover have "\<not> v_live ?v page" using pre(1) by (simp add: st_def)
      ultimately show ?thesis using sim vstep.create [of ?v page L ?c] False unfolding refines_def by blast
    qed
  next
    case Exit
    have "parent_ok s"
    proof -
      obtain w p where wp: "parent_of (thr s ?c) = (w, p)" by fastforce
      have "v_blk ?v p \<and> in_wait ?v p" if w using inv(2) wp that by (auto simp: sync_inv_def child_inv_def simp flip: view_fields(3))
      moreover have "in_wait ?v p \<Longrightarrow> p \<notin> set (wait s m)" for m
        using sleep_excl [of ?v p m] inv(2) by (simp add: sync_inv_def waiters_def wait_def)
      ultimately show ?thesis using wp by (auto simp: parent_ok_def)
    qed
    then show ?thesis using sim [OF _ vstep.exit] thread_exit_inv [OF inv(1)] Exit en
      by (auto simp: kexec_def enabled_def refines_def)
  next
    case (WaitChild i)
    then obtain v where v: "refines s (kexec op s) v" "v = ?v \<or> (\<exists>c b. v_live ?v c \<and> c \<noteq> NULL \<and> v_par ?v c = (False, ?c)
        \<and> v = v_push ?c (KWait i b) (?v\<lparr>v_par := (v_par ?v)(c := (True, ?c)), v_blk := (v_blk ?v)(?c := True)\<rparr>))"
      using process_wait_inv [OF inv(1), of i] en by (auto simp: kexec_def enabled_def)
    moreover have "kont s ?c = []" "?c \<noteq> idle_thread s" using WaitChild en by (simp_all add: enabled_def)
    ultimately show ?thesis using refl sim vstep.wait_child [of ?v ?c _ L] by (metis view_fields(7,8))
  next
    case IdleRound
    then show ?thesis using sim [OF idle_round_inv [OF inv(1)] vstep.idle] en by (auto simp: kexec_def enabled_def)
  next
    case (SetLevel b)
    then show ?thesis using intr_set_level_eq [OF inv(1)] inv(1)
      by (intro refl refinesI [of _ "s\<lparr>intr_on := b\<rparr>"] queue_same) (simp_all add: kexec_def)
  next
    case (SetPriority p)
    obtain t where t: "thr s ?c = Some t" "t_status t = THREAD_RUNNING" using sched_running [OF inv(1)] by blast
    let ?s = "s\<lparr>thr := (thr s)(?c \<mapsto> t\<lparr>t_priority := p\<rparr>)\<rparr>"
    have "view ?s = ?v" using t by (intro view_eqI) (auto simp: st_def parent_of_def)
    moreover have "sched_inv ?s" using upd_thread_inv [OF inv(1) t(1)] by simp
    ultimately show ?thesis using SetPriority t sched_current [OF inv(1)]
      by (intro refl refinesI [of _ ?s] queue_same) (simp_all add: kexec_def thread_set_priority_def upd_thread_def)
  qed
qed

lemma kexec_inv:
  assumes "kernel_inv L s" "enabled L op s"
  shows "\<exists>s'. kexec op s = Some s' \<and> kernel_inv L s' \<and> queue_step s s' \<and> vsteps L (running s) (view s) (view s')"
proof -
  have i: "sched_inv s" "sync_inv L (view s)" using assms(1) by (simp_all add: kernel_inv_def)
  then obtain s' where s': "kexec op s = Some s'" "sched_inv s'" "queue_step s s'" "vsteps L (running s) (view s) (view s')"
    using kexec_sim [OF i assms(2)] unfolding simulates_def by blast
  have "kernel_inv L s'" unfolding kernel_inv_def using s'(2) vsteps_inv [OF s'(4) i(2)] by (rule conjI)
  then show ?thesis using s' by blast
qed

lemma kstep_elim:
  assumes "kernel_inv L s" "kstep L s s'"
  shows "kernel_inv L s' \<and> queue_step s s' \<and> vsteps L (running s) (view s) (view s')"
proof -
  obtain op where op: "enabled L op s" "kexec op s = Some s'" using assms(2) by cases
  show ?thesis using kexec_inv [OF assms(1) op(1)] unfolding op(2) option.inject by (elim exE conjE) simp
qed

lemma reachable_inv:
  assumes "reachable L s0 s" "kernel_inv L s0"
  shows "kernel_inv L s"
  using assms(1)
proof (induction rule: reachable.induct)
  case (step s s')
  show ?case using kstep_elim [OF step.IH step.hyps(2)] by (rule conjunct1)
qed (rule assms(2))

section \<open>Exclusion, wake-ups, order of service\<close>

lemma holder_step:
  assumes step: "awake_step L c v w" and inv: "sync_inv L v" and l: "l \<in> L"
    and h: "v_holder v l = p \<or> c = p \<and> v_holder v l = NULL" and p: "p \<noteq> NULL"
  shows "v_holder w l = p \<or> c = p \<and> v_holder w l = NULL"
proof -
  have ok: "lock_ok v l" using inv l by (simp add: sync_inv_def)
  have "vstep L c v w" using step by (simp add: awake_step_def)
  then show ?thesis
  proof cases
    case (pop_holder k fs)
    then have "transit v k c" by (auto simp: transit_def calls_def)
    then have "k = l \<Longrightarrow> c = p" using lock_held [OF ok] h p by auto
    then show ?thesis using h unfolding pop_holder(1) by auto
  qed (use h in \<open>auto simp: v_down_def\<close>)
qed

lemma holder_steps:
  assumes "vsteps L c v w" "sync_inv L v" "l \<in> L" "v_holder v l = p" "p \<noteq> NULL"
  shows "v_holder w l = p \<or> c = p \<and> v_holder w l = NULL"
  using assms(1)
proof (induction rule: rtranclp_induct)
  case (step u w)
  have "sync_inv L u" using vsteps_inv [OF step.hyps(1) assms(2)] .
  then show ?case using holder_step [OF step.hyps(2) _ assms(3) step.IH assms(5)] by blast
qed (use assms(4) in blast)

lemma ready_or_running:
  assumes inv: "sched_inv s" and p: "v_live (view s) p" "\<not> v_blk (view s) p" "p \<noteq> idle_thread s"
  shows "p = running s \<or> p \<in> set (ready_list s)"
proof -
  obtain x where x: "st s p = Some x" "x \<noteq> THREAD_DYING" "x \<noteq> THREAD_BLOCKED" using p by auto
  then have "x = THREAD_RUNNING \<or> x = THREAD_READY" by (cases x) auto
  then show ?thesis
  proof
    assume "x = THREAD_RUNNING"
    then show ?thesis using inv x(1) by (simp add: sched_inv_def)
  next
    assume "x = THREAD_READY"
    then show ?thesis using sched_lists [OF inv] x(1) p(3) by (auto simp: lists_ok_def ready_ok_def)
  qed
qed

lemma retester_exists:
  assumes inv: "kernel_inv L s" and w: "wait s m \<noteq> []" "0 < s_value (sema s m)"
  shows "\<exists>p. (p = running s \<or> p \<in> set (ready_list s)) \<and> in_down (view s) m p"
proof -
  let ?v = "view s"
  have i: "sched_inv s" "sync_inv L ?v" using inv by (simp_all add: kernel_inv_def)
  then have st: "stacks_inv L ?v" and sl: "sleep_inv ?v" and wk: "wakeup_inv ?v" by (simp_all add: sync_inv_def)
  have "val ?v m \<le> card (retesting ?v m)" using wk w(1) by (simp add: wakeup_inv_def waiters_def wait_def)
  then have "retesting ?v m \<noteq> {}" using w(2) by (auto simp: val_def)
  then obtain p where p: "in_down ?v m p" "p \<notin> set (waiters ?v m)" by (auto simp: retesting_def)
  obtain b fs where k: "calls ?v p = KDown m b # fs" using p(1) by (auto simp: in_down_def)
  have "call_ok L (p = idle_thread s) (calls ?v p)" using st by (simp add: stacks_inv_def)
  then have ni: "p \<noteq> idle_thread s" unfolding k call_ok_simps by blast
  have "kont s p \<noteq> []" using k by (metis calls_nil list.distinct(1) view_fields(7))
  then have lv: "v_live ?v p" using st by (simp add: stacks_inv_def)
  have "\<not> v_blk ?v p"
  proof
    assume "v_blk ?v p"
    then have "(\<exists>m'. p \<in> set (waiters ?v m')) \<or> in_wait ?v p" using sleep_blkD [OF sl, of p] by blast
    moreover have "\<not> in_wait ?v p" using k by (simp add: in_wait_def)
    ultimately obtain m' where "p \<in> set (waiters ?v m')" by blast
    moreover from this have "in_down ?v m' p" using sleep_inD [OF sl] by blast
    ultimately show False using p k by (auto simp: in_down_def)
  qed
  then show ?thesis using ready_or_running [OF i(1) lv _ ni] p(1) by blast
qed

section \<open>Start of the system\<close>

text \<open>
  The machine when \<^verbatim>\<open>thread_init\<close> is called, and the run from there until the initial thread
  returns from \<^verbatim>\<open>thread_start\<close>: it sleeps, the idle thread starts, announces itself and sleeps, and
  the initial thread leaves the loop of \<^verbatim>\<open>sema_down\<close>.
\<close>

definition machine :: "ptr \<Rightarrow> ptr \<Rightarrow> kernel" where
  "machine main pd = \<lparr>thr = \<lambda>_. None, ready_list = [], all_list = [], running = main, idle_thread = NULL,
     initial_thread = NULL, next_tid = 1, idle_ticks = 0, kernel_ticks = 0, user_ticks = 0, thread_ticks = 0,
     intr_on = False, in_external_intr = False, yield_on_return = False, cr3 = pd, init_page_dir = pd,
     tss_esp0 = main + PGSIZE, sema = \<lambda>_. \<lparr>s_value = 0, s_waiters = []\<rparr>, holder = \<lambda>_. NULL,
     cond = \<lambda>_. [], kont = \<lambda>_. [], closed_files = [], freed_pagedirs = []\<rparr>"


definition thread0 :: "ptr \<Rightarrow> int \<Rightarrow> u8 list \<Rightarrow> int \<Rightarrow> nat \<Rightarrow> thread_status \<Rightarrow> thread" where
  "thread0 p tid name pr stack status = \<lparr>t_tid = tid, t_status = status, t_name = name, t_stack = stack,
     t_priority = pr, t_pagedir = NULL, t_magic = THREAD_MAGIC, t_fd_list = [], t_sub_threads = [], t_pt = NULL,
     t_is_waited_by_parent = False, t_executable_f = NULL\<rparr>"

definition started :: "ptr \<Rightarrow> ptr \<Rightarrow> ptr \<Rightarrow> ptr \<Rightarrow> ptr \<Rightarrow> kernel" where
  "started main pd tid_lock page idle_started = (machine main pd)\<lparr>
     thr := (\<lambda>_. None)(main \<mapsto> thread0 main 1 [109, 97, 105, 110] 31 (main + 4096) THREAD_RUNNING,
       page \<mapsto> thread0 page 2 [105, 100, 108, 101] 0 (4052 + page) THREAD_BLOCKED),
     all_list := [main, page], idle_thread := page, initial_thread := main, next_tid := 3, intr_on := True,
     sema := (\<lambda>_. \<lparr>s_value = 0, s_waiters = []\<rparr>)(lock_sema tid_lock := \<lparr>s_value = 1, s_waiters = []\<rparr>,
       idle_started := \<lparr>s_value = 0, s_waiters = []\<rparr>),
     kont := (\<lambda>_. [])(page := [KIdle])\<rparr>"


lemma started_sched:
  assumes "main \<noteq> NULL" "page \<noteq> NULL" "main \<noteq> page"
  shows "sched_inv (started main pd tid_lock page idle_started)"
proof -
  let ?s = "started main pd tid_lock page idle_started"
  have st: "st ?s = (\<lambda>_. None)(main \<mapsto> THREAD_RUNNING, page \<mapsto> THREAD_BLOCKED)"
    using assms(3) by (auto simp: st_def started_def thread0_def fun_eq_iff)
  have wt: "wait ?s = (\<lambda>_. [])" by (auto simp: wait_def started_def)
  have fields: "ready_list ?s = []" "all_list ?s = [main, page]" "idle_thread ?s = page" "running ?s = main" "initial_thread ?s = main"
      "\<not> in_external_intr ?s"
    by (simp_all add: started_def machine_def)
  have "lists_ok (st ?s) (ready_list ?s) (wait ?s) (all_list ?s) (idle_thread ?s)"
    unfolding st wt fields using assms by (auto simp: lists_ok_def ready_ok_def wait_ok_def all_ok_def)
  moreover have "wf_threads ?s" using assms by (auto simp: wf_threads_def started_def thread0_def split: if_splits)
  moreover have "cpu_ok ?s" using assms by (auto simp: cpu_ok_def started_def machine_def thread0_def)
  moreover have "st ?s (running ?s) = Some THREAD_RUNNING" unfolding st fields using assms by simp
  moreover have "\<forall>p. st ?s p = Some THREAD_RUNNING \<longrightarrow> p = running ?s" "\<forall>p. st ?s p = Some THREAD_DYING \<longrightarrow> p = initial_thread ?s"
    unfolding st fields using assms by auto
  ultimately show ?thesis unfolding sched_inv_def core_def using fields(6) by blast
qed

lemma started_sync:
  assumes "main \<noteq> NULL" "page \<noteq> NULL" "main \<noteq> page" "tid_lock \<noteq> NULL" "idle_started \<noteq> lock_sema tid_lock"
  shows "sync_inv {tid_lock} (view (started main pd tid_lock page idle_started))"
proof -
  let ?v = "view (started main pd tid_lock page idle_started)"
  have c: "calls ?v p = (if p = page then [KIdle] else [])" "v_kont ?v p = (if p = page then [KIdle] else [])" for p
    by (simp_all add: calls_def started_def)
  have idle: "v_idle ?v = page" by (simp add: started_def)
  have live: "v_live ?v p \<longleftrightarrow> p = main \<or> p = page" for p by (auto simp: st_def started_def thread0_def)
  have blk: "\<not> v_blk ?v p" for p by (auto simp: st_def started_def thread0_def)
  have par: "v_par ?v p = (False, NULL)" for p by (auto simp: started_def thread0_def parent_of_def)
  have wt: "waiters ?v m = []" for m by (simp add: waiters_def started_def)
  have other: "v_cond ?v cv = []" "v_holder ?v l = NULL" "val ?v (lock_sema tid_lock) = 1" for cv l
    using assms(5) by (simp_all add: started_def machine_def val_def)
  have "stacks_inv {tid_lock} ?v"
    unfolding stacks_inv_def c idle live other by (auto intro: call_ok.intros)
  moreover have "v_blk ?v = (\<lambda>_. False)" using blk by blast
  then have "sleep_inv ?v" unfolding sleep_inv_def wt by simp
  moreover have "lock_ok ?v tid_lock" unfolding lock_ok_def transit_def c other by simp
  moreover have "finite {p. v_live ?v p}" unfolding live by simp
  then have "wakeup_inv ?v" unfolding wakeup_inv_def wt by blast
  moreover have "child_inv ?v" unfolding child_inv_def par live using assms by auto
  ultimately show ?thesis using assms(4) by (simp add: sync_inv_def)
qed

lemma started_inv:
  assumes "main \<noteq> NULL" "page \<noteq> NULL" "main \<noteq> page" "tid_lock \<noteq> NULL" "idle_started \<noteq> lock_sema tid_lock"
  shows "kernel_inv {tid_lock} (started main pd tid_lock page idle_started)"
  unfolding kernel_inv_def using started_sched [OF assms(1-3)] started_sync [OF assms] by (rule conjI)

text \<open>Runs of the machine, for concrete states.\<close>

fun run_ops :: "ptr set \<Rightarrow> kop list \<Rightarrow> kernel \<Rightarrow> kernel option" where
  "run_ops L [] s = Some s"
| "run_ops L (op # ops) s = (if enabled L op s then kexec op s \<bind> run_ops L ops else None)"

lemma run_ops_reachable: "run_ops L ops s = Some s' \<Longrightarrow> reachable L s0 s \<Longrightarrow> reachable L s0 s'"
  by (induction L ops s arbitrary: s' rule: run_ops.induct)
    (auto split: if_splits bind_splits, metis reachable.step kstep.intros)

lemmas kernel_eval = started_def machine_def thread0_def thread_create_with_pt_def init_thread_def allocate_tid_def
  alloc_frame_def upd_thread_def is_thread_def intr_set_level_def intr_enable_def intr_disable_def intr_get_level_def
  intr_context_def thread_unblock_def thread_current_def running_thread_def intr_handler_def thread_tick_def
  intr_yield_on_return_def thread_yield_def thread_block_def schedule_def next_thread_to_run_def thread_schedule_tail_def
  process_activate_def current_struct_def tss_update_def pagedir_activate_def resume_def kernel_thread_start_def
  TIME_SLICE_def PRI_MIN_def PRI_MAX_def Let_def

lemmas synch_eval = enabled_def kexec_def sema_down_def sema_down_loop_def sema_up_def set_sema_def push_frame_def
  lock_sema_def add32_def wait_def

abbreviation (input) sys :: kernel where
  "sys \<equiv> started 4096 8 12 8192 20"

lemma sys_inv: "kernel_inv {12} sys"
  by (rule started_inv) (simp_all add: lock_sema_def)

section \<open>Properties\<close>



text \<open>
  C2. Locks exclude. In every reachable state, while a thread holds a lock the lock's semaphore is
  zero, no other thread is between taking the semaphore and recording itself as the holder, and a
  step changes the holder only if it is a step of the holder itself, which gives the lock up.
\<close>

theorem lock_exclusion:
  assumes "kernel_inv L s0" "reachable L s0 s" "kstep L s s'" "l \<in> L" "holder s l = p" "p \<noteq> NULL"
  shows "s_value (sema s (lock_sema l)) = 0 \<and> (\<forall>q. \<not> transit (view s) l q)
    \<and> (holder s' l = p \<or> running s = p \<and> holder s' l = NULL)"
proof -
  have inv: "kernel_inv L s" using reachable_inv [OF assms(2,1)] .
  then have sync: "sync_inv L (view s)" by (simp add: kernel_inv_def)
  then have "lock_ok (view s) l" using assms(4) by (simp add: sync_inv_def)
  then have held: "val (view s) (lock_sema l) = 0 \<and> (\<forall>q. \<not> transit (view s) l q)"
    using lock_held [of "view s" l] assms(5,6) by simp
  have "vsteps L (running s) (view s) (view s')" using kstep_elim [OF inv assms(3)] by blast
  from holder_steps [OF this sync assms(4) _ assms(6)] show ?thesis using held assms(5) by (simp add: val_def)
qed

text \<open>The initial thread takes the lock at 12, and the next step is its \<^verbatim>\<open>sema_up\<close>.\<close>

definition holding :: kernel where
  "holding = (started 4096 8 12 8192 20)\<lparr>holder := (\<lambda>_. NULL)(12 := 4096),
     sema := (\<lambda>_. \<lparr>s_value = 0, s_waiters = []\<rparr>)\<rparr>"

lemma holding_reachable: "reachable {12} (started 4096 8 12 8192 20) holding"
proof -
  let ?s = "started 4096 8 12 8192 20"
  let ?t = "?s\<lparr>sema := (\<lambda>_. \<lparr>s_value = 0, s_waiters = []\<rparr>), kont := (kont ?s)(4096 := [KHolder 12])\<rparr>"
  have cur: "thread_current ?s = Some 4096"
    by (simp add: thread_current_def is_thread_def running_thread_def started_def machine_def thread0_def)
  have "lock_acquire ?s 12 = Some ?t"
    using cur by (simp add: lock_acquire_def lock_held_by_current_thread_def sema_down_def sema_down_loop_def intr_context_def
      intr_disable_def intr_set_level_def intr_enable_def intr_get_level_def push_frame_def set_sema_def started_def machine_def
      lock_sema_def fun_upd_idem)
  then have 1: "kstep {12} ?s ?t"
    by (intro kstep.intros [of _ "LockAcquire 12"]) (simp_all add: enabled_def kexec_def started_def machine_def)
  have "resume ?t = Some holding"
    by (simp add: resume_def holding_def started_def machine_def thread_current_def is_thread_def running_thread_def
      thread0_def fun_upd_idem)
  then have 2: "kstep {12} ?t holding"
    by (intro kstep.intros [of _ Resume]) (simp_all add: enabled_def kexec_def started_def machine_def)
  show ?thesis by (rule reachable.step [OF reachable.step [OF reachable.start 1] 2])
qed

theorem lock_exclusion_witness:
  "s_value (sema holding (lock_sema 12)) = 0 \<and> (\<forall>q. \<not> transit (view holding) 12 q)
    \<and> (holder (the (kexec Yield holding)) 12 = 4096 \<or> running holding = 4096 \<and> holder (the (kexec Yield holding)) 12 = NULL)"
proof -
  have inv: "kernel_inv {12} (started 4096 8 12 8192 20)" by (rule started_inv) (simp_all add: lock_sema_def)
  have en: "enabled {12} Yield holding" by (simp add: enabled_def holding_def started_def machine_def)
  then obtain s' where s': "kexec Yield holding = Some s'"
    using kexec_inv [OF reachable_inv [OF holding_reachable inv]] by blast
  have "kstep {12} holding (the (kexec Yield holding))" unfolding s' option.sel using en s' by (rule kstep.intros)
  from lock_exclusion [OF inv holding_reachable this, of 12 4096] show ?thesis by (simp add: holding_def)
qed

text \<open>
  C3. No wake-up is lost. In every reachable state, if threads wait for a semaphore whose value is
  positive, then some thread that is running or on the run queue is in the loop of \<^verbatim>\<open>sema_down\<close>
  for that semaphore and will test it again: the value is never left unclaimed while threads wait.
\<close>

theorem no_lost_wakeup:
  assumes "kernel_inv L s0" "reachable L s0 s" "wait s m \<noteq> []" "0 < s_value (sema s m)"
  shows "\<exists>p. (p = running s \<or> p \<in> set (ready_list s)) \<and> in_down (view s) m p"
  using retester_exists [OF reachable_inv [OF assms(2,1)] assms(3,4)] .

text \<open>Two threads wait; a device interrupt raises the semaphore once.\<close>

theorem no_lost_wakeup_witness:
  "\<exists>s. run_ops {12} [Create 12288 [99] 31 1, SemaDown 24, Resume, SemaDown 24, Resume, Device 24] sys = Some s
    \<and> wait s 24 = [12288] \<and> s_value (sema s 24) = 1
    \<and> (\<exists>p. (p = running s \<or> p \<in> set (ready_list s)) \<and> in_down (view s) 24 p)"
proof -
  have "map_option (\<lambda>s. (wait s 24, s_value (sema s 24)))
      (run_ops {12} [Create 12288 [99] 31 1, SemaDown 24, Resume, SemaDown 24, Resume, Device 24] sys) = Some ([12288], 1)"
    by (simp add: kernel_eval synch_eval)
  then obtain s where s: "run_ops {12} [Create 12288 [99] 31 1, SemaDown 24, Resume, SemaDown 24, Resume, Device 24] sys = Some s"
      "wait s 24 = [12288]" "s_value (sema s 24) = 1"
    by (elim map_option_eq_Some [THEN iffD1, elim_format]) auto
  with no_lost_wakeup [OF sys_inv run_ops_reachable [OF s(1) reachable.start], of 24] show ?thesis by auto
qed

text \<open>
  C4. The run queue is served in order. If a thread is on the run queue, one step of the kernel
  leaves it there with the same threads before it, or runs the first of the threads before it, or
  runs the thread itself when it is first; new arrivals queue up behind it. So no thread is
  overtaken, and a thread with \<open>n\<close> threads before it runs at the \<open>n+1\<close>st context switch.
\<close>

theorem run_queue_fifo:
  assumes "kernel_inv L s0" "reachable L s0 s" "kstep L s s'" "ready_list s = xs @ p # ys"
  shows "(\<exists>zs. running s' = running s \<and> ready_list s' = xs @ p # ys @ zs)
    \<or> (\<exists>x xs' zs. xs = x # xs' \<and> running s' = x \<and> ready_list s' = xs' @ p # ys @ zs)
    \<or> (xs = [] \<and> running s' = p)"
proof -
  have "queue_step s s'" using kstep_elim [OF reachable_inv [OF assms(2,1)] assms(3)] by blast
  then obtain zs where "(running s' = running s \<and> ready_list s' = (xs @ p # ys) @ zs)
     \<or> (xs @ p # ys) @ zs = running s' # ready_list s'"
    unfolding queue_step_def assms(4) by auto
  then show ?thesis
  proof (elim disjE conjE)
    assume "(xs @ p # ys) @ zs = running s' # ready_list s'"
    then show ?thesis by (cases xs) (simp_all, metis)
  qed simp
qed

theorem run_queue_fifo_witness:
  "\<exists>s s'. run_ops {12} [Create 12288 [99] 31 1] sys = Some s \<and> kexec Yield s = Some s' \<and> ready_list s = [] @ 12288 # []
    \<and> ((\<exists>zs. running s' = running s \<and> ready_list s' = [] @ 12288 # [] @ zs)
      \<or> (\<exists>x xs' zs. [] = x # xs' \<and> running s' = x \<and> ready_list s' = xs' @ 12288 # [] @ zs)
      \<or> ([] = [] \<and> running s' = 12288))"
proof -
  have "map_option (\<lambda>s. (ready_list s, enabled {12} Yield s)) (run_ops {12} [Create 12288 [99] 31 1] sys) = Some ([12288], True)"
    by (simp add: kernel_eval synch_eval)
  then obtain s where s: "run_ops {12} [Create 12288 [99] 31 1] sys = Some s" "ready_list s = [] @ 12288 # []" "enabled {12} Yield s"
    by (elim map_option_eq_Some [THEN iffD1, elim_format]) auto
  have r: "reachable {12} sys s" using run_ops_reachable [OF s(1) reachable.start] .
  obtain s' where s': "kexec Yield s = Some s'" using kexec_inv [OF reachable_inv [OF r sys_inv] s(3)] by blast
  from run_queue_fifo [OF sys_inv r kstep.intros [OF s(3) s'] s(2)] show ?thesis using s(1,2) s' by blast
qed






end
