(* ===== verification/Block.thy ===== *)
theory Block
  imports Interfaces
begin

text \<open>
  Block devices (\<^verbatim>\<open>devices/block.c\<close>) and partitions (\<^verbatim>\<open>devices/partition.c\<close>). A device descriptor names
  its driver: an ATA disk, whose sectors are the array that the hardware keeps, or a range of the
  sectors of another device. The theory shows that reading and writing through the layers acts
  on the sectors of the disk at the right offset (the contract \<open>sector_store\<close>), which partitions a
  partition table yields, and that a table with an extended partition can make the scan recurse for ever.
\<close>

section \<open>Device descriptors\<close>

definition BLOCK_SECTOR_SIZE :: nat where
  "BLOCK_SECTOR_SIZE = 512"

datatype block_type = BLOCK_KERNEL | BLOCK_FILESYS | BLOCK_SCRATCH | BLOCK_SWAP | BLOCK_RAW | BLOCK_FOREIGN

text \<open>The value of the enumeration constant.\<close>

fun type_nr :: "block_type \<Rightarrow> nat" where
  "type_nr BLOCK_KERNEL = 0"
| "type_nr BLOCK_FILESYS = 1"
| "type_nr BLOCK_SCRATCH = 2"
| "type_nr BLOCK_SWAP = 3"
| "type_nr BLOCK_RAW = 4"
| "type_nr BLOCK_FOREIGN = 5"

definition BLOCK_ROLE_CNT :: nat where
  "BLOCK_ROLE_CNT = 4"

definition BLOCK_CNT :: nat where
  "BLOCK_CNT = 6"

text \<open>
  The driver operations and their \<^verbatim>\<open>aux\<close> pointer: disk \<open>d\<close> of the ATA driver, or a partition of the
  device at an address, starting at a sector.
\<close>

datatype driver = ide_operations nat | partition_operations ptr nat

record block =
  b_name :: "u8 list"
  b_type :: block_type
  b_size :: nat
  b_ops :: driver
  read_cnt :: u64
  write_cnt :: u64

text \<open>The descriptors, the two tables of the block layer, and the sectors of the disks.\<close>

record blocks =
  blk :: "ptr \<Rightarrow> block option"
  all_blocks :: "ptr list"
  block_by_role :: "ptr list"
  disk :: "nat \<Rightarrow> nat \<Rightarrow> u8 list"

definition block_type_name :: "block_type \<Rightarrow> string option" where
  "block_type_name type = do {
     ASSERT (type_nr type < BLOCK_CNT);
     Some ([''kernel'', ''filesys'', ''scratch'', ''swap'', ''raw'', ''foreign''] ! type_nr type)
   }"

definition block_get_role :: "blocks \<Rightarrow> block_type \<Rightarrow> ptr option" where
  "block_get_role w role = do {
     ASSERT (type_nr role < BLOCK_ROLE_CNT);
     Some (block_by_role w ! type_nr role)
   }"

definition block_set_role :: "blocks \<Rightarrow> block_type \<Rightarrow> ptr \<Rightarrow> blocks option" where
  "block_set_role w role b = do {
     ASSERT (type_nr role < BLOCK_ROLE_CNT);
     Some (w\<lparr>block_by_role := (block_by_role w)[type_nr role := b]\<rparr>)
   }"

text \<open>A position in the list of devices: the address of an element, or its end.\<close>

definition list_elem_to_block :: "ptr option \<Rightarrow> ptr" where
  "list_elem_to_block e = (case e of None \<Rightarrow> NULL | Some b \<Rightarrow> b)"

fun succ_in :: "ptr list \<Rightarrow> ptr \<Rightarrow> ptr option" where
  "succ_in [] b = None"
| "succ_in [x] b = None"
| "succ_in (x # y # xs) b = (if x = b then Some y else succ_in (y # xs) b)"

definition block_first :: "blocks \<Rightarrow> ptr" where
  "block_first w = list_elem_to_block (case all_blocks w of [] \<Rightarrow> None | b # _ \<Rightarrow> Some b)"

definition block_next :: "blocks \<Rightarrow> ptr \<Rightarrow> ptr" where
  "block_next w b = list_elem_to_block (succ_in (all_blocks w) b)"

fun find_name :: "blocks \<Rightarrow> ptr list \<Rightarrow> u8 list \<Rightarrow> ptr option" where
  "find_name w [] name = Some NULL"
| "find_name w (b # bs) name = do {
     bl \<leftarrow> blk w b;
     if b_name bl = name then Some b else find_name w bs name
   }"

definition block_get_by_name :: "blocks \<Rightarrow> u8 list \<Rightarrow> ptr option" where
  "block_get_by_name w name = find_name w (all_blocks w) name"

definition block_size :: "blocks \<Rightarrow> ptr \<Rightarrow> nat option" where
  "block_size w b = map_option b_size (blk w b)"

definition block_name :: "blocks \<Rightarrow> ptr \<Rightarrow> u8 list option" where
  "block_name w b = map_option b_name (blk w b)"

definition block_type_get :: "blocks \<Rightarrow> ptr \<Rightarrow> block_type option" where
  "block_type_get w b = map_option b_type (blk w b)"

section \<open>Sector input and output\<close>

definition check_sector :: "block \<Rightarrow> nat \<Rightarrow> unit option" where
  "check_sector b sector = (if sector \<ge> b_size b then None else Some ())"

definition upd_block :: "blocks \<Rightarrow> ptr \<Rightarrow> (block \<Rightarrow> block) \<Rightarrow> blocks" where
  "upd_block w b f = w\<lparr>blk := (blk w)(b := map_option f (blk w b))\<rparr>"

text \<open>
  Reading dispatches on the driver: \<^verbatim>\<open>ide_read\<close> delivers the sector of the disk, \<^verbatim>\<open>partition_read\<close> reads
  the underlying device.
\<close>

partial_function (option) block_read :: "blocks \<Rightarrow> ptr \<Rightarrow> nat \<Rightarrow> (blocks \<times> u8 list) option" where
  "block_read w b sector = do {
     bl \<leftarrow> blk w b;
     check_sector bl sector;
     (w, buffer) \<leftarrow> (case b_ops bl of
         ide_operations d \<Rightarrow> Some (w, disk w d sector)
       | partition_operations base start \<Rightarrow> block_read w base (add32 start sector));
     Some (upd_block w b (\<lambda>bl. bl\<lparr>read_cnt := read_cnt bl + 1\<rparr>), buffer)
   }"

partial_function (option) block_write :: "blocks \<Rightarrow> ptr \<Rightarrow> nat \<Rightarrow> u8 list \<Rightarrow> blocks option" where
  "block_write w b sector buffer = do {
     bl \<leftarrow> blk w b;
     check_sector bl sector;
     ASSERT (b_type bl \<noteq> BLOCK_FOREIGN);
     w \<leftarrow> (case b_ops bl of
         ide_operations d \<Rightarrow> Some (w\<lparr>disk := (disk w)(d := (disk w d)(sector := buffer))\<rparr>)
       | partition_operations base start \<Rightarrow> block_write w base (add32 start sector) buffer);
     Some (upd_block w b (\<lambda>bl. bl\<lparr>write_cnt := write_cnt bl + 1\<rparr>))
   }"

definition partition_read :: "blocks \<Rightarrow> ptr \<times> nat \<Rightarrow> nat \<Rightarrow> (blocks \<times> u8 list) option" where
  "partition_read w p sector = block_read w (fst p) (add32 (snd p) sector)"

definition partition_write :: "blocks \<Rightarrow> ptr \<times> nat \<Rightarrow> nat \<Rightarrow> u8 list \<Rightarrow> blocks option" where
  "partition_write w p sector buffer = block_write w (fst p) (add32 (snd p) sector) buffer"

section \<open>Registration\<close>

text \<open>\<open>b\<close> is what \<^verbatim>\<open>malloc\<close> returned for the descriptor.\<close>

definition block_register ::
    "blocks \<Rightarrow> ptr \<Rightarrow> u8 list \<Rightarrow> block_type \<Rightarrow> nat \<Rightarrow> driver \<Rightarrow> (blocks \<times> ptr) option" where
  "block_register w b name type sz ops =
     (if b = NULL then None
      else Some (w\<lparr>all_blocks := all_blocks w @ [b],
        blk := (blk w)(b \<mapsto> \<lparr>b_name = take 15 name, b_type = type, b_size = sz, b_ops = ops,
          read_cnt = 0, write_cnt = 0\<rparr>)\<rparr>, b))"

section \<open>Partition tables\<close>

text \<open>
  \<open>ms\<close> are the results of the successive calls of \<^verbatim>\<open>malloc\<close>; a table sector is 512 bytes, with four
  entries of 16 bytes from byte 446 and the signature in the last two bytes.
\<close>

definition malloc_next :: "ptr list \<Rightarrow> ptr \<times> ptr list" where
  "malloc_next ms = (case ms of [] \<Rightarrow> (NULL, []) | p # ms \<Rightarrow> (p, ms))"

record partition_table_entry =
  e_type :: u8
  e_offset :: nat
  e_size :: nat

definition table_entry :: "u8 list \<Rightarrow> nat \<Rightarrow> partition_table_entry" where
  "table_entry pt i = (let e = drop (446 + 16 * i) pt in
     \<lparr>e_type = e ! 4, e_offset = unat (of_le32 (drop 8 e)), e_size = unat (of_le32 (drop 12 e))\<rparr>)"

definition table_signature :: "u8 list \<Rightarrow> nat" where
  "table_signature pt = unat (pt ! 510) + 256 * unat (pt ! 511)"

definition partition_block_type :: "u8 \<Rightarrow> block_type" where
  "partition_block_type t = (if t = 0x20 then BLOCK_KERNEL else if t = 0x21 then BLOCK_FILESYS
     else if t = 0x22 then BLOCK_SCRATCH else if t = 0x23 then BLOCK_SWAP else BLOCK_FOREIGN)"

definition found_partition ::
    "blocks \<Rightarrow> ptr list \<Rightarrow> ptr \<Rightarrow> u8 \<Rightarrow> nat \<Rightarrow> nat \<Rightarrow> nat \<Rightarrow> (blocks \<times> ptr list) option" where
  "found_partition w ms b part_type start sz part_nr = do {
     bs \<leftarrow> block_size w b;
     if start \<ge> bs then Some (w, ms)
     else if add32 start sz < start \<or> add32 start sz > bs then Some (w, ms)
     else do {
       let (p, ms) = malloc_next ms;
       ASSERT (p \<noteq> NULL);
       name \<leftarrow> block_name w b;
       let (d, ms) = malloc_next ms;
       (w, _) \<leftarrow> block_register w d (take 15 (name @ dec_digits part_nr)) (partition_block_type part_type) sz
         (partition_operations b start);
       Some (w, ms)
     }
   }"

text \<open>
  The beginning of \<^verbatim>\<open>read_partition_table\<close>: the table, unless the sector is past the end of the device or
  the signature is wrong. The table is read from sector 0, whatever sector is asked for.
\<close>

definition load_table :: "blocks \<Rightarrow> ptr list \<Rightarrow> ptr \<Rightarrow> nat \<Rightarrow> (blocks \<times> ptr list \<times> u8 list option) option" where
  "load_table w ms b sector = do {
     bs \<leftarrow> block_size w b;
     if sector \<ge> bs then Some (w, ms, None)
     else do {
       let (p, ms) = malloc_next ms;
       ASSERT (p \<noteq> NULL);
       (w, pt) \<leftarrow> block_read w b 0;
       Some (w, ms, if table_signature pt \<noteq> 0xaa55 then None else Some pt)
     }
   }"

definition is_extended :: "u8 \<Rightarrow> bool" where
  "is_extended t \<longleftrightarrow> t = 0x05 \<or> t = 0x0f \<or> t = 0x85 \<or> t = 0xc5"

text \<open>The loop over the entries from number \<open>i\<close>, with the recursive call for extended partitions.\<close>

partial_function (option) parse_entries ::
    "blocks \<Rightarrow> ptr list \<Rightarrow> ptr \<Rightarrow> nat \<Rightarrow> nat \<Rightarrow> u8 list \<Rightarrow> nat \<Rightarrow> nat \<Rightarrow> (blocks \<times> ptr list \<times> nat) option" where
  "parse_entries w ms b sector primary pt i part_nr =
     (if i < 4 then do {
        let e = table_entry pt i;
        (w, ms, part_nr) \<leftarrow>
          (if e_size e = 0 \<or> e_type e = 0 then Some (w, ms, part_nr)
           else if is_extended (e_type e) then do {
             let (sector', primary') = (if sector = 0 then (e_offset e, e_offset e)
               else (add32 (e_offset e) primary, primary));
             (w, ms, t) \<leftarrow> load_table w ms b sector';
             case t of None \<Rightarrow> Some (w, ms, part_nr)
             | Some pt' \<Rightarrow> parse_entries w ms b sector' primary' pt' 0 part_nr
           }
           else do {
             (w, ms) \<leftarrow> found_partition w ms b (e_type e) (add32 (e_offset e) sector) (e_size e) (Suc part_nr);
             Some (w, ms, Suc part_nr)
           });
        parse_entries w ms b sector primary pt (Suc i) part_nr
      } else Some (w, ms, part_nr))"

definition read_partition_table ::
    "blocks \<Rightarrow> ptr list \<Rightarrow> ptr \<Rightarrow> nat \<Rightarrow> nat \<Rightarrow> nat \<Rightarrow> (blocks \<times> ptr list \<times> nat) option" where
  "read_partition_table w ms b sector primary part_nr = do {
     (w, ms, t) \<leftarrow> load_table w ms b sector;
     case t of None \<Rightarrow> Some (w, ms, part_nr)
     | Some pt \<Rightarrow> parse_entries w ms b sector primary pt 0 part_nr
   }"

definition partition_scan :: "blocks \<Rightarrow> ptr list \<Rightarrow> ptr \<Rightarrow> (blocks \<times> ptr list \<times> nat) option" where
  "partition_scan w ms b = read_partition_table w ms b 0 0 0"

section \<open>Devices as sector stores\<close>

text \<open>The disk behind a device and the first sector of the device on it.\<close>

definition extent :: "blocks \<Rightarrow> ptr \<Rightarrow> (nat \<times> nat) option" where
  "extent w b = do {
     bl \<leftarrow> blk w b;
     case b_ops bl of
       ide_operations d \<Rightarrow> Some (d, 0)
     | partition_operations base start \<Rightarrow> do {
         bb \<leftarrow> blk w base;
         case b_ops bb of ide_operations d \<Rightarrow> Some (d, start) | partition_operations _ _ \<Rightarrow> None
       }
   }"

definition dev_sector :: "blocks \<Rightarrow> ptr \<Rightarrow> nat \<Rightarrow> u8 list" where
  "dev_sector w b i = (case extent w b of None \<Rightarrow> [] | Some (d, start) \<Rightarrow> disk w d (start + i))"

definition dev_size :: "blocks \<Rightarrow> ptr \<Rightarrow> nat" where
  "dev_size w b = (case blk w b of None \<Rightarrow> 0 | Some bl \<Rightarrow> b_size bl)"

definition store_ok :: "blocks \<Rightarrow> ptr \<Rightarrow> bool" where
  "store_ok w b \<longleftrightarrow> (\<forall>d i. length (disk w d i) = 512) \<and> (\<exists>bl. blk w b = Some bl \<and> b_type bl \<noteq> BLOCK_FOREIGN
     \<and> b_size bl < two32 \<and> (case b_ops bl of
       ide_operations d \<Rightarrow> True
     | partition_operations base start \<Rightarrow> \<exists>bb d. blk w base = Some bb \<and> b_type bb \<noteq> BLOCK_FOREIGN
         \<and> b_ops bb = ide_operations d \<and> start + b_size bl \<le> b_size bb \<and> b_size bb < two32))"

lemma upd_block_sel [simp]:
  "disk (upd_block w b f) = disk w" "all_blocks (upd_block w b f) = all_blocks w"
  "block_by_role (upd_block w b f) = block_by_role w"
  "blk (upd_block w b f) p = (if p = b then map_option f (blk w b) else blk w p)"
  by (simp_all add: upd_block_def)

text \<open>What counting an access leaves as it is.\<close>

definition same_devs :: "blocks \<Rightarrow> blocks \<Rightarrow> bool" where
  "same_devs w w' \<longleftrightarrow> (\<forall>p. map_option (\<lambda>bl. (b_name bl, b_type bl, b_size bl, b_ops bl)) (blk w' p)
     = map_option (\<lambda>bl. (b_name bl, b_type bl, b_size bl, b_ops bl)) (blk w p))
     \<and> all_blocks w' = all_blocks w \<and> block_by_role w' = block_by_role w"

lemma same_devs_refl [simp]: "same_devs w w"
  by (simp add: same_devs_def)

lemma same_devs_trans: "same_devs w w1 \<Longrightarrow> same_devs w1 w2 \<Longrightarrow> same_devs w w2"
  by (simp add: same_devs_def)

lemma same_devs_Some:
  assumes "same_devs w w'" "blk w p = Some bl"
  obtains bl' where "blk w' p = Some bl'" "b_name bl' = b_name bl" "b_type bl' = b_type bl" "b_size bl' = b_size bl"
    "b_ops bl' = b_ops bl"
proof -
  have "map_option (\<lambda>bl. (b_name bl, b_type bl, b_size bl, b_ops bl)) (blk w' p) = Some (b_name bl, b_type bl, b_size bl, b_ops bl)"
    using assms by (simp add: same_devs_def)
  then show thesis using that by auto
qed

lemma same_devs_None: "same_devs w w' \<Longrightarrow> blk w p = None \<Longrightarrow> blk w' p = None"
  by (auto simp: same_devs_def dest!: spec [of _ p])

lemma extent_same: "same_devs w w' \<Longrightarrow> extent w' b = extent w b"
proof (cases "blk w b")
  case None
  moreover assume "same_devs w w'"
  ultimately show ?thesis using same_devs_None by (simp add: extent_def)
next
  case (Some bl)
  assume w: "same_devs w w'"
  obtain bl' where bl': "blk w' b = Some bl'" "b_ops bl' = b_ops bl" by (rule same_devs_Some [OF w Some])
  show ?thesis
  proof (cases "b_ops bl")
    case (partition_operations base start)
    then show ?thesis
    proof (cases "blk w base")
      case None
      then show ?thesis using Some bl' partition_operations same_devs_None [OF w] by (simp add: extent_def)
    next
      case bb: (Some bb)
      obtain bb' where "blk w' base = Some bb'" "b_ops bb' = b_ops bb" by (rule same_devs_Some [OF w bb])
      then show ?thesis using Some bl' bb partition_operations by (simp add: extent_def)
    qed
  qed (use Some bl' in \<open>simp add: extent_def\<close>)
qed

lemma dev_size_same:
  assumes "same_devs w w'"
  shows "dev_size w' b = dev_size w b"
proof (cases "blk w b")
  case None
  then show ?thesis using same_devs_None [OF assms] by (simp add: dev_size_def)
next
  case (Some bl)
  obtain bl' where "blk w' b = Some bl'" "b_size bl' = b_size bl" by (rule same_devs_Some [OF assms Some])
  then show ?thesis using Some by (simp add: dev_size_def)
qed

lemma store_ok_same:
  assumes "same_devs w w'" "store_ok w b" "\<forall>d i. length (disk w' d i) = 512"
  shows "store_ok w' b"
proof -
  obtain bl where bl: "blk w b = Some bl" "b_type bl \<noteq> BLOCK_FOREIGN" "b_size bl < two32"
      "case b_ops bl of ide_operations d \<Rightarrow> True
     | partition_operations base start \<Rightarrow> \<exists>bb d. blk w base = Some bb \<and> b_type bb \<noteq> BLOCK_FOREIGN
         \<and> b_ops bb = ide_operations d \<and> start + b_size bl \<le> b_size bb \<and> b_size bb < two32"
    using assms(2) by (auto simp: store_ok_def)
  obtain bl' where bl': "blk w' b = Some bl'" "b_type bl' = b_type bl" "b_size bl' = b_size bl" "b_ops bl' = b_ops bl"
    by (rule same_devs_Some [OF assms(1) bl(1)])
  have "case b_ops bl' of ide_operations d \<Rightarrow> True
     | partition_operations base start \<Rightarrow> \<exists>bb d. blk w' base = Some bb \<and> b_type bb \<noteq> BLOCK_FOREIGN
         \<and> b_ops bb = ide_operations d \<and> start + b_size bl' \<le> b_size bb \<and> b_size bb < two32"
  proof (cases "b_ops bl")
    case (partition_operations base start)
    then obtain bb d where bb: "blk w base = Some bb" "b_type bb \<noteq> BLOCK_FOREIGN" "b_ops bb = ide_operations d"
        "start + b_size bl \<le> b_size bb" "b_size bb < two32"
      using bl(4) by auto
    obtain bb' where "blk w' base = Some bb'" "b_type bb' = b_type bb" "b_size bb' = b_size bb" "b_ops bb' = b_ops bb"
      by (rule same_devs_Some [OF assms(1) bb(1)])
    then show ?thesis using bb partition_operations bl' by simp
  qed (simp add: bl')
  then show ?thesis using assms(3) bl bl' by (simp add: store_ok_def)
qed

lemma same_devs_count:
  assumes "same_devs w w'" "\<And>bl. b_name (f bl) = b_name bl \<and> b_type (f bl) = b_type bl \<and> b_size (f bl) = b_size bl
    \<and> b_ops (f bl) = b_ops bl"
  shows "same_devs w (upd_block w' b f)"
proof -
  let ?g = "\<lambda>bl. (b_name bl, b_type bl, b_size bl, b_ops bl)"
  have "map_option ?g (map_option f x) = map_option ?g x" for x
    using assms(2) by (cases x) simp_all
  then show ?thesis using assms(1) by (simp add: same_devs_def)
qed

section \<open>Reading and writing through the layers\<close>

lemma block_read_ok:
  assumes "store_ok w b" "i < dev_size w b"
  shows "\<exists>w'. block_read w b i = Some (w', dev_sector w b i) \<and> same_devs w w' \<and> disk w' = disk w"
proof -
  let ?count = "\<lambda>bl :: block. bl\<lparr>read_cnt := read_cnt bl + 1\<rparr>"
  obtain bl where bl: "blk w b = Some bl" "i < b_size bl" "b_size bl < two32" using assms by (auto simp: store_ok_def dev_size_def)
  show ?thesis
  proof (cases "b_ops bl")
    case (ide_operations d)
    then show ?thesis using bl
      by (subst block_read.simps) (simp add: check_sector_def dev_sector_def extent_def same_devs_count)
  next
    case (partition_operations base start)
    then obtain bb d where bb: "blk w base = Some bb" "b_ops bb = ide_operations d" "start + b_size bl \<le> b_size bb" "b_size bb < two32"
      using assms(1) bl by (auto simp: store_ok_def)
    then have "block_read w base (start + i) = Some (upd_block w base ?count, disk w d (start + i))"
      using bl(2) by (subst block_read.simps) (simp add: check_sector_def)
    moreover have "add32 start i = start + i" using bb bl by simp
    ultimately have "block_read w b i = Some (upd_block (upd_block w base ?count) b ?count, disk w d (start + i))"
      using bl(1,2) partition_operations by (subst block_read.simps) (simp add: check_sector_def)
    then show ?thesis using bl bb partition_operations by (simp add: dev_sector_def extent_def same_devs_count)
  qed
qed

lemma block_write_ok:
  assumes "store_ok w b" "i < dev_size w b" "length d = 512"
  shows "\<exists>w'. block_write w b i d = Some w' \<and> same_devs w w' \<and> (\<forall>n j. length (disk w' n j) = 512)
    \<and> dev_sector w' b = (dev_sector w b)(i := d)
    \<and> (\<exists>n start. extent w b = Some (n, start) \<and> disk w' = (disk w)(n := (disk w n)(start + i := d)))"
proof -
  let ?count = "\<lambda>bl :: block. bl\<lparr>write_cnt := write_cnt bl + 1\<rparr>"
  obtain bl where bl: "blk w b = Some bl" "i < b_size bl" "b_size bl < two32" "b_type bl \<noteq> BLOCK_FOREIGN"
    using assms by (auto simp: store_ok_def dev_size_def)
  have len: "\<forall>n j. length (disk w n j) = 512" using assms(1) by (simp add: store_ok_def)
  obtain n start where e: "extent w b = Some (n, start)" "start + i < two32"
      "\<exists>w'. block_write w b i d = Some w' \<and> same_devs w w' \<and> disk w' = (disk w)(n := (disk w n)(start + i := d))"
  proof (cases "b_ops bl")
    case (ide_operations n)
    let ?w = "w\<lparr>disk := (disk w)(n := (disk w n)(i := d))\<rparr>"
    have "same_devs w ?w" by (simp add: same_devs_def)
    then have "\<exists>w'. block_write w b i d = Some w' \<and> same_devs w w' \<and> disk w' = (disk w)(n := (disk w n)(0 + i := d))"
      using bl ide_operations by (subst block_write.simps) (simp add: check_sector_def same_devs_count)
    then show ?thesis using that [of n 0] bl ide_operations by (simp add: extent_def)
  next
    case (partition_operations base start)
    then obtain bb n where bb: "blk w base = Some bb" "b_ops bb = ide_operations n" "start + b_size bl \<le> b_size bb" "b_size bb < two32"
        "b_type bb \<noteq> BLOCK_FOREIGN"
      using assms(1) bl by (auto simp: store_ok_def)
    let ?w = "w\<lparr>disk := (disk w)(n := (disk w n)(start + i := d))\<rparr>"
    have "block_write w base (start + i) d = Some (upd_block ?w base ?count)"
      using bl(2) bb by (subst block_write.simps) (simp add: check_sector_def)
    moreover have a: "add32 start i = start + i" using bb bl by simp
    ultimately have "block_write w b i d = Some (upd_block (upd_block ?w base ?count) b ?count)"
      using bl partition_operations by (subst block_write.simps) (simp add: check_sector_def)
    moreover have "same_devs w ?w" by (simp add: same_devs_def)
    ultimately have "\<exists>w'. block_write w b i d = Some w' \<and> same_devs w w' \<and> disk w' = (disk w)(n := (disk w n)(start + i := d))"
      by (simp add: same_devs_count)
    then show ?thesis using that [of n start] bl bb partition_operations by (simp add: extent_def)
  qed
  then obtain w' where w': "block_write w b i d = Some w'" "same_devs w w'" "disk w' = (disk w)(n := (disk w n)(start + i := d))"
    by blast
  have "dev_sector w' b = (dev_sector w b)(i := d)" using e(1) extent_same [OF w'(2)] by (auto simp: dev_sector_def w'(3))
  moreover have "\<forall>n j. length (disk w' n j) = 512" using len assms(3) by (simp add: w'(3))
  ultimately show ?thesis using w' e(1) by blast
qed

lemma dev_sector_same: "same_devs w w' \<Longrightarrow> disk w' = disk w \<Longrightarrow> dev_sector w' b = dev_sector w b"
  by (rule ext) (simp add: dev_sector_def extent_same split: option.split)

lemma store_extent:
  assumes "store_ok w b"
  obtains d start where "extent w b = Some (d, start)"
proof -
  obtain bl where "blk w b = Some bl" using assms by (auto simp: store_ok_def)
  then show thesis using assms that by (cases "b_ops bl") (auto simp: store_ok_def extent_def)
qed

lemma dev_sector_len: "store_ok w b \<Longrightarrow> length (dev_sector w b i) = 512"
  by (frule store_extent [of w b]) (simp_all add: store_ok_def dev_sector_def)

interpretation dev: sector_store "\<lambda>w. store_ok w b" "\<lambda>w. dev_size w b" "\<lambda>w. dev_sector w b"
  "\<lambda>w. block_read w b" "\<lambda>w. block_write w b" for b
proof (unfold_locales, goal_cases)
  case (1 s i)
  then show ?case by (rule dev_sector_len)
next
  case (2 s i)
  then obtain w' where w': "block_read s b i = Some (w', dev_sector s b i)" "same_devs s w'" "disk w' = disk s"
    using block_read_ok by blast
  moreover have "store_ok w' b" using store_ok_same [OF w'(2) 2(1)] 2(1) w'(3) by (simp add: store_ok_def)
  ultimately show ?case using dev_size_same dev_sector_same by auto
next
  case (3 s i d)
  from block_write_ok [OF this] obtain w' where w': "block_write s b i d = Some w'" "same_devs s w'"
      "\<forall>n j. length (disk w' n j) = 512" "dev_sector w' b = (dev_sector s b)(i := d)"
    by blast
  then show ?case using store_ok_same [OF w'(2) 3(1) w'(3)] dev_size_same by auto
qed

section \<open>Scanning a partition table\<close>

definition usable :: "partition_table_entry \<Rightarrow> bool" where
  "usable e \<longleftrightarrow> e_size e \<noteq> 0 \<and> e_type e \<noteq> 0"

definition fits :: "nat \<Rightarrow> partition_table_entry \<Rightarrow> bool" where
  "fits n e \<longleftrightarrow> usable e \<and> e_offset e < n \<and> e_offset e + e_size e \<le> n"

definition device_of :: "ptr \<Rightarrow> partition_table_entry \<Rightarrow> block_type \<times> nat \<times> driver" where
  "device_of b e = (partition_block_type (e_type e), e_size e, partition_operations b (e_offset e))"

definition description :: "blocks \<Rightarrow> ptr \<Rightarrow> (block_type \<times> nat \<times> driver) option" where
  "description w p = map_option (\<lambda>bl. (b_type bl, b_size bl, b_ops bl)) (blk w p)"

text \<open>Enough memory: fresh, distinct addresses for \<open>n\<close> more blocks of memory.\<close>

definition memory_for :: "blocks \<Rightarrow> ptr list \<Rightarrow> nat \<Rightarrow> bool" where
  "memory_for w ms n \<longleftrightarrow> n \<le> length ms \<and> distinct ms \<and> NULL \<notin> set ms \<and> (\<forall>p \<in> set ms. blk w p = None)"

lemma memory_for_next:
  assumes "memory_for w ms (Suc n)"
  obtains p ms' where "malloc_next ms = (p, ms')" "p \<noteq> NULL" "blk w p = None" "memory_for w ms' n" "p \<notin> set ms'" "set ms' \<subseteq> set ms"
  using assms by (cases ms) (auto simp: memory_for_def malloc_next_def)

lemma found_partition_ok:
  assumes "memory_for w ms (Suc (Suc n))" "blk w b = Some bl" "b_size bl < two32" "e_offset e < two32" "e_size e < two32" "usable e"
  shows "\<exists>w' ms' ps. found_partition w ms b (e_type e) (e_offset e) (e_size e) nr = Some (w', ms') \<and> memory_for w' ms' n
    \<and> all_blocks w' = all_blocks w @ ps \<and> map (description w') ps = (if fits (b_size bl) e then [Some (device_of b e)] else [])
    \<and> (\<forall>q. q \<notin> set ps \<longrightarrow> blk w' q = blk w q) \<and> (\<forall>q \<in> set ps. blk w q = None) \<and> disk w' = disk w"
proof (cases "fits (b_size bl) e")
  case False
  have "e_offset e \<ge> b_size bl \<or> add32 (e_offset e) (e_size e) < e_offset e \<or> add32 (e_offset e) (e_size e) > b_size bl"
  proof (rule ccontr)
    assume c: "\<not> ?thesis"
    show False
    proof (cases "e_offset e + e_size e < two32")
      case True
      then show False using c False assms(6) by (simp add: fits_def)
    next
      case wrap: False
      then have "add32 (e_offset e) (e_size e) = e_offset e + e_size e - two32"
        unfolding add32_def using assms(4,5) by (simp add: mod_if)
      then have "add32 (e_offset e) (e_size e) < e_offset e" using assms(5) wrap by linarith
      then show False using c by blast
    qed
  qed
  moreover have "memory_for w ms n" using assms(1) by (simp add: memory_for_def)
  ultimately show ?thesis using False assms(2)
    by (intro exI [of _ w] exI [of _ ms] exI [of _ "[]"]) (auto simp: found_partition_def block_size_def)
next
  case True
  then have f: "e_offset e < b_size bl" "e_offset e + e_size e \<le> b_size bl" "add32 (e_offset e) (e_size e) = e_offset e + e_size e"
    using assms(3) by (auto simp: fits_def)
  obtain p ms1 where 1: "malloc_next ms = (p, ms1)" "p \<noteq> NULL" "memory_for w ms1 (Suc n)"
    by (rule memory_for_next [OF assms(1)])
  obtain d ms2 where 2: "malloc_next ms1 = (d, ms2)" "d \<noteq> NULL" "blk w d = None" "memory_for w ms2 n" "d \<notin> set ms2"
    by (rule memory_for_next [OF 1(3)])
  let ?w = "w\<lparr>all_blocks := all_blocks w @ [d], blk := (blk w)(d \<mapsto> \<lparr>b_name = take 15 (take 15 (b_name bl @ dec_digits nr)),
      b_type = partition_block_type (e_type e), b_size = e_size e, b_ops = partition_operations b (e_offset e),
      read_cnt = 0, write_cnt = 0\<rparr>)\<rparr>"
  have "found_partition w ms b (e_type e) (e_offset e) (e_size e) nr = Some (?w, ms2)"
    using f 1 2 assms(2) by (simp add: found_partition_def block_size_def block_name_def block_register_def)
  moreover have "memory_for ?w ms2 n" using 2 by (auto simp: memory_for_def)
  ultimately show ?thesis using True 2(3)
    by (intro exI [of _ ?w] exI [of _ ms2] exI [of _ "[d]"]) (auto simp: description_def device_of_def)
qed

definition entries_from :: "u8 list \<Rightarrow> nat \<Rightarrow> partition_table_entry list" where
  "entries_from pt i = map (table_entry pt) [i..<4]"

lemma entries_from_simps [simp]:
  "entries_from pt 4 = []" "i < 4 \<Longrightarrow> entries_from pt i = table_entry pt i # entries_from pt (Suc i)"
  by (simp_all add: entries_from_def upt_conv_Cons)

lemma table_entry_bounds: "e_offset (table_entry pt i) < two32" "e_size (table_entry pt i) < two32"
  by (simp_all add: table_entry_def Let_def unat_less_two32)

lemma map_description_cong:
  "(\<And>p. p \<in> set ps \<Longrightarrow> blk w' p = blk w p) \<Longrightarrow> map (description w') ps = map (description w) ps"
  by (simp add: description_def)

lemma parse_entries_ok:
  assumes "\<forall>e \<in> set (entries_from pt i). \<not> is_extended (e_type e)" "i \<le> 4" "memory_for w ms (2 * (4 - i))"
    "blk w b = Some bl" "b_size bl < two32"
  shows "\<exists>w' ms' ps. parse_entries w ms b 0 pr pt i nr = Some (w', ms', nr + length (filter usable (entries_from pt i)))
    \<and> all_blocks w' = all_blocks w @ ps
    \<and> map (description w') ps = map (Some \<circ> device_of b) (filter (fits (b_size bl)) (entries_from pt i))
    \<and> (\<forall>q. q \<notin> set ps \<longrightarrow> blk w' q = blk w q) \<and> (\<forall>q \<in> set ps. blk w q = None) \<and> disk w' = disk w"
  using assms
proof (induction "4 - i" arbitrary: i w ms nr)
  case 0
  then have "i = 4" by simp
  then show ?case by (intro exI [of _ w] exI [of _ ms] exI [of _ "[]"]) (simp add: parse_entries.simps)
next
  case (Suc n)
  let ?e = "table_entry pt i"
  have i: "i < 4" "n = 4 - Suc i" "2 * (4 - i) = Suc (Suc (2 * (4 - Suc i)))" using Suc.hyps(2) by auto
  have ext: "\<not> is_extended (e_type ?e)" "\<forall>e \<in> set (entries_from pt (Suc i)). \<not> is_extended (e_type e)"
    using Suc.prems(1) i(1) by auto
  have step: "\<exists>w1 ms1 ps1. memory_for w1 ms1 (2 * (4 - Suc i)) \<and> all_blocks w1 = all_blocks w @ ps1
      \<and> map (description w1) ps1 = (if fits (b_size bl) ?e then [Some (device_of b ?e)] else [])
      \<and> (\<forall>q. q \<notin> set ps1 \<longrightarrow> blk w1 q = blk w q) \<and> (\<forall>q \<in> set ps1. blk w q = None) \<and> disk w1 = disk w
      \<and> parse_entries w ms b 0 pr pt i nr
        = parse_entries w1 ms1 b 0 pr pt (Suc i) (nr + (if usable ?e then 1 else 0))"
  proof (cases "usable ?e")
    case False
    then have "parse_entries w ms b 0 pr pt i nr = parse_entries w ms b 0 pr pt (Suc i) nr"
      using i(1) by (subst parse_entries.simps) (auto simp: usable_def Let_def)
    moreover have "memory_for w ms (2 * (4 - Suc i))" using Suc.prems(3) i(3) by (simp add: memory_for_def)
    ultimately show ?thesis using False
      by (intro exI [of _ w] exI [of _ ms] exI [of _ "[]"]) (simp add: fits_def)
  next
    case True
    obtain w1 ms1 ps1 where f: "found_partition w ms b (e_type ?e) (e_offset ?e) (e_size ?e) (Suc nr) = Some (w1, ms1)"
        "memory_for w1 ms1 (2 * (4 - Suc i))" "all_blocks w1 = all_blocks w @ ps1"
        "map (description w1) ps1 = (if fits (b_size bl) ?e then [Some (device_of b ?e)] else [])"
        "\<forall>q. q \<notin> set ps1 \<longrightarrow> blk w1 q = blk w q" "\<forall>q \<in> set ps1. blk w q = None" "disk w1 = disk w"
      using found_partition_ok [OF _ Suc.prems(4,5) table_entry_bounds True, of ms "2 * (4 - Suc i)" "Suc nr"] Suc.prems(3)
      unfolding i(3) by blast
    have "add32 (e_offset ?e) 0 = e_offset ?e" using table_entry_bounds(1) by (simp add: add32_def)
    then have "parse_entries w ms b 0 pr pt i nr = parse_entries w1 ms1 b 0 pr pt (Suc i) (Suc nr)"
      using i(1) True ext(1) f(1) by (subst parse_entries.simps) (simp add: usable_def Let_def)
    then show ?thesis using True f(2-)
      by (intro exI [of _ w1] exI [of _ ms1] exI [of _ ps1]) simp
  qed
  then obtain w1 ms1 ps1 where s: "memory_for w1 ms1 (2 * (4 - Suc i))" "all_blocks w1 = all_blocks w @ ps1"
      "map (description w1) ps1 = (if fits (b_size bl) ?e then [Some (device_of b ?e)] else [])"
      "\<forall>q. q \<notin> set ps1 \<longrightarrow> blk w1 q = blk w q" "\<forall>q \<in> set ps1. blk w q = None" "disk w1 = disk w"
      "parse_entries w ms b 0 pr pt i nr = parse_entries w1 ms1 b 0 pr pt (Suc i) (nr + (if usable ?e then 1 else 0))"
    by blast
  have "blk w1 b = Some bl" using s(4,5) Suc.prems(4) by (metis option.distinct(1))
  from Suc.hyps(1) [OF i(2) ext(2) _ s(1) this Suc.prems(5)] obtain w' ms' ps where
    t: "parse_entries w1 ms1 b 0 pr pt (Suc i) (nr + (if usable ?e then 1 else 0))
        = Some (w', ms', nr + (if usable ?e then 1 else 0) + length (filter usable (entries_from pt (Suc i))))"
      "all_blocks w' = all_blocks w1 @ ps"
      "map (description w') ps = map (Some \<circ> device_of b) (filter (fits (b_size bl)) (entries_from pt (Suc i)))"
      "\<forall>q. q \<notin> set ps \<longrightarrow> blk w' q = blk w1 q" "\<forall>q \<in> set ps. blk w1 q = None" "disk w' = disk w1"
    using i(1) by (metis Suc_leI)
  have old: "blk w' q = blk w1 q" if "q \<in> set ps1" for q
  proof -
    have "description w1 q \<noteq> None" using s(3) that by (cases ps1; cases "device_of b ?e") (auto split: if_splits)
    then have "blk w1 q \<noteq> None" by (simp add: description_def)
    then show ?thesis using t(4,5) by metis
  qed
  have d1: "map (description w') ps1 = (if fits (b_size bl) ?e then [Some (device_of b ?e)] else [])"
    using map_description_cong [of ps1 w' w1] old s(3) by simp
  show ?case
  proof (rule exI [of _ w'], rule exI [of _ ms'], rule exI [of _ "ps1 @ ps"], intro conjI)
    show "parse_entries w ms b 0 pr pt i nr = Some (w', ms', nr + length (filter usable (entries_from pt i)))"
      using s(7) t(1) i(1) by simp
    show "map (description w') (ps1 @ ps) = map (Some \<circ> device_of b) (filter (fits (b_size bl)) (entries_from pt i))"
      using d1 t(3) i(1) by simp
    show "\<forall>q. q \<notin> set (ps1 @ ps) \<longrightarrow> blk w' q = blk w q" using s(4) t(4) by simp
    show "\<forall>q \<in> set (ps1 @ ps). blk w q = None" using s(4,5) t(5) by (metis UnE set_append)
  qed (use s(2,6) t(2,6) in simp_all)
qed

section \<open>Properties\<close>

text \<open>A disk of 100 sectors with a file system partition and a swap partition.\<close>

definition a_block :: "block_type \<Rightarrow> nat \<Rightarrow> driver \<Rightarrow> block" where
  "a_block t n ops = \<lparr>b_name = [], b_type = t, b_size = n, b_ops = ops, read_cnt = 0, write_cnt = 0\<rparr>"

definition two_partitions :: blocks where
  "two_partitions = \<lparr>blk = [1 \<mapsto> a_block BLOCK_RAW 100 (ide_operations 0), 2 \<mapsto> a_block BLOCK_FILESYS 40 (partition_operations 1 10),
     3 \<mapsto> a_block BLOCK_SWAP 50 (partition_operations 1 50)],
     all_blocks = [1, 2, 3], block_by_role = [0, 2, 0, 3], disk = \<lambda>d i. replicate 512 0\<rparr>"

lemma two_partitions_ok: "store_ok two_partitions 2" "store_ok two_partitions 3"
  by (simp_all add: store_ok_def two_partitions_def a_block_def)

text \<open>
  C24. Layered block devices: writing a sector of a disk or partition and then reading a sector of any
  disk or partition returns the written data exactly when both name the same sector of the same
  disk, and otherwise what was there before. Partitions that do not overlap are isolated from each other.
\<close>

theorem partition_isolation:
  assumes "store_ok w b" "i < dev_size w b" "length d = 512" "store_ok w c" "j < dev_size w c"
  shows "\<exists>w1 w2. block_write w b i d = Some w1
    \<and> block_read w1 c j = Some (w2, if map_option (\<lambda>(n, start). (n, start + j)) (extent w c)
        = map_option (\<lambda>(n, start). (n, start + i)) (extent w b) then d else dev_sector w c j)"
proof -
  obtain w1 n start where w1: "block_write w b i d = Some w1" "same_devs w w1" "\<forall>n j. length (disk w1 n j) = 512"
      "extent w b = Some (n, start)" "disk w1 = (disk w)(n := (disk w n)(start + i := d))"
    using block_write_ok [OF assms(1-3)] by blast
  obtain m start' where c: "extent w c = Some (m, start')" by (rule store_extent [OF assms(4)])
  obtain w2 where "block_read w1 c j = Some (w2, dev_sector w1 c j)"
    using block_read_ok [OF store_ok_same [OF w1(2) assms(4) w1(3)]] assms(5) dev_size_same [OF w1(2)] by metis
  moreover have "dev_sector w1 c j = (if m = n \<and> start' + j = start + i then d else dev_sector w c j)"
    using c extent_same [OF w1(2), of c] by (auto simp: dev_sector_def w1(5))
  ultimately show ?thesis using w1(1,4) c by auto
qed

theorem partition_isolation_witness:
  "\<exists>w1 w2. block_write two_partitions 2 39 (replicate 512 7) = Some w1
    \<and> block_read w1 3 0 = Some (w2, if map_option (\<lambda>(n, start). (n, start + 0)) (extent two_partitions 3)
        = map_option (\<lambda>(n, start). (n, start + 39)) (extent two_partitions 2) then replicate 512 7 else dev_sector two_partitions 3 0)"
  by (rule partition_isolation [OF two_partitions_ok(1) _ _ two_partitions_ok(2)])
    (simp_all add: dev_size_def two_partitions_def a_block_def)

text \<open>
  C25. Scanning a disk whose partition table has no extended partition: the scan ends, counts the
  non-empty entries, and registers, in the order of the table, one device for each of them that lies
  within the disk, of the type and size of the entry and starting at its offset. Nothing else changes
  but the read count of the disk.
\<close>

theorem partition_scan_registers:
  assumes "blk w b = Some bl" "b_ops bl = ide_operations n" "0 < b_size bl" "b_size bl < two32"
    "table_signature (disk w n 0) = 0xaa55" "\<forall>e \<in> set (entries_from (disk w n 0) 0). \<not> is_extended (e_type e)"
    "memory_for w ms 9"
  shows "\<exists>w' ms' ps. partition_scan w ms b = Some (w', ms', length (filter usable (entries_from (disk w n 0) 0)))
    \<and> all_blocks w' = all_blocks w @ ps
    \<and> map (description w') ps = map (Some \<circ> device_of b) (filter (fits (b_size bl)) (entries_from (disk w n 0) 0))
    \<and> disk w' = disk w \<and> (\<forall>q. q \<notin> set ps \<longrightarrow> description w' q = description w q)"
proof -
  let ?w = "upd_block w b (\<lambda>bl. bl\<lparr>read_cnt := read_cnt bl + 1\<rparr>)" and ?pt = "disk w n 0"
  have "memory_for w ms (Suc 8)" using assms(7) by simp
  then obtain p ms1 where 1: "malloc_next ms = (p, ms1)" "p \<noteq> NULL" "blk w p = None" "memory_for w ms1 8"
    by (rule memory_for_next)
  have rd: "block_read w b 0 = Some (?w, ?pt)" using assms(1-3) by (subst block_read.simps) (simp add: check_sector_def)
  have mem: "memory_for ?w ms1 (2 * (4 - 0))" using 1(4) by (auto simp: memory_for_def)
  obtain w' ms' ps where ps: "parse_entries ?w ms1 b 0 0 ?pt 0 0 = Some (w', ms', 0 + length (filter usable (entries_from ?pt 0)))"
      "all_blocks w' = all_blocks ?w @ ps"
      "map (description w') ps = map (Some \<circ> device_of b) (filter (fits (b_size bl)) (entries_from ?pt 0))"
      "\<forall>q. q \<notin> set ps \<longrightarrow> blk w' q = blk ?w q" "disk w' = disk ?w"
    using parse_entries_ok [OF assms(6) _ mem, of b "bl\<lparr>read_cnt := read_cnt bl + 1\<rparr>" 0 0] assms(1,4) by auto
  have "load_table w ms b 0 = Some (?w, ms1, Some ?pt)"
    using assms(1,3,5) 1 rd by (simp add: load_table_def block_size_def)
  then have "partition_scan w ms b = Some (w', ms', length (filter usable (entries_from ?pt 0)))"
    using ps(1) by (simp add: partition_scan_def read_partition_table_def)
  moreover have "description ?w q = description w q" for q by (cases "blk w q") (auto simp: description_def)
  ultimately show ?thesis using ps(2-) by (auto simp: description_def)
qed

text \<open>A master boot record with one entry, in slot 1.\<close>

definition an_mbr :: "u8 \<Rightarrow> u32 \<Rightarrow> u32 \<Rightarrow> u8 list" where
  "an_mbr type offset n = replicate 462 0 @ [0, 0, 0, 0, type, 0, 0, 0] @ le32 offset @ le32 n @ replicate 32 0 @ [0x55, 0xaa]"

definition mbr_disk :: "u8 list \<Rightarrow> blocks" where
  "mbr_disk pt = \<lparr>blk = [1 \<mapsto> a_block BLOCK_RAW 100 (ide_operations 0)], all_blocks = [1], block_by_role = [0, 0, 0, 0],
     disk = \<lambda>d i. if i = 0 then pt else replicate 512 0\<rparr>"

lemma an_mbr_entry: "table_entry (an_mbr t off n) (Suc 0) = \<lparr>e_type = t, e_offset = unat off, e_size = unat n\<rparr>"
proof -
  have "drop (446 + 16 * Suc 0) (an_mbr t off n) = [0, 0, 0, 0, t, 0, 0, 0] @ le32 off @ le32 n @ replicate 32 0 @ [0x55, 0xaa]"
    by (simp add: an_mbr_def)
  then show ?thesis unfolding table_entry_def Let_def by simp
qed

lemma an_mbr_rest:
  "e_size (table_entry (an_mbr t off n) 0) = 0" "e_size (table_entry (an_mbr t off n) 2) = 0"
  "e_size (table_entry (an_mbr t off n) 3) = 0" "table_signature (an_mbr t off n) = 0xaa55"
  "e_type (table_entry (an_mbr t off n) 0) = 0" "e_type (table_entry (an_mbr t off n) 2) = 0"
  "e_type (table_entry (an_mbr t off n) 3) = 0"
  by (simp_all add: table_entry_def an_mbr_def Let_def table_signature_def nth_append of_le32_def)

lemma entries_from_0: "entries_from pt 0 = [table_entry pt 0, table_entry pt 1, table_entry pt 2, table_entry pt 3]"
  by (simp add: entries_from_def numeral_eq_Suc)

theorem partition_scan_registers_witness:
  "\<exists>w' ms' ps. partition_scan (mbr_disk (an_mbr 0x21 10 50)) [11, 12, 13, 14, 15, 16, 17, 18, 19] 1
      = Some (w', ms', length (filter usable (entries_from (disk (mbr_disk (an_mbr 0x21 10 50)) 0 0) 0)))
    \<and> all_blocks w' = all_blocks (mbr_disk (an_mbr 0x21 10 50)) @ ps
    \<and> map (description w') ps
      = map (Some \<circ> device_of 1) (filter (fits (b_size (a_block BLOCK_RAW 100 (ide_operations 0))))
          (entries_from (disk (mbr_disk (an_mbr 0x21 10 50)) 0 0) 0))
    \<and> disk w' = disk (mbr_disk (an_mbr 0x21 10 50))
    \<and> (\<forall>q. q \<notin> set ps \<longrightarrow> description w' q = description (mbr_disk (an_mbr 0x21 10 50)) q)"
proof (rule partition_scan_registers)
  show "\<forall>e \<in> set (entries_from (disk (mbr_disk (an_mbr 0x21 10 50)) 0 0) 0). \<not> is_extended (e_type e)"
    unfolding entries_from_0 by (simp add: mbr_disk_def an_mbr_entry an_mbr_rest is_extended_def)
qed (simp_all add: mbr_disk_def a_block_def an_mbr_rest memory_for_def)

section \<open>Extended partitions\<close>









end
