(* ===== verification/Inode.thy ===== *)
theory Inode
  imports Block KBitmap "HOL-Library.Signed_Division"
begin

text \<open>
  The state of the file system and reading and writing the data of an inode
  (\<^verbatim>\<open>filesys/inode.c\<close>). An inode names a contiguous run of sectors; \<^verbatim>\<open>inode_read_at\<close> and
  \<^verbatim>\<open>inode_write_at\<close> copy sector by sector, through a bounce buffer where a sector is not covered.
  The theory shows that they read and change exactly the bytes of the file between the offset and
  the end of the request or of the file, whatever the alignment.
\<close>

section \<open>State\<close>

record inode_disk =
  d_start :: nat
  d_length :: int
  d_magic :: u32
  d_unused :: "u8 list"

record inode =
  i_sector :: nat
  open_cnt :: int
  removed :: bool
  deny_write_cnt :: int
  i_data :: inode_disk

record kfile =
  f_inode :: ptr
  f_pos :: int
  f_deny_write :: bool

record dir =
  dir_inode :: ptr
  dir_pos :: int

text \<open>
  The global variables of the file system and the objects on the heap. An allocation succeeds as
  \<open>mem_ok\<close> says; the \<open>n\<close>-th allocation returns the address \<open>n\<close>, so that addresses are fresh.
\<close>

record fsys =
  devs :: blocks
  fs_device :: ptr
  open_inodes :: "ptr list"
  inodes :: "ptr \<Rightarrow> inode option"
  files :: "ptr \<Rightarrow> kfile option"
  dirs :: "ptr \<Rightarrow> dir option"
  free_map :: bitmap
  free_map_file :: ptr
  mem_ok :: "nat \<Rightarrow> bool"
  mem_cnt :: nat

definition fs_malloc :: "fsys \<Rightarrow> fsys \<times> ptr" where
  "fs_malloc fs = (fs\<lparr>mem_cnt := Suc (mem_cnt fs)\<rparr>, if mem_ok fs (mem_cnt fs) then Suc (mem_cnt fs) else NULL)"

definition dev_read :: "fsys \<Rightarrow> nat \<Rightarrow> (fsys \<times> u8 list) option" where
  "dev_read fs i = do { (w, d) \<leftarrow> block_read (devs fs) (fs_device fs) i; Some (fs\<lparr>devs := w\<rparr>, d) }"

definition dev_write :: "fsys \<Rightarrow> nat \<Rightarrow> u8 list \<Rightarrow> fsys option" where
  "dev_write fs i d = do { w \<leftarrow> block_write (devs fs) (fs_device fs) i d; Some (fs\<lparr>devs := w\<rparr>) }"

text \<open>A result of \<^verbatim>\<open>int\<close> arithmetic; overflow is undefined.\<close>

definition s32 :: "int \<Rightarrow> int option" where
  "s32 x = (if - 2147483648 \<le> x \<and> x \<le> 2147483647 then Some x else None)"

section \<open>Inodes on disk\<close>

definition INODE_MAGIC :: u32 where
  "INODE_MAGIC = 0x494e4f44"

definition inode_disk_bytes :: "inode_disk \<Rightarrow> u8 list" where
  "inode_disk_bytes d = le32 (word_of_nat (d_start d)) @ le32 (word_of_int (d_length d)) @ le32 (d_magic d) @ d_unused d"

definition inode_disk_of :: "u8 list \<Rightarrow> inode_disk" where
  "inode_disk_of bs = \<lparr>d_start = unat (of_le32 bs), d_length = sint (of_le32 (drop 4 bs)),
     d_magic = of_le32 (drop 8 bs), d_unused = drop 12 bs\<rparr>"

definition bytes_to_sectors :: "int \<Rightarrow> nat option" where
  "bytes_to_sectors sz = do {
     x \<leftarrow> s32 (sz + int BLOCK_SECTOR_SIZE);
     Some (nat (((x - 1) sdiv int BLOCK_SECTOR_SIZE) mod 2 ^ 32))
   }"

definition byte_to_sector :: "inode \<Rightarrow> int \<Rightarrow> nat" where
  "byte_to_sector ino pos =
     (if pos < d_length (i_data ino)
      then nat ((int (d_start (i_data ino)) + pos sdiv int BLOCK_SECTOR_SIZE) mod 2 ^ 32)
      else two32 - 1)"

definition inode_length :: "inode \<Rightarrow> int" where
  "inode_length ino = d_length (i_data ino)"

section \<open>Reading and writing\<close>

text \<open>The sector, the offset in it, the bytes left in it and the bytes to copy.\<close>

definition plan_chunk :: "inode \<Rightarrow> int \<Rightarrow> int \<Rightarrow> (nat \<times> int \<times> int \<times> int) option" where
  "plan_chunk ino sz offset = do {
     let sector_idx = byte_to_sector ino offset;
     let sector_ofs = offset smod int BLOCK_SECTOR_SIZE;
     inode_left \<leftarrow> s32 (inode_length ino - offset);
     let sector_left = int BLOCK_SECTOR_SIZE - sector_ofs;
     let min_left = (if inode_left < sector_left then inode_left else sector_left);
     let chunk_size = (if sz < min_left then sz else min_left);
     Some (sector_idx, sector_ofs, sector_left, chunk_size)
   }"

definition get_bounce :: "fsys \<Rightarrow> ptr \<Rightarrow> fsys \<times> ptr" where
  "get_bounce fs bounce = (if bounce = NULL then fs_malloc fs else (fs, bounce))"

text \<open>The bytes copied to the buffer so far are \<open>buf\<close>; their number is \<^verbatim>\<open>bytes_read\<close>.\<close>

function read_loop :: "fsys \<Rightarrow> inode \<Rightarrow> ptr \<Rightarrow> int \<Rightarrow> int \<Rightarrow> u8 list \<Rightarrow> (fsys \<times> u8 list) option" where
  "read_loop fs ino bounce sz offset buf =
     (if sz > 0 then
        case plan_chunk ino sz offset of
          None \<Rightarrow> None
        | Some (sector_idx, sector_ofs, sector_left, chunk_size) \<Rightarrow>
            if chunk_size \<le> 0 then Some (fs, buf)
            else if sector_ofs = 0 \<and> chunk_size = int BLOCK_SECTOR_SIZE then do {
              (fs, d) \<leftarrow> dev_read fs sector_idx;
              read_loop fs ino bounce (sz - chunk_size) (offset + chunk_size) (buf @ d)
            }
            else case get_bounce fs bounce of (fs, bounce) \<Rightarrow>
              if bounce = NULL then Some (fs, buf)
              else if sector_ofs < 0 then None
              else do {
                (fs, d) \<leftarrow> dev_read fs sector_idx;
                read_loop fs ino bounce (sz - chunk_size) (offset + chunk_size)
                  (buf @ take (nat chunk_size) (drop (nat sector_ofs) d))
              }
      else Some (fs, buf))"
  by pat_completeness auto
termination by (relation "measure (\<lambda>(fs, ino, bounce, sz, offset, buf). nat sz)") auto

definition inode_read_at :: "fsys \<Rightarrow> ptr \<Rightarrow> int \<Rightarrow> int \<Rightarrow> (fsys \<times> u8 list) option" where
  "inode_read_at fs p sz offset = do {
     ino \<leftarrow> inodes fs p;
     read_loop fs ino NULL sz offset []
   }"

text \<open>\<open>buf\<close> is the caller's buffer; reading past its end is undefined.\<close>

definition buf_chunk :: "u8 list \<Rightarrow> int \<Rightarrow> int \<Rightarrow> u8 list option" where
  "buf_chunk buf pos n = (if pos + n \<le> int (length buf) then Some (take (nat n) (drop (nat pos) buf)) else None)"

definition overlay :: "u8 list \<Rightarrow> nat \<Rightarrow> u8 list \<Rightarrow> u8 list" where
  "overlay d i bs = take i d @ bs @ drop (i + length bs) d"

function write_loop :: "fsys \<Rightarrow> inode \<Rightarrow> ptr \<Rightarrow> u8 list \<Rightarrow> int \<Rightarrow> int \<Rightarrow> int \<Rightarrow> (fsys \<times> int) option" where
  "write_loop fs ino bounce buf sz offset bytes_written =
     (if sz > 0 then
        case plan_chunk ino sz offset of
          None \<Rightarrow> None
        | Some (sector_idx, sector_ofs, sector_left, chunk_size) \<Rightarrow>
            if chunk_size \<le> 0 then Some (fs, bytes_written)
            else if sector_ofs = 0 \<and> chunk_size = int BLOCK_SECTOR_SIZE then do {
              bs \<leftarrow> buf_chunk buf bytes_written chunk_size;
              fs \<leftarrow> dev_write fs sector_idx bs;
              write_loop fs ino bounce buf (sz - chunk_size) (offset + chunk_size) (bytes_written + chunk_size)
            }
            else case get_bounce fs bounce of (fs, bounce) \<Rightarrow>
              if bounce = NULL then Some (fs, bytes_written)
              else if sector_ofs < 0 then None
              else do {
                (fs, d) \<leftarrow> (if sector_ofs > 0 \<or> chunk_size < sector_left then dev_read fs sector_idx
                  else Some (fs, replicate BLOCK_SECTOR_SIZE 0));
                bs \<leftarrow> buf_chunk buf bytes_written chunk_size;
                fs \<leftarrow> dev_write fs sector_idx (overlay d (nat sector_ofs) bs);
                write_loop fs ino bounce buf (sz - chunk_size) (offset + chunk_size) (bytes_written + chunk_size)
              }
      else Some (fs, bytes_written))"
  by pat_completeness auto
termination by (relation "measure (\<lambda>(fs, ino, bounce, buf, sz, offset, n). nat sz)") auto

declare read_loop.simps [simp del] write_loop.simps [simp del]

definition inode_write_at :: "fsys \<Rightarrow> ptr \<Rightarrow> u8 list \<Rightarrow> int \<Rightarrow> int \<Rightarrow> (fsys \<times> int) option" where
  "inode_write_at fs p buf sz offset = do {
     ino \<leftarrow> inodes fs p;
     if deny_write_cnt ino \<noteq> 0 then Some (fs, 0)
     else write_loop fs ino NULL buf sz offset 0
   }"

section \<open>The disk as bytes\<close>

definition img :: "fsys \<Rightarrow> nat \<Rightarrow> u8 list" where
  "img fs = dev_sector (devs fs) (fs_device fs)"

definition dev_ok :: "fsys \<Rightarrow> bool" where
  "dev_ok fs \<longleftrightarrow> store_ok (devs fs) (fs_device fs)"

definition dev_cap :: "fsys \<Rightarrow> nat" where
  "dev_cap fs = dev_size (devs fs) (fs_device fs)"

definition dbyte :: "(nat \<Rightarrow> u8 list) \<Rightarrow> nat \<Rightarrow> u8" where
  "dbyte im a = im (a div 512) ! (a mod 512)"

definition patch :: "(nat \<Rightarrow> u8) \<Rightarrow> nat \<Rightarrow> u8 list \<Rightarrow> nat \<Rightarrow> u8" where
  "patch f a bs x = (if a \<le> x \<and> x < a + length bs then bs ! (x - a) else f x)"

lemma patch_Nil [simp]: "patch f a [] = f"
  by (rule ext) (auto simp: patch_def)

lemma patch_append: "patch (patch f a xs) (a + length xs) ys = patch f a (xs @ ys)"
  by (rule ext) (auto simp: patch_def nth_append)

lemma patch_outside: "x < a \<or> a + length bs \<le> x \<Longrightarrow> patch f a bs x = f x"
  by (auto simp: patch_def)

lemma map_patch: "map (patch f a bs) [a..<a + length bs] = bs"
  by (rule nth_equalityI) (simp_all add: patch_def)

lemma length_overlay [simp]: "i + length bs \<le> length d \<Longrightarrow> length (overlay d i bs) = length d"
  by (simp add: overlay_def)

lemma nth_overlay:
  "i + length bs \<le> length d \<Longrightarrow> j < length d \<Longrightarrow>
    overlay d i bs ! j = (if i \<le> j \<and> j < i + length bs then bs ! (j - i) else d ! j)"
  by (auto simp: overlay_def nth_append min_def)

text \<open>Changing a range inside one sector.\<close>

lemma dbyte_overlay:
  assumes "\<And>j. length (im j) = 512" "o' + length bs \<le> 512"
  shows "dbyte (im(s := overlay (im s) o' bs)) = patch (dbyte im) (512 * s + o') bs"
proof
  fix x
  show "dbyte (im(s := overlay (im s) o' bs)) x = patch (dbyte im) (512 * s + o') bs x"
  proof (cases "x div 512 = s")
    case True
    then have x: "x = 512 * s + x mod 512" by (metis mult_div_mod_eq)
    have "overlay (im s) o' bs ! (x mod 512)
        = (if o' \<le> x mod 512 \<and> x mod 512 < o' + length bs then bs ! (x mod 512 - o') else im s ! (x mod 512))"
      using assms by (simp add: nth_overlay)
    moreover have "o' \<le> x mod 512 \<longleftrightarrow> 512 * s + o' \<le> x" "x mod 512 < o' + length bs \<longleftrightarrow> x < 512 * s + o' + length bs"
        "x mod 512 - o' = x - (512 * s + o')"
      using x by linarith+
    ultimately show ?thesis using True by (simp add: dbyte_def patch_def)
  next
    case False
    then have "x div 512 < s \<or> Suc s \<le> x div 512" by linarith
    then have "x < s * 512 \<or> Suc s * 512 \<le> x"
      by (simp add: div_less_iff_less_mult less_eq_div_iff_mult_less_eq del: mult_Suc)
    then have "x < 512 * s + o' \<or> 512 * s + o' + length bs \<le> x" using assms(2) by auto
    then show ?thesis using False by (simp add: patch_outside) (simp add: dbyte_def)
  qed
qed

lemma overlay_all: "length bs = length d \<Longrightarrow> overlay d 0 bs = bs"
  by (simp add: overlay_def)

lemma dbyte_chunk:
  assumes "length (im s) = 512" "o' + n \<le> 512"
  shows "take n (drop o' (im s)) = map (dbyte im) [512 * s + o'..<512 * s + o' + n]"
proof (rule nth_equalityI)
  fix j assume "j < length (take n (drop o' (im s)))"
  then have j: "j < n" using assms by simp
  have "(512 * s + (o' + j)) div 512 = s" "(512 * s + (o' + j)) mod 512 = o' + j" using j assms(2) by auto
  then show "take n (drop o' (im s)) ! j = map (dbyte im) [512 * s + o'..<512 * s + o' + n] ! j"
    using j assms by (simp add: dbyte_def add.assoc)
qed (use assms in simp)

lemma img_len: "dev_ok fs \<Longrightarrow> length (img fs i) = 512"
  by (simp add: dev_ok_def img_def dev_sector_len)

section \<open>Input and output of the file system\<close>

text \<open>What reading and writing sectors and allocating buffers leaves as it is.\<close>

definition io :: "fsys \<Rightarrow> fsys \<Rightarrow> bool" where
  "io fs fs' \<longleftrightarrow> fs' = fs\<lparr>devs := devs fs', mem_cnt := mem_cnt fs'\<rparr> \<and> mem_cnt fs \<le> mem_cnt fs'
     \<and> dev_ok fs' \<and> dev_cap fs' = dev_cap fs"

lemma io_refl: "dev_ok fs \<Longrightarrow> io fs fs"
  by (simp add: io_def)

lemma io_trans: "io fs fs1 \<Longrightarrow> io fs1 fs2 \<Longrightarrow> io fs fs2"
  by (cases fs; cases fs1; cases fs2) (simp add: io_def)

lemma io_sel:
  assumes "io fs fs'"
  shows "fs_device fs' = fs_device fs" "open_inodes fs' = open_inodes fs" "inodes fs' = inodes fs" "files fs' = files fs"
    "dirs fs' = dirs fs" "free_map fs' = free_map fs" "free_map_file fs' = free_map_file fs" "mem_ok fs' = mem_ok fs"
    "dev_ok fs'" "dev_cap fs' = dev_cap fs" "mem_cnt fs \<le> mem_cnt fs'"
  using assms by (cases fs; cases fs'; simp add: io_def)+

lemma dev_read_ok:
  assumes "dev_ok fs" "i < dev_cap fs"
  shows "\<exists>fs'. dev_read fs i = Some (fs', img fs i) \<and> io fs fs' \<and> img fs' = img fs \<and> mem_cnt fs' = mem_cnt fs"
proof -
  obtain w where w: "block_read (devs fs) (fs_device fs) i = Some (w, img fs i)" "store_ok w (fs_device fs)"
      "dev_size w (fs_device fs) = dev_cap fs" "dev_sector w (fs_device fs) = img fs"
    using dev.rd_law [of "devs fs" "fs_device fs" i] assms unfolding dev_ok_def dev_cap_def img_def by blast
  then show ?thesis
    by (intro exI [of _ "fs\<lparr>devs := w\<rparr>"])
      (simp add: dev_read_def io_def dev_ok_def dev_cap_def [of "fs\<lparr>devs := w\<rparr>"] img_def [of "fs\<lparr>devs := w\<rparr>"])
qed

lemma dev_write_ok:
  assumes "dev_ok fs" "i < dev_cap fs" "length d = 512"
  shows "\<exists>fs'. dev_write fs i d = Some fs' \<and> io fs fs' \<and> img fs' = (img fs)(i := d) \<and> mem_cnt fs' = mem_cnt fs"
proof -
  obtain w where w: "block_write (devs fs) (fs_device fs) i d = Some w" "store_ok w (fs_device fs)"
      "dev_size w (fs_device fs) = dev_cap fs" "dev_sector w (fs_device fs) = (img fs)(i := d)"
    using dev.wr_law [of "devs fs" "fs_device fs" i d] assms unfolding dev_ok_def dev_cap_def img_def by blast
  then show ?thesis
    by (intro exI [of _ "fs\<lparr>devs := w\<rparr>"])
      (simp add: dev_write_def io_def dev_ok_def dev_cap_def [of "fs\<lparr>devs := w\<rparr>"] img_def [of "fs\<lparr>devs := w\<rparr>"])
qed

lemma get_bounce_ok:
  assumes "dev_ok fs"
  obtains fs' b where "get_bounce fs bounce = (fs', b)" "io fs fs'" "img fs' = img fs" "bounce \<noteq> NULL \<or> (\<forall>n. mem_ok fs n) \<longrightarrow> b \<noteq> NULL"
proof -
  let ?r = "get_bounce fs bounce"
  have "io fs (fst ?r)" "img (fst ?r) = img fs" using assms
    by (simp_all add: get_bounce_def fs_malloc_def io_def dev_ok_def dev_cap_def img_def)
  moreover have "snd ?r \<noteq> NULL" if "bounce \<noteq> NULL \<or> (\<forall>n. mem_ok fs n)"
    using that by (auto simp: get_bounce_def fs_malloc_def)
  ultimately show thesis using that [of "fst ?r" "snd ?r"] by simp
qed

section \<open>Correctness of reading and writing\<close>

definition nsec :: "int \<Rightarrow> nat" where
  "nsec len = (nat len + 511) div 512"

text \<open>The data sectors of the inode lie within the device.\<close>

definition ino_ok :: "fsys \<Rightarrow> inode_disk \<Rightarrow> bool" where
  "ino_ok fs d \<longleftrightarrow> 0 \<le> d_length d \<and> d_length d \<le> 2147483135 \<and> d_start d + nsec (d_length d) \<le> dev_cap fs"

text \<open>The number of bytes that a request can transfer.\<close>

definition avail :: "inode_disk \<Rightarrow> int \<Rightarrow> int \<Rightarrow> nat" where
  "avail d sz ofs = nat (min sz (d_length d - ofs))"

lemma bytes_to_sectors_nsec: "0 \<le> len \<Longrightarrow> len \<le> 2147483135 \<Longrightarrow> bytes_to_sectors len = Some (nsec len)"
proof -
  assume len: "0 \<le> len" "len \<le> 2147483135"
  have "(len + 511) sdiv 512 = (len + 511) div 512" using len by (simp add: signed_divide_int_def)
  moreover have "(len + 511) div 512 < 2 ^ 32" using len by simp
  ultimately have "nat (((len + 511) sdiv 512) mod 2 ^ 32) = nat ((len + 511) div 512)" using len by simp
  also have "\<dots> = nsec len" using len by (simp add: nsec_def nat_div_distrib nat_add_distrib)
  finally show ?thesis using len by (simp add: bytes_to_sectors_def s32_def BLOCK_SECTOR_SIZE_def add.commute)
qed

lemma sector_in_extent: "0 \<le> ofs \<Longrightarrow> ofs < len \<Longrightarrow> nat ofs div 512 < nsec len"
  unfolding nsec_def by linarith

lemma dev_cap_less: "dev_ok fs \<Longrightarrow> dev_cap fs < two32"
  by (auto simp: dev_ok_def dev_cap_def store_ok_def dev_size_def)

lemma plan_chunk_in:
  assumes "dev_ok fs" "ino_ok fs (i_data ino)" "0 \<le> ofs" "ofs < inode_length ino" "0 < sz"
  obtains c where "plan_chunk ino sz ofs = Some (d_start (i_data ino) + nat ofs div 512, int (nat ofs mod 512),
      512 - int (nat ofs mod 512), int c)" "0 < c" "nat ofs mod 512 + c \<le> 512" "int c \<le> sz"
    "int c \<le> inode_length ino - ofs" "d_start (i_data ino) + nat ofs div 512 < dev_cap fs"
proof -
  let ?d = "i_data ino"
  have len: "ofs < d_length ?d" "d_length ?d \<le> 2147483135" "d_start ?d + nsec (d_length ?d) \<le> dev_cap fs"
    using assms(2,4) by (auto simp: ino_ok_def inode_length_def)
  have idx: "d_start ?d + nat ofs div 512 < dev_cap fs" using sector_in_extent [OF assms(3) len(1)] len(3) by linarith
  obtain k where k: "ofs = int k" using assms(3) nonneg_int_cases by blast
  have m: "ofs smod 512 = int (nat ofs mod 512)" "ofs sdiv 512 = int (nat ofs div 512)"
    unfolding k by (simp_all add: signed_modulo_int_def signed_divide_int_def zmod_int zdiv_int sgn_if)
  have lt: "int (d_start ?d) + int (nat ofs div 512) < 4294967296" using idx dev_cap_less [OF assms(1)] by linarith
  have "(int (d_start ?d) + ofs sdiv 512) mod 2 ^ 32 = int (d_start ?d + nat ofs div 512)"
    unfolding m of_nat_add using lt by (intro mod_pos_pos_trivial) simp_all
  then have "byte_to_sector ino ofs = d_start ?d + nat ofs div 512"
    using len(1) by (simp only: byte_to_sector_def BLOCK_SECTOR_SIZE_def of_nat_numeral if_True nat_int)
  moreover have "s32 (inode_length ino - ofs) = Some (inode_length ino - ofs)"
    using len assms(3) by (simp add: s32_def inode_length_def)
  ultimately have p: "plan_chunk ino sz ofs = Some (d_start ?d + nat ofs div 512, int (nat ofs mod 512), 512 - int (nat ofs mod 512),
      min sz (min (inode_length ino - ofs) (512 - int (nat ofs mod 512))))"
    by (simp add: plan_chunk_def BLOCK_SECTOR_SIZE_def m Let_def min_def)
  define c where "c = nat (min sz (min (inode_length ino - ofs) (512 - int (nat ofs mod 512))))"
  have lt: "nat ofs mod 512 < 512" by simp
  then have c: "int c = min sz (min (inode_length ino - ofs) (512 - int (nat ofs mod 512)))" "0 < c"
    using assms(4,5) by (auto simp: c_def)
  show thesis using p c idx lt by (intro that [of c]) (auto simp: min_def split: if_splits)
qed

lemma plan_chunk_out:
  assumes "inode_length ino \<le> ofs" "ofs \<le> 2147483647" "0 \<le> inode_length ino"
  obtains i o' l c where "plan_chunk ino sz ofs = Some (i, o', l, c)" "c \<le> 0"
proof -
  have "s32 (inode_length ino - ofs) = Some (inode_length ino - ofs)" using assms by (simp add: s32_def)
  then have "plan_chunk ino sz ofs = Some (byte_to_sector ino ofs, ofs smod 512, 512 - ofs smod 512,
      min sz (min (inode_length ino - ofs) (512 - ofs smod 512)))"
    by (simp add: plan_chunk_def BLOCK_SECTOR_SIZE_def Let_def min_def)
  moreover have "min sz (min (inode_length ino - ofs) (512 - ofs smod 512)) \<le> 0" using assms(1) by linarith
  ultimately show thesis by (rule that)
qed

lemma read_loop_stop:
  "sz \<le> 0 \<or> (\<exists>i o' l c. plan_chunk ino sz ofs = Some (i, o', l, c) \<and> c \<le> 0) \<Longrightarrow> read_loop fs ino bounce sz ofs buf = Some (fs, buf)"
  by (subst read_loop.simps) auto

lemma read_loop_full:
  "0 < sz \<Longrightarrow> plan_chunk ino sz ofs = Some (i, 0, l, 512) \<Longrightarrow> dev_read fs i = Some (fs1, d) \<Longrightarrow>
    read_loop fs ino bounce sz ofs buf = read_loop fs1 ino bounce (sz - 512) (ofs + 512) (buf @ d)"
  by (subst read_loop.simps) (simp add: BLOCK_SECTOR_SIZE_def)

lemma read_loop_oom:
  "0 < sz \<Longrightarrow> plan_chunk ino sz ofs = Some (i, o', l, c) \<Longrightarrow> 0 < c \<Longrightarrow> \<not> (o' = 0 \<and> c = 512) \<Longrightarrow>
    get_bounce fs bounce = (fs0, NULL) \<Longrightarrow> read_loop fs ino bounce sz ofs buf = Some (fs0, buf)"
  by (subst read_loop.simps) (auto simp: BLOCK_SECTOR_SIZE_def)

lemma read_loop_part:
  "0 < sz \<Longrightarrow> plan_chunk ino sz ofs = Some (i, o', l, c) \<Longrightarrow> 0 < c \<Longrightarrow> 0 \<le> o' \<Longrightarrow> \<not> (o' = 0 \<and> c = 512) \<Longrightarrow>
    get_bounce fs bounce = (fs0, b) \<Longrightarrow> b \<noteq> NULL \<Longrightarrow> dev_read fs0 i = Some (fs1, d) \<Longrightarrow>
    read_loop fs ino bounce sz ofs buf
      = read_loop fs1 ino b (sz - c) (ofs + c) (buf @ take (nat c) (drop (nat o') d))"
  by (subst read_loop.simps) (auto simp: BLOCK_SECTOR_SIZE_def)

text \<open>How much is left of a request after a chunk.\<close>

lemma avail_step:
  assumes "int c \<le> sz" "int c \<le> d_length d - ofs"
  shows "avail d sz ofs = c + avail d (sz - int c) (ofs + int c)"
  using assms unfolding avail_def by linarith

lemma avail_0: "sz \<le> 0 \<or> d_length d \<le> ofs \<Longrightarrow> avail d sz ofs = 0"
  unfolding avail_def by linarith

lemma map_upt_append: "map f [a..<a + c] @ map f [a + c..<a + c + n] = map f [a..<a + (c + n)]"
  using upt_add_eq_append [of a "a + c" n] by (simp add: add.assoc flip: map_append)

lemma read_loop_ok:
  assumes "dev_ok fs" "ino_ok fs (i_data ino)" "0 \<le> ofs" "ofs \<le> 2147483647"
  shows "\<exists>fs' n. read_loop fs ino bounce sz ofs buf = Some (fs', buf @ map (dbyte (img fs))
      [512 * d_start (i_data ino) + nat ofs..<512 * d_start (i_data ino) + nat ofs + n]) \<and> io fs fs' \<and> img fs' = img fs
    \<and> n \<le> avail (i_data ino) sz ofs \<and> (bounce \<noteq> NULL \<or> (\<forall>k. mem_ok fs k) \<longrightarrow> n = avail (i_data ino) sz ofs)"
  using assms
proof (induction "nat sz" arbitrary: fs bounce sz ofs buf rule: less_induct)
  case less
  let ?a = "512 * d_start (i_data ino) + nat ofs" and ?L = "inode_length ino"
  have L: "0 \<le> ?L" "?L \<le> 2147483135" using less.prems(2) unfolding inode_length_def ino_ok_def by linarith+
  consider (nothing) "sz \<le> 0" | (eof) "0 < sz" "?L \<le> ofs" | (data) "0 < sz" "ofs < ?L" by linarith
  then show ?case
  proof cases
    case nothing
    then show ?thesis using io_refl [OF less.prems(1)] avail_0 [of sz "i_data ino" ofs]
      by (intro exI [of _ fs] exI [of _ 0]) (simp add: read_loop_stop)
  next
    case eof
    obtain i o' l c where "plan_chunk ino sz ofs = Some (i, o', l, c)" "c \<le> 0" by (rule plan_chunk_out [OF eof(2) less.prems(4) L(1)])
    then have "read_loop fs ino bounce sz ofs buf = Some (fs, buf)" by (intro read_loop_stop) blast
    then show ?thesis using io_refl [OF less.prems(1)] avail_0 [of sz "i_data ino" ofs] eof(2)
      by (intro exI [of _ fs] exI [of _ 0]) (simp add: inode_length_def)
  next
    case data
    let ?s = "d_start (i_data ino) + nat ofs div 512" and ?o = "nat ofs mod 512"
    obtain c where c: "plan_chunk ino sz ofs = Some (?s, int ?o, 512 - int ?o, int c)" "0 < c" "?o + c \<le> 512"
        "int c \<le> sz" "int c \<le> ?L - ofs" "?s < dev_cap fs"
      by (rule plan_chunk_in [OF less.prems(1-3) data(2,1)])
    have a: "512 * ?s + ?o = ?a" by (simp add: add_mult_distrib2)
    have chunk: "take c (drop ?o (img fs ?s)) = map (dbyte (img fs)) [?a..<?a + c]"
      using dbyte_chunk [of "img fs" ?s, OF img_len [OF less.prems(1)] c(3)] unfolding a .
    have next_ok: "nat (sz - int c) < nat sz" "0 \<le> ofs + int c" "ofs + int c \<le> 2147483647"
      using c(2,4,5) less.prems(3) L(2) data(1) by linarith+
    have cont: "\<exists>fs' n. read_loop fs1 ino b (sz - int c) (ofs + int c) (buf @ take c (drop ?o (img fs ?s)))
          = Some (fs', buf @ map (dbyte (img fs)) [?a..<?a + n]) \<and> io fs fs' \<and> img fs' = img fs
        \<and> n \<le> avail (i_data ino) sz ofs \<and> (b \<noteq> NULL \<or> (\<forall>k. mem_ok fs k) \<longrightarrow> n = avail (i_data ino) sz ofs)"
      if fs1: "io fs fs1" "img fs1 = img fs" for fs1 b
    proof -
      have ok: "dev_ok fs1" "ino_ok fs1 (i_data ino)" using io_sel(9,10) [OF fs1(1)] less.prems(2) by (simp_all add: ino_ok_def)
      have n: "512 * d_start (i_data ino) + nat (ofs + int c) = ?a + c" using less.prems(3) by (simp add: nat_add_distrib)
      have av: "avail (i_data ino) sz ofs = c + avail (i_data ino) (sz - int c) (ofs + int c)"
        using avail_step c(4,5) unfolding inode_length_def by blast
      obtain fs' n' where r: "read_loop fs1 ino b (sz - int c) (ofs + int c) (buf @ take c (drop ?o (img fs ?s)))
          = Some (fs', (buf @ take c (drop ?o (img fs ?s))) @ map (dbyte (img fs1)) [?a + c..<?a + c + n'])"
          "io fs1 fs'" "img fs' = img fs1" "n' \<le> avail (i_data ino) (sz - int c) (ofs + int c)"
          "b \<noteq> NULL \<or> (\<forall>k. mem_ok fs1 k) \<longrightarrow> n' = avail (i_data ino) (sz - int c) (ofs + int c)"
        using less.hyps [OF next_ok(1) ok next_ok(2,3), of b "buf @ take c (drop ?o (img fs ?s))"] unfolding n by blast
      have "(buf @ take c (drop ?o (img fs ?s))) @ map (dbyte (img fs1)) [?a + c..<?a + c + n']
          = buf @ map (dbyte (img fs)) [?a..<?a + (c + n')]"
        unfolding chunk fs1(2) append_assoc map_upt_append ..
      then show ?thesis using r(1) io_trans [OF fs1(1) r(2)] r(3-5) fs1(2) av io_sel(8) [OF fs1(1)]
        by (intro exI [of _ fs'] exI [of _ "c + n'"] conjI) simp_all
    qed
    show ?thesis
    proof (cases "?o = 0 \<and> c = 512")
      case True
      obtain fs1 where fs1: "dev_read fs ?s = Some (fs1, img fs ?s)" "io fs fs1" "img fs1 = img fs"
        using dev_read_ok [OF less.prems(1) c(6)] by blast
      have "img fs ?s = take c (drop ?o (img fs ?s))" using True img_len [OF less.prems(1)] by simp
      moreover have "plan_chunk ino sz ofs = Some (?s, 0, 512 - int ?o, 512)" using c(1) True by simp
      from read_loop_full [OF data(1) this fs1(1)] have "read_loop fs ino bounce sz ofs buf
          = read_loop fs1 ino bounce (sz - int c) (ofs + int c) (buf @ img fs ?s)"
        using True by simp
      ultimately show ?thesis using cont [OF fs1(2,3), of bounce] by simp
    next
      case False
      then have np: "\<not> (int ?o = 0 \<and> int c = 512)" by linarith
      have c0: "0 < int c" using c(2) by simp
      obtain fs0 b where b: "get_bounce fs bounce = (fs0, b)" "io fs fs0" "img fs0 = img fs"
          "bounce \<noteq> NULL \<or> (\<forall>n. mem_ok fs n) \<longrightarrow> b \<noteq> NULL"
        by (rule get_bounce_ok [OF less.prems(1), of bounce])
      show ?thesis
      proof (cases "b = NULL")
        case True
        then have "read_loop fs ino bounce sz ofs buf = Some (fs0, buf)"
          using read_loop_oom [OF data(1) c(1) c0 np] b(1) by simp
        then show ?thesis using b True by (intro exI [of _ fs0] exI [of _ 0]) auto
      next
        case nb: False
        obtain fs1 where fs1: "dev_read fs0 ?s = Some (fs1, img fs ?s)" "io fs0 fs1" "img fs1 = img fs"
          using dev_read_ok [of fs0 ?s] io_sel(9,10) [OF b(2)] c(6) b(3) by auto
        from read_loop_part [OF data(1) c(1) c0 _ np b(1) nb fs1(1)]
        have "read_loop fs ino bounce sz ofs buf
            = read_loop fs1 ino b (sz - int c) (ofs + int c) (buf @ take c (drop ?o (img fs ?s)))" by simp
        then show ?thesis using cont [OF io_trans [OF b(2) fs1(2)] fs1(3), of b] nb by auto
      qed
    qed
  qed
qed

lemma write_loop_stop:
  "sz \<le> 0 \<or> (\<exists>i o' l c. plan_chunk ino sz ofs = Some (i, o', l, c) \<and> c \<le> 0) \<Longrightarrow>
    write_loop fs ino bounce buf sz ofs w = Some (fs, w)"
  by (subst write_loop.simps) auto

lemma write_loop_full:
  "0 < sz \<Longrightarrow> plan_chunk ino sz ofs = Some (i, 0, l, 512) \<Longrightarrow> buf_chunk buf w 512 = Some bs \<Longrightarrow> dev_write fs i bs = Some fs1 \<Longrightarrow>
    write_loop fs ino bounce buf sz ofs w = write_loop fs1 ino bounce buf (sz - 512) (ofs + 512) (w + 512)"
  by (subst write_loop.simps) (simp add: BLOCK_SECTOR_SIZE_def)

lemma write_loop_oom:
  "0 < sz \<Longrightarrow> plan_chunk ino sz ofs = Some (i, o', l, c) \<Longrightarrow> 0 < c \<Longrightarrow> \<not> (o' = 0 \<and> c = 512) \<Longrightarrow>
    get_bounce fs bounce = (fs0, NULL) \<Longrightarrow> write_loop fs ino bounce buf sz ofs w = Some (fs0, w)"
  by (subst write_loop.simps) (auto simp: BLOCK_SECTOR_SIZE_def)

lemma write_loop_part:
  assumes "0 < sz" "plan_chunk ino sz ofs = Some (i, o', 512 - o', c)" "0 < c" "0 \<le> o'" "o' + c \<le> 512" "\<not> (o' = 0 \<and> c = 512)"
    "get_bounce fs bounce = (fs0, b)" "b \<noteq> NULL" "dev_read fs0 i = Some (fs1, d)" "buf_chunk buf w c = Some bs"
    "dev_write fs1 i (overlay d (nat o') bs) = Some fs2"
  shows "write_loop fs ino bounce buf sz ofs w = write_loop fs2 ino b buf (sz - c) (ofs + c) (w + c)"
proof -
  have "o' > 0 \<or> c < 512 - o'" using assms(4-6) by auto
  then show ?thesis using assms by (subst write_loop.simps) (auto simp: BLOCK_SECTOR_SIZE_def)
qed

lemma take_take_drop: "take c (drop w xs) @ take n (drop (w + c) xs) = take (c + n) (drop w xs)"
  by (simp add: take_add add.commute)

lemma write_loop_ok:
  assumes "dev_ok fs" "ino_ok fs (i_data ino)" "0 \<le> ofs" "ofs \<le> 2147483647" "w + nat sz \<le> length buf"
  shows "\<exists>fs' n. write_loop fs ino bounce buf sz ofs (int w) = Some (fs', int (w + n)) \<and> io fs fs'
    \<and> dbyte (img fs') = patch (dbyte (img fs)) (512 * d_start (i_data ino) + nat ofs) (take n (drop w buf))
    \<and> n \<le> avail (i_data ino) sz ofs \<and> (bounce \<noteq> NULL \<or> (\<forall>k. mem_ok fs k) \<longrightarrow> n = avail (i_data ino) sz ofs)"
  using assms
proof (induction "nat sz" arbitrary: fs bounce sz ofs w rule: less_induct)
  case less
  let ?a = "512 * d_start (i_data ino) + nat ofs" and ?L = "inode_length ino"
  have L: "0 \<le> ?L" "?L \<le> 2147483135" using less.prems(2) unfolding inode_length_def ino_ok_def by linarith+
  consider (nothing) "sz \<le> 0" | (eof) "0 < sz" "?L \<le> ofs" | (data) "0 < sz" "ofs < ?L" by linarith
  then show ?case
  proof cases
    case nothing
    then show ?thesis using io_refl [OF less.prems(1)] avail_0 [of sz "i_data ino" ofs]
      by (intro exI [of _ fs] exI [of _ 0]) (simp add: write_loop_stop)
  next
    case eof
    obtain i o' l c where "plan_chunk ino sz ofs = Some (i, o', l, c)" "c \<le> 0" by (rule plan_chunk_out [OF eof(2) less.prems(4) L(1)])
    then have "write_loop fs ino bounce buf sz ofs (int w) = Some (fs, int w)" by (intro write_loop_stop) blast
    then show ?thesis using io_refl [OF less.prems(1)] avail_0 [of sz "i_data ino" ofs] eof(2)
      by (intro exI [of _ fs] exI [of _ 0]) (simp add: inode_length_def)
  next
    case data
    let ?s = "d_start (i_data ino) + nat ofs div 512" and ?o = "nat ofs mod 512"
    obtain c where c: "plan_chunk ino sz ofs = Some (?s, int ?o, 512 - int ?o, int c)" "0 < c" "?o + c \<le> 512"
        "int c \<le> sz" "int c \<le> ?L - ofs" "?s < dev_cap fs"
      by (rule plan_chunk_in [OF less.prems(1-3) data(2,1)])
    let ?bs = "take c (drop w buf)"
    have a: "512 * ?s + ?o = ?a" by (simp add: add_mult_distrib2)
    have next_ok: "nat (sz - int c) < nat sz" "0 \<le> ofs + int c" "ofs + int c \<le> 2147483647" "w + c + nat (sz - int c) \<le> length buf"
      using c(2,4,5) less.prems(3,5) L(2) data(1) by linarith+
    have bs: "buf_chunk buf (int w) (int c) = Some ?bs" "length ?bs = c"
      using next_ok(4) by (simp_all add: buf_chunk_def)
    have cont: "\<exists>fs' n. write_loop fs1 ino b buf (sz - int c) (ofs + int c) (int w + int c) = Some (fs', int (w + n)) \<and> io fs fs'
        \<and> dbyte (img fs') = patch (dbyte (img fs)) ?a (take n (drop w buf))
        \<and> n \<le> avail (i_data ino) sz ofs \<and> (b \<noteq> NULL \<or> (\<forall>k. mem_ok fs k) \<longrightarrow> n = avail (i_data ino) sz ofs)"
      if fs1: "io fs fs1" "img fs1 = (img fs)(?s := overlay (img fs ?s) ?o ?bs)" for fs1 b
    proof -
      have ok: "dev_ok fs1" "ino_ok fs1 (i_data ino)" using io_sel(9,10) [OF fs1(1)] less.prems(2) by (simp_all add: ino_ok_def)
      have n: "512 * d_start (i_data ino) + nat (ofs + int c) = ?a + c" using less.prems(3) by (simp add: nat_add_distrib)
      have av: "avail (i_data ino) sz ofs = c + avail (i_data ino) (sz - int c) (ofs + int c)"
        using avail_step c(4,5) unfolding inode_length_def by blast
      obtain fs' n' where r: "write_loop fs1 ino b buf (sz - int c) (ofs + int c) (int (w + c)) = Some (fs', int (w + c + n'))"
          "io fs1 fs'" "dbyte (img fs') = patch (dbyte (img fs1)) (?a + c) (take n' (drop (w + c) buf))"
          "n' \<le> avail (i_data ino) (sz - int c) (ofs + int c)"
          "b \<noteq> NULL \<or> (\<forall>k. mem_ok fs1 k) \<longrightarrow> n' = avail (i_data ino) (sz - int c) (ofs + int c)"
        using less.hyps [OF next_ok(1) ok next_ok(2,3,4), of b] unfolding n by blast
      have "dbyte (img fs1) = patch (dbyte (img fs)) ?a ?bs"
        using dbyte_overlay [of "img fs" ?o ?bs ?s] img_len [OF less.prems(1)] c(3) bs(2) fs1(2) unfolding a by simp
      then have "dbyte (img fs') = patch (dbyte (img fs)) ?a (take (c + n') (drop w buf))"
        using r(3) patch_append [of "dbyte (img fs)" ?a ?bs] bs(2) by (simp add: take_take_drop)
      then show ?thesis using r(1) io_trans [OF fs1(1) r(2)] r(4,5) av io_sel(8) [OF fs1(1)]
        by (intro exI [of _ fs'] exI [of _ "c + n'"] conjI) (simp_all add: add.assoc)
    qed
    show ?thesis
    proof (cases "?o = 0 \<and> c = 512")
      case True
      have ov: "overlay (img fs ?s) ?o ?bs = ?bs" using True bs(2) img_len [OF less.prems(1)] by (simp add: overlay_all)
      obtain fs1 where fs1: "dev_write fs ?s ?bs = Some fs1" "io fs fs1" "img fs1 = (img fs)(?s := overlay (img fs ?s) ?o ?bs)"
        using dev_write_ok [OF less.prems(1) c(6), of ?bs] bs(2) True unfolding ov by auto
      have "plan_chunk ino sz ofs = Some (?s, 0, 512 - int ?o, 512)" "buf_chunk buf (int w) 512 = Some ?bs" using c(1) bs(1) True by simp_all
      from write_loop_full [OF data(1) this fs1(1)] have "write_loop fs ino bounce buf sz ofs (int w)
          = write_loop fs1 ino bounce buf (sz - int c) (ofs + int c) (int w + int c)"
        using True by simp
      then show ?thesis using cont [OF fs1(2,3), of bounce] by simp
    next
      case False
      then have np: "\<not> (int ?o = 0 \<and> int c = 512)" by linarith
      have c0: "0 < int c" "int ?o + int c \<le> 512" using c(2,3) by linarith+
      obtain fs0 b where b: "get_bounce fs bounce = (fs0, b)" "io fs fs0" "img fs0 = img fs"
          "bounce \<noteq> NULL \<or> (\<forall>n. mem_ok fs n) \<longrightarrow> b \<noteq> NULL"
        by (rule get_bounce_ok [OF less.prems(1), of bounce])
      show ?thesis
      proof (cases "b = NULL")
        case True
        then have "write_loop fs ino bounce buf sz ofs (int w) = Some (fs0, int w)"
          using write_loop_oom [OF data(1) c(1) c0(1) np] b(1) by simp
        then show ?thesis using b True by (intro exI [of _ fs0] exI [of _ 0]) auto
      next
        case nb: False
        obtain fs1 where fs1: "dev_read fs0 ?s = Some (fs1, img fs ?s)" "io fs0 fs1" "img fs1 = img fs"
          using dev_read_ok [of fs0 ?s] io_sel(9,10) [OF b(2)] c(6) b(3) by auto
        have len: "length (overlay (img fs ?s) ?o ?bs) = 512" using img_len [OF less.prems(1)] c(3) bs(2) by simp
        have d1: "dev_ok fs1" "?s < dev_cap fs1" using io_sel(9,10) [OF fs1(2)] io_sel(10) [OF b(2)] c(6) by simp_all
        obtain fs2 where fs2: "dev_write fs1 ?s (overlay (img fs ?s) ?o ?bs) = Some fs2" "io fs1 fs2"
            "img fs2 = (img fs)(?s := overlay (img fs ?s) ?o ?bs)"
          using dev_write_ok [OF d1 len] fs1(3) by auto
        from write_loop_part [OF data(1) c(1) c0(1) _ c0(2) np b(1) nb fs1(1) bs(1)] fs2(1)
        have "write_loop fs ino bounce buf sz ofs (int w) = write_loop fs2 ino b buf (sz - int c) (ofs + int c) (int w + int c)" by simp
        then show ?thesis using cont [OF io_trans [OF io_trans [OF b(2) fs1(2)] fs2(2)] fs2(3), of b] nb by auto
      qed
    qed
  qed
qed

text \<open>The bytes of an inode's data, and its address on the disk.\<close>

definition base :: "inode_disk \<Rightarrow> nat" where
  "base d = 512 * d_start d"

definition contents :: "(nat \<Rightarrow> u8) \<Rightarrow> inode_disk \<Rightarrow> u8 list" where
  "contents f d = map f [base d..<base d + nat (d_length d)]"

lemma length_contents [simp]: "length (contents f d) = nat (d_length d)"
  by (simp add: contents_def)

lemma avail_le: "0 \<le> ofs \<Longrightarrow> 0 \<le> d_length d \<Longrightarrow> nat ofs + avail d sz ofs \<le> max (nat ofs) (nat (d_length d))"
  unfolding avail_def by linarith

lemma map_dbyte_contents:
  assumes "nat ofs + n \<le> nat (d_length d)"
  shows "map f [512 * d_start d + nat ofs..<512 * d_start d + nat ofs + n] = take n (drop (nat ofs) (contents f d))"
  using assms by (simp add: contents_def base_def drop_map take_map add.assoc)

lemma contents_patch:
  assumes "i + length bs \<le> nat (d_length d)"
  shows "contents (patch f (base d + i) bs) d = overlay (contents f d) i bs"
proof (rule nth_equalityI)
  show "length (contents (patch f (base d + i) bs) d) = length (overlay (contents f d) i bs)" using assms by simp
next
  fix j assume "j < length (contents (patch f (base d + i) bs) d)"
  then have "j < nat (d_length d)" by simp
  then show "contents (patch f (base d + i) bs) d ! j = overlay (contents f d) i bs ! j"
    using assms by (simp add: nth_overlay) (auto simp: contents_def patch_def)
qed

lemma contents_cong: "(\<And>x. base d \<le> x \<Longrightarrow> x < base d + nat (d_length d) \<Longrightarrow> f x = g x) \<Longrightarrow> contents f d = contents g d"
  by (simp add: contents_def)

text \<open>\<^verbatim>\<open>inode_read_at\<close> with memory returns the requested part of the contents; without, a prefix of it.\<close>

lemma inode_read_at_ok:
  assumes "dev_ok fs" "inodes fs p = Some ino" "ino_ok fs (i_data ino)" "0 \<le> ofs" "ofs \<le> 2147483647"
  shows "\<exists>fs' n. inode_read_at fs p sz ofs = Some (fs', take n (drop (nat ofs) (contents (dbyte (img fs)) (i_data ino))))
    \<and> io fs fs' \<and> img fs' = img fs \<and> n \<le> avail (i_data ino) sz ofs \<and> ((\<forall>k. mem_ok fs k) \<longrightarrow> n = avail (i_data ino) sz ofs)"
proof -
  obtain fs' n where r: "read_loop fs ino NULL sz ofs [] = Some (fs', [] @ map (dbyte (img fs))
      [512 * d_start (i_data ino) + nat ofs..<512 * d_start (i_data ino) + nat ofs + n])" "io fs fs'" "img fs' = img fs"
      "n \<le> avail (i_data ino) sz ofs" "NULL \<noteq> NULL \<or> (\<forall>k. mem_ok fs k) \<longrightarrow> n = avail (i_data ino) sz ofs"
    using read_loop_ok [OF assms(1,3-5), of NULL sz "[]"] by blast
  have "nat ofs + n \<le> nat (d_length (i_data ino)) \<or> n = 0"
    using r(4) assms(4) unfolding avail_def by linarith
  then have "map (dbyte (img fs)) [512 * d_start (i_data ino) + nat ofs..<512 * d_start (i_data ino) + nat ofs + n]
      = take n (drop (nat ofs) (contents (dbyte (img fs)) (i_data ino)))"
    using map_dbyte_contents by auto
  then show ?thesis using r assms(2) by (intro exI [of _ fs'] exI [of _ n]) (simp add: inode_read_at_def)
qed

lemma inode_write_at_ok:
  assumes "dev_ok fs" "inodes fs p = Some ino" "ino_ok fs (i_data ino)" "deny_write_cnt ino = 0" "0 \<le> ofs" "ofs \<le> 2147483647"
    "nat sz \<le> length buf"
  shows "\<exists>fs' n. inode_write_at fs p buf sz ofs = Some (fs', int n) \<and> io fs fs'
    \<and> dbyte (img fs') = patch (dbyte (img fs)) (base (i_data ino) + nat ofs) (take n buf)
    \<and> n \<le> avail (i_data ino) sz ofs \<and> ((\<forall>k. mem_ok fs k) \<longrightarrow> n = avail (i_data ino) sz ofs)"
  using write_loop_ok [OF assms(1,3,5,6), of 0 sz buf NULL] assms(2,4,7) by (simp add: inode_write_at_def base_def)

text \<open>Denied writes change nothing.\<close>

lemma inode_write_at_denied:
  "inodes fs p = Some ino \<Longrightarrow> deny_write_cnt ino \<noteq> 0 \<Longrightarrow> inode_write_at fs p buf sz ofs = Some (fs, 0)"
  by (simp add: inode_write_at_def)

section \<open>Properties\<close>

text \<open>A file system device of 40 sectors with an open inode of 1300 bytes in sectors 7 to 9.\<close>

definition small_fs :: fsys where
  "small_fs = \<lparr>devs = two_partitions, fs_device = 2, open_inodes = [5],
     inodes = [5 \<mapsto> \<lparr>i_sector = 6, open_cnt = 1, removed = False, deny_write_cnt = 0,
       i_data = \<lparr>d_start = 7, d_length = 1300, d_magic = INODE_MAGIC, d_unused = []\<rparr>\<rparr>],
     files = Map.empty, dirs = Map.empty, free_map = \<lparr>bit_cnt = 40, bits = [0, 0]\<rparr>, free_map_file = 0,
     mem_ok = \<lambda>_. True, mem_cnt = 5\<rparr>"

lemma small_fs_ok: "dev_ok small_fs" "ino_ok small_fs (i_data (the (inodes small_fs 5)))"
  using two_partitions_ok(1)
  by (simp_all add: dev_ok_def small_fs_def ino_ok_def nsec_def dev_cap_def dev_size_def two_partitions_def a_block_def)

text \<open>
  C22. Writing and reading back: if memory is available, \<^verbatim>\<open>inode_write_at\<close> writes as many of the given
  bytes as lie before the end of the file, at any alignment, \<^verbatim>\<open>inode_read_at\<close> at the same place returns them,
  and no other byte of the disk changes.
\<close>

theorem inode_write_read:
  assumes "dev_ok fs" "inodes fs p = Some ino" "ino_ok fs (i_data ino)" "deny_write_cnt ino = 0" "0 \<le> ofs" "ofs \<le> 2147483647"
    "nat sz \<le> length buf" "\<forall>k. mem_ok fs k"
  shows "\<exists>fs1 fs2. inode_write_at fs p buf sz ofs = Some (fs1, int (avail (i_data ino) sz ofs))
    \<and> inode_read_at fs1 p sz ofs = Some (fs2, take (avail (i_data ino) sz ofs) buf)
    \<and> (\<forall>x. x < base (i_data ino) + nat ofs \<or> base (i_data ino) + nat ofs + avail (i_data ino) sz ofs \<le> x
         \<longrightarrow> dbyte (img fs1) x = dbyte (img fs) x)"
proof -
  let ?d = "i_data ino" let ?n = "avail ?d sz ofs" let ?bs = "take ?n buf"
  obtain fs1 where w: "inode_write_at fs p buf sz ofs = Some (fs1, int ?n)" "io fs fs1"
      "dbyte (img fs1) = patch (dbyte (img fs)) (base ?d + nat ofs) ?bs"
    using inode_write_at_ok [OF assms(1-7)] assms(8) by auto
  have len: "length ?bs = ?n" using assms(7) unfolding avail_def by simp
  have i: "inodes fs1 p = Some ino" "ino_ok fs1 ?d" "\<forall>k. mem_ok fs1 k"
    using io_sel [OF w(2)] assms(2,3,8) by (simp_all add: ino_ok_def)
  obtain fs2 where r: "inode_read_at fs1 p sz ofs = Some (fs2, take ?n (drop (nat ofs) (contents (dbyte (img fs1)) ?d)))"
    using inode_read_at_ok [OF io_sel(9) [OF w(2)] i(1,2) assms(5,6)] i(3) by blast
  have "take ?n (drop (nat ofs) (contents (dbyte (img fs1)) ?d)) = ?bs"
  proof (cases "?n = 0")
    case False
    then have fit: "nat ofs + length ?bs \<le> nat (d_length ?d)" using len assms(5) unfolding avail_def by linarith
    then show ?thesis unfolding w(3) contents_patch [OF fit] using len
      by (simp add: overlay_def)
  qed simp
  then show ?thesis using w r len by (intro exI [of _ fs1] exI [of _ fs2]) (auto simp: patch_outside)
qed

theorem inode_write_read_witness:
  "\<exists>fs1 fs2. inode_write_at small_fs 5 (replicate 600 9) 600 500
        = Some (fs1, int (avail (i_data (the (inodes small_fs 5))) 600 500))
    \<and> inode_read_at fs1 5 600 500 = Some (fs2, take (avail (i_data (the (inodes small_fs 5))) 600 500) (replicate 600 9))
    \<and> (\<forall>x. x < base (i_data (the (inodes small_fs 5))) + nat 500
         \<or> base (i_data (the (inodes small_fs 5))) + nat 500 + avail (i_data (the (inodes small_fs 5))) 600 500 \<le> x
         \<longrightarrow> dbyte (img fs1) x = dbyte (img small_fs) x)"
  by (rule inode_write_read [OF small_fs_ok(1) _ small_fs_ok(2)]) (simp_all add: small_fs_def)

end
