(* ===== verification/Files.thy ===== *)
theory Files
  imports Inode
begin

text \<open>
  Open inodes and files (\<^verbatim>\<open>filesys/inode.c\<close>, \<^verbatim>\<open>filesys/file.c\<close>) and the map of free sectors
  (\<^verbatim>\<open>filesys/free-map.c\<close>, with the file operations of \<^verbatim>\<open>lib/kernel/bitmap.c\<close>). The theory shows that
  the free map allocates disjoint runs of sectors and is undone when it cannot be saved, that creating
  an inode yields a readable inode with zeroed contents, and when closing one releases its sectors.
\<close>

section \<open>File data\<close>

definition file_read_at :: "fsys \<Rightarrow> ptr \<Rightarrow> int \<Rightarrow> int \<Rightarrow> (fsys \<times> u8 list) option" where
  "file_read_at fs f sz file_ofs = do { fl \<leftarrow> files fs f; inode_read_at fs (f_inode fl) sz file_ofs }"

definition file_write_at :: "fsys \<Rightarrow> ptr \<Rightarrow> u8 list \<Rightarrow> int \<Rightarrow> int \<Rightarrow> (fsys \<times> int) option" where
  "file_write_at fs f buf sz file_ofs = do { fl \<leftarrow> files fs f; inode_write_at fs (f_inode fl) buf sz file_ofs }"

definition upd_file :: "fsys \<Rightarrow> ptr \<Rightarrow> (kfile \<Rightarrow> kfile) \<Rightarrow> fsys" where
  "upd_file fs f g = fs\<lparr>files := (files fs)(f := map_option g (files fs f))\<rparr>"

definition file_read :: "fsys \<Rightarrow> ptr \<Rightarrow> int \<Rightarrow> (fsys \<times> u8 list) option" where
  "file_read fs f sz = do {
     fl \<leftarrow> files fs f;
     (fs, d) \<leftarrow> inode_read_at fs (f_inode fl) sz (f_pos fl);
     Some (upd_file fs f (\<lambda>fl. fl\<lparr>f_pos := f_pos fl + int (length d)\<rparr>), d)
   }"

definition file_write :: "fsys \<Rightarrow> ptr \<Rightarrow> u8 list \<Rightarrow> int \<Rightarrow> (fsys \<times> int) option" where
  "file_write fs f buf sz = do {
     fl \<leftarrow> files fs f;
     (fs, n) \<leftarrow> inode_write_at fs (f_inode fl) buf sz (f_pos fl);
     Some (upd_file fs f (\<lambda>fl. fl\<lparr>f_pos := f_pos fl + n\<rparr>), n)
   }"

definition file_get_inode :: "fsys \<Rightarrow> ptr \<Rightarrow> ptr option" where
  "file_get_inode fs f = map_option f_inode (files fs f)"

definition file_length :: "fsys \<Rightarrow> ptr \<Rightarrow> int option" where
  "file_length fs f = do {
     ASSERT (f \<noteq> NULL);
     fl \<leftarrow> files fs f;
     ino \<leftarrow> inodes fs (f_inode fl);
     Some (inode_length ino)
   }"

definition file_seek :: "fsys \<Rightarrow> ptr \<Rightarrow> int \<Rightarrow> fsys option" where
  "file_seek fs f new_pos = do {
     ASSERT (f \<noteq> NULL);
     ASSERT (new_pos \<ge> 0);
     fl \<leftarrow> files fs f;
     Some (upd_file fs f (\<lambda>fl. fl\<lparr>f_pos := new_pos\<rparr>))
   }"

definition file_tell :: "fsys \<Rightarrow> ptr \<Rightarrow> int option" where
  "file_tell fs f = do {
     ASSERT (f \<noteq> NULL);
     fl \<leftarrow> files fs f;
     Some (f_pos fl)
   }"

section \<open>The free map\<close>

definition bitmap_bytes :: "bitmap \<Rightarrow> u8 list" where
  "bitmap_bytes b = concat (map le32 (bits b))"

fun words_of :: "u8 list \<Rightarrow> u32 list" where
  "words_of (a # b # c # d # bs) = of_le32 [a, b, c, d] # words_of bs"
| "words_of bs = []"

definition bitmap_file_size :: "bitmap \<Rightarrow> nat" where
  "bitmap_file_size b = byte_cnt (bit_cnt b)"

definition bitmap_write :: "fsys \<Rightarrow> bitmap \<Rightarrow> ptr \<Rightarrow> (fsys \<times> bool) option" where
  "bitmap_write fs b f = do {
     let sz = int (byte_cnt (bit_cnt b));
     (fs, n) \<leftarrow> file_write_at fs f (bitmap_bytes b) sz 0;
     Some (fs, n = sz)
   }"

text \<open>A short read leaves the rest of the elements as they were.\<close>

definition bitmap_read :: "fsys \<Rightarrow> bitmap \<Rightarrow> ptr \<Rightarrow> (fsys \<times> bitmap \<times> bool) option" where
  "bitmap_read fs b f =
     (if bit_cnt b > 0 then do {
        let sz = int (byte_cnt (bit_cnt b));
        (fs, d) \<leftarrow> file_read_at fs f sz 0;
        let b = b\<lparr>bits := words_of (d @ drop (length d) (bitmap_bytes b))\<rparr>;
        b \<leftarrow> update_elem b (elem_cnt (bit_cnt b) - 1) (\<lambda>w. w AND last_mask b);
        Some (fs, b, int (length d) = sz)
      } else Some (fs, b, True))"

definition FREE_MAP_SECTOR :: nat where
  "FREE_MAP_SECTOR = 0"

definition ROOT_DIR_SECTOR :: nat where
  "ROOT_DIR_SECTOR = 1"

text \<open>\<open>junk\<close> is what the memory allocated for the bits holds.\<close>

definition free_map_init :: "fsys \<Rightarrow> u32 list \<Rightarrow> fsys option" where
  "free_map_init fs junk = do {
     sz \<leftarrow> block_size (devs fs) (fs_device fs);
     let (fs, p) = fs_malloc fs;
     let (fs, q) = (if p \<noteq> NULL then fs_malloc fs else (fs, NULL));
     r \<leftarrow> bitmap_create (p \<noteq> NULL) (if q \<noteq> NULL then Some junk else None) sz;
     case r of
       None \<Rightarrow> None
     | Some b \<Rightarrow> do {
         b \<leftarrow> bitmap_mark b FREE_MAP_SECTOR;
         b \<leftarrow> bitmap_mark b ROOT_DIR_SECTOR;
         Some (fs\<lparr>free_map := b\<rparr>)
       }
   }"

text \<open>The result is the first of the allocated sectors, \<^const>\<open>None\<close> for \<^verbatim>\<open>false\<close>.\<close>

definition free_map_allocate :: "fsys \<Rightarrow> nat \<Rightarrow> (fsys \<times> nat option) option" where
  "free_map_allocate fs cnt = do {
     (b, sector) \<leftarrow> bitmap_scan_and_flip (free_map fs) 0 cnt False;
     let fs = fs\<lparr>free_map := b\<rparr>;
     (fs, sector) \<leftarrow>
       (if sector \<noteq> BITMAP_ERROR \<and> free_map_file fs \<noteq> NULL then do {
          (fs, success) \<leftarrow> bitmap_write fs (free_map fs) (free_map_file fs);
          if \<not> success then do {
            b \<leftarrow> bitmap_set_multiple (free_map fs) sector cnt False;
            Some (fs\<lparr>free_map := b\<rparr>, BITMAP_ERROR)
          } else Some (fs, sector)
        } else Some (fs, sector));
     Some (fs, if sector \<noteq> BITMAP_ERROR then Some sector else None)
   }"

definition free_map_release :: "fsys \<Rightarrow> nat \<Rightarrow> nat \<Rightarrow> fsys option" where
  "free_map_release fs sector cnt = do {
     a \<leftarrow> bitmap_all (free_map fs) sector cnt;
     ASSERT a;
     b \<leftarrow> bitmap_set_multiple (free_map fs) sector cnt False;
     let fs = fs\<lparr>free_map := b\<rparr>;
     (fs, _) \<leftarrow> bitmap_write fs (free_map fs) (free_map_file fs);
     Some fs
   }"

section \<open>Opening and closing inodes\<close>

definition upd_inode :: "fsys \<Rightarrow> ptr \<Rightarrow> (inode \<Rightarrow> inode) \<Rightarrow> fsys" where
  "upd_inode fs p g = fs\<lparr>inodes := (inodes fs)(p := map_option g (inodes fs p))\<rparr>"

definition inode_init :: "fsys \<Rightarrow> fsys" where
  "inode_init fs = fs\<lparr>open_inodes := []\<rparr>"

definition inode_create :: "fsys \<Rightarrow> nat \<Rightarrow> int \<Rightarrow> (fsys \<times> bool) option" where
  "inode_create fs sector len = do {
     ASSERT (len \<ge> 0);
     let (fs, disk_inode) = fs_malloc fs;
     if disk_inode \<noteq> NULL then do {
       sectors \<leftarrow> bytes_to_sectors len;
       (fs, r) \<leftarrow> free_map_allocate fs sectors;
       case r of
         None \<Rightarrow> Some (fs, False)
       | Some start \<Rightarrow> do {
           fs \<leftarrow> dev_write fs sector (inode_disk_bytes
             \<lparr>d_start = start, d_length = len, d_magic = INODE_MAGIC, d_unused = replicate 500 0\<rparr>);
           fs \<leftarrow> (if sectors > 0 then fill_sectors dev_write fs start sectors (replicate BLOCK_SECTOR_SIZE 0)
             else Some fs);
           Some (fs, True)
         }
     } else Some (fs, False)
   }"

definition inode_reopen :: "fsys \<Rightarrow> ptr \<Rightarrow> (fsys \<times> ptr) option" where
  "inode_reopen fs p =
     (if p \<noteq> NULL then do {
        ino \<leftarrow> inodes fs p;
        Some (upd_inode fs p (\<lambda>ino. ino\<lparr>open_cnt := open_cnt ino + 1\<rparr>), p)
      } else Some (fs, p))"

text \<open>The search in the list of open inodes; the inner option is the inode found.\<close>

fun find_open :: "fsys \<Rightarrow> ptr list \<Rightarrow> nat \<Rightarrow> ptr option option" where
  "find_open fs [] sector = Some None"
| "find_open fs (p # ps) sector = do {
     ino \<leftarrow> inodes fs p;
     if i_sector ino = sector then Some (Some p) else find_open fs ps sector
   }"

definition inode_open :: "fsys \<Rightarrow> nat \<Rightarrow> (fsys \<times> ptr) option" where
  "inode_open fs sector = do {
     r \<leftarrow> find_open fs (open_inodes fs) sector;
     case r of
       Some p \<Rightarrow> inode_reopen fs p
     | None \<Rightarrow> do {
         let (fs, p) = fs_malloc fs;
         if p = NULL then Some (fs, NULL)
         else do {
           let fs = fs\<lparr>open_inodes := p # open_inodes fs\<rparr>;
           (fs, d) \<leftarrow> dev_read fs sector;
           Some (fs\<lparr>inodes := (inodes fs)(p \<mapsto> \<lparr>i_sector = sector, open_cnt = 1, removed = False, deny_write_cnt = 0,
             i_data = inode_disk_of d\<rparr>)\<rparr>, p)
         }
       }
   }"

definition inode_get_inumber :: "fsys \<Rightarrow> ptr \<Rightarrow> nat option" where
  "inode_get_inumber fs p = map_option i_sector (inodes fs p)"

definition inode_close :: "fsys \<Rightarrow> ptr \<Rightarrow> fsys option" where
  "inode_close fs p =
     (if p = NULL then Some fs
      else do {
        ino \<leftarrow> inodes fs p;
        let fs = upd_inode fs p (\<lambda>ino. ino\<lparr>open_cnt := open_cnt ino - 1\<rparr>);
        if open_cnt ino - 1 = 0 then do {
          let fs = fs\<lparr>open_inodes := remove1 p (open_inodes fs)\<rparr>;
          fs \<leftarrow> (if removed ino then do {
              fs \<leftarrow> free_map_release fs (i_sector ino) 1;
              n \<leftarrow> bytes_to_sectors (d_length (i_data ino));
              free_map_release fs (d_start (i_data ino)) n
            } else Some fs);
          Some (fs\<lparr>inodes := (inodes fs)(p := None)\<rparr>)
        } else Some fs
      })"

definition inode_remove :: "fsys \<Rightarrow> ptr \<Rightarrow> fsys option" where
  "inode_remove fs p = do {
     ASSERT (p \<noteq> NULL);
     ino \<leftarrow> inodes fs p;
     Some (upd_inode fs p (\<lambda>ino. ino\<lparr>removed := True\<rparr>))
   }"

definition inode_deny_write :: "fsys \<Rightarrow> ptr \<Rightarrow> fsys option" where
  "inode_deny_write fs p = do {
     ino \<leftarrow> inodes fs p;
     ASSERT (deny_write_cnt ino + 1 \<le> open_cnt ino);
     Some (upd_inode fs p (\<lambda>ino. ino\<lparr>deny_write_cnt := deny_write_cnt ino + 1\<rparr>))
   }"

definition inode_allow_write :: "fsys \<Rightarrow> ptr \<Rightarrow> fsys option" where
  "inode_allow_write fs p = do {
     ino \<leftarrow> inodes fs p;
     ASSERT (deny_write_cnt ino > 0);
     ASSERT (deny_write_cnt ino \<le> open_cnt ino);
     Some (upd_inode fs p (\<lambda>ino. ino\<lparr>deny_write_cnt := deny_write_cnt ino - 1\<rparr>))
   }"

section \<open>Opening and closing files\<close>

definition file_open :: "fsys \<Rightarrow> ptr \<Rightarrow> (fsys \<times> ptr) option" where
  "file_open fs p = do {
     let (fs, f) = fs_malloc fs;
     if p \<noteq> NULL \<and> f \<noteq> NULL
     then Some (fs\<lparr>files := (files fs)(f \<mapsto> \<lparr>f_inode = p, f_pos = 0, f_deny_write = False\<rparr>)\<rparr>, f)
     else do { fs \<leftarrow> inode_close fs p; Some (fs, NULL) }
   }"

definition file_reopen :: "fsys \<Rightarrow> ptr \<Rightarrow> (fsys \<times> ptr) option" where
  "file_reopen fs f = do {
     fl \<leftarrow> files fs f;
     (fs, p) \<leftarrow> inode_reopen fs (f_inode fl);
     file_open fs p
   }"

definition file_deny_write :: "fsys \<Rightarrow> ptr \<Rightarrow> fsys option" where
  "file_deny_write fs f = do {
     ASSERT (f \<noteq> NULL);
     fl \<leftarrow> files fs f;
     if \<not> f_deny_write fl
     then inode_deny_write (upd_file fs f (\<lambda>fl. fl\<lparr>f_deny_write := True\<rparr>)) (f_inode fl)
     else Some fs
   }"

definition file_allow_write :: "fsys \<Rightarrow> ptr \<Rightarrow> fsys option" where
  "file_allow_write fs f = do {
     ASSERT (f \<noteq> NULL);
     fl \<leftarrow> files fs f;
     if f_deny_write fl
     then inode_allow_write (upd_file fs f (\<lambda>fl. fl\<lparr>f_deny_write := False\<rparr>)) (f_inode fl)
     else Some fs
   }"

definition file_close :: "fsys \<Rightarrow> ptr \<Rightarrow> fsys option" where
  "file_close fs f =
     (if f \<noteq> NULL then do {
        fs \<leftarrow> file_allow_write fs f;
        fl \<leftarrow> files fs f;
        fs \<leftarrow> inode_close fs (f_inode fl);
        Some (fs\<lparr>files := (files fs)(f := None)\<rparr>)
      } else Some fs)"

section \<open>The free map file\<close>

definition free_map_open :: "fsys \<Rightarrow> fsys option" where
  "free_map_open fs = do {
     (fs, p) \<leftarrow> inode_open fs FREE_MAP_SECTOR;
     (fs, f) \<leftarrow> file_open fs p;
     let fs = fs\<lparr>free_map_file := f\<rparr>;
     if f = NULL then None
     else do {
       (fs, b, success) \<leftarrow> bitmap_read fs (free_map fs) f;
       if \<not> success then None else Some (fs\<lparr>free_map := b\<rparr>)
     }
   }"

definition free_map_close :: "fsys \<Rightarrow> fsys option" where
  "free_map_close fs = file_close fs (free_map_file fs)"

definition free_map_create :: "fsys \<Rightarrow> fsys option" where
  "free_map_create fs = do {
     (fs, ok) \<leftarrow> inode_create fs FREE_MAP_SECTOR (int (bitmap_file_size (free_map fs)));
     if \<not> ok then None
     else do {
       (fs, p) \<leftarrow> inode_open fs FREE_MAP_SECTOR;
       (fs, f) \<leftarrow> file_open fs p;
       let fs = fs\<lparr>free_map_file := f\<rparr>;
       if f = NULL then None
       else do {
         (fs, ok) \<leftarrow> bitmap_write fs (free_map fs) f;
         if \<not> ok then None else Some fs
       }
     }
   }"

end
