(* ===== verification/Directory.thy ===== *)
theory Directory
  imports Files
begin

text \<open>
  Directories (\<^verbatim>\<open>filesys/directory.c\<close>) and the file system as a whole (\<^verbatim>\<open>filesys/filesys.c\<close>). A directory
  is a file of entries of 20 bytes: sector of the inode, name of at most 14 characters in an
  array of 15, and whether the entry is in use. The theory shows that the operations of a
  directory implement a finite map from names to sectors.
\<close>

section \<open>Entries\<close>

definition NAME_MAX :: nat where
  "NAME_MAX = 14"

definition ENTRY_SIZE :: nat where
  "ENTRY_SIZE = 4 + (NAME_MAX + 1) + 1"

text \<open>An entry in memory is its bytes; names are C strings without the final null.\<close>

definition de_sector :: "u8 list \<Rightarrow> nat" where
  "de_sector e = unat (of_le32 e)"

definition de_name :: "u8 list \<Rightarrow> u8 list" where
  "de_name e = takeWhile (\<lambda>c. c \<noteq> 0) (take (NAME_MAX + 1) (drop 4 e))"

definition de_in_use :: "u8 list \<Rightarrow> bool" where
  "de_in_use e \<longleftrightarrow> e ! 19 \<noteq> 0"

definition set_in_use :: "u8 list \<Rightarrow> bool \<Rightarrow> u8 list" where
  "set_in_use e v = overlay e 19 [of_bool v]"

text \<open>\<^verbatim>\<open>strlcpy\<close> into the name array.\<close>

definition set_name :: "u8 list \<Rightarrow> u8 list \<Rightarrow> u8 list" where
  "set_name e name = overlay e 4 (take NAME_MAX name @ [0])"

definition set_sector :: "u8 list \<Rightarrow> nat \<Rightarrow> u8 list" where
  "set_sector e s = overlay e 0 (le32 (word_of_nat s))"

section \<open>Opening and closing\<close>

definition dir_create :: "fsys \<Rightarrow> nat \<Rightarrow> nat \<Rightarrow> (fsys \<times> bool) option" where
  "dir_create fs sector entry_cnt = inode_create fs sector (int (mul32 entry_cnt ENTRY_SIZE))"

definition dir_open :: "fsys \<Rightarrow> ptr \<Rightarrow> (fsys \<times> ptr) option" where
  "dir_open fs p = do {
     let (fs, d) = fs_malloc fs;
     if p \<noteq> NULL \<and> d \<noteq> NULL then Some (fs\<lparr>dirs := (dirs fs)(d \<mapsto> \<lparr>dir_inode = p, dir_pos = 0\<rparr>)\<rparr>, d)
     else do { fs \<leftarrow> inode_close fs p; Some (fs, NULL) }
   }"

definition dir_open_root :: "fsys \<Rightarrow> (fsys \<times> ptr) option" where
  "dir_open_root fs = do { (fs, p) \<leftarrow> inode_open fs ROOT_DIR_SECTOR; dir_open fs p }"

definition dir_reopen :: "fsys \<Rightarrow> ptr \<Rightarrow> (fsys \<times> ptr) option" where
  "dir_reopen fs d = do {
     dr \<leftarrow> dirs fs d;
     (fs, p) \<leftarrow> inode_reopen fs (dir_inode dr);
     dir_open fs p
   }"

definition dir_close :: "fsys \<Rightarrow> ptr \<Rightarrow> fsys option" where
  "dir_close fs d =
     (if d \<noteq> NULL then do {
        dr \<leftarrow> dirs fs d;
        fs \<leftarrow> inode_close fs (dir_inode dr);
        Some (fs\<lparr>dirs := (dirs fs)(d := None)\<rparr>)
      } else Some fs)"

definition dir_get_inode :: "fsys \<Rightarrow> ptr \<Rightarrow> ptr option" where
  "dir_get_inode fs d = map_option dir_inode (dirs fs d)"

section \<open>Searching and changing\<close>

text \<open>The entry found and its offset.\<close>

partial_function (option) lookup_loop :: "fsys \<Rightarrow> ptr \<Rightarrow> u8 list \<Rightarrow> nat \<Rightarrow> (fsys \<times> (u8 list \<times> nat) option) option" where
  "lookup_loop fs p name ofs = do {
     (fs, e) \<leftarrow> inode_read_at fs p (int ENTRY_SIZE) (int ofs);
     if length e = ENTRY_SIZE then
       if de_in_use e \<and> de_name e = name then Some (fs, Some (e, ofs))
       else lookup_loop fs p name (ofs + ENTRY_SIZE)
     else Some (fs, None)
   }"

definition lookup :: "fsys \<Rightarrow> ptr \<Rightarrow> u8 list \<Rightarrow> (fsys \<times> (u8 list \<times> nat) option) option" where
  "lookup fs d name = do {
     ASSERT (d \<noteq> NULL);
     dr \<leftarrow> dirs fs d;
     lookup_loop fs (dir_inode dr) name 0
   }"

definition dir_lookup :: "fsys \<Rightarrow> ptr \<Rightarrow> u8 list \<Rightarrow> (fsys \<times> ptr) option" where
  "dir_lookup fs d name = do {
     (fs, r) \<leftarrow> lookup fs d name;
     case r of
       Some (e, ofs) \<Rightarrow> inode_open fs (de_sector e)
     | None \<Rightarrow> Some (fs, NULL)
   }"

text \<open>
  The search for a free entry. \<open>e\<close> is the variable of the function, uninitialised at first; a read
  overwrites as much of it as was read.
\<close>

partial_function (option) free_slot_loop :: "fsys \<Rightarrow> ptr \<Rightarrow> u8 list \<Rightarrow> nat \<Rightarrow> (fsys \<times> u8 list \<times> nat) option" where
  "free_slot_loop fs p e ofs = do {
     (fs, d) \<leftarrow> inode_read_at fs p (int ENTRY_SIZE) (int ofs);
     let e = d @ drop (length d) e;
     if length d = ENTRY_SIZE then
       if \<not> de_in_use e then Some (fs, e, ofs)
       else free_slot_loop fs p e (ofs + ENTRY_SIZE)
     else Some (fs, e, ofs)
   }"

definition dir_add :: "fsys \<Rightarrow> ptr \<Rightarrow> u8 list \<Rightarrow> nat \<Rightarrow> u8 list \<Rightarrow> (fsys \<times> bool) option" where
  "dir_add fs d name inode_sector e0 = do {
     ASSERT (d \<noteq> NULL);
     if name = [] \<or> length name > NAME_MAX then Some (fs, False)
     else do {
       (fs, r) \<leftarrow> lookup fs d name;
       if r \<noteq> None then Some (fs, False)
       else do {
         dr \<leftarrow> dirs fs d;
         (fs, e, ofs) \<leftarrow> free_slot_loop fs (dir_inode dr) e0 0;
         let e = set_sector (set_name (set_in_use e True) name) inode_sector;
         (fs, n) \<leftarrow> inode_write_at fs (dir_inode dr) e (int ENTRY_SIZE) (int ofs);
         Some (fs, n = int ENTRY_SIZE)
       }
     }
   }"

definition dir_remove :: "fsys \<Rightarrow> ptr \<Rightarrow> u8 list \<Rightarrow> (fsys \<times> bool) option" where
  "dir_remove fs d name = do {
     ASSERT (d \<noteq> NULL);
     (fs, r) \<leftarrow> lookup fs d name;
     case r of
       None \<Rightarrow> Some (fs, False)
     | Some (e, ofs) \<Rightarrow> do {
         (fs, p) \<leftarrow> inode_open fs (de_sector e);
         if p = NULL then Some (fs, False)
         else do {
           dr \<leftarrow> dirs fs d;
           (fs, n) \<leftarrow> inode_write_at fs (dir_inode dr) (set_in_use e False) (int ENTRY_SIZE) (int ofs);
           if n \<noteq> int ENTRY_SIZE then do { fs \<leftarrow> inode_close fs p; Some (fs, False) }
           else do {
             fs \<leftarrow> inode_remove fs p;
             fs \<leftarrow> inode_close fs p;
             Some (fs, True)
           }
         }
       }
   }"

text \<open>The name read, or \<^const>\<open>None\<close> at the end.\<close>

partial_function (option) readdir_loop :: "fsys \<Rightarrow> ptr \<Rightarrow> ptr \<Rightarrow> (fsys \<times> u8 list option) option" where
  "readdir_loop fs d p = do {
     dr \<leftarrow> dirs fs d;
     (fs, e) \<leftarrow> inode_read_at fs p (int ENTRY_SIZE) (dir_pos dr);
     if length e = ENTRY_SIZE then do {
       let fs = fs\<lparr>dirs := (dirs fs)(d \<mapsto> dr\<lparr>dir_pos := dir_pos dr + int ENTRY_SIZE\<rparr>)\<rparr>;
       if de_in_use e then Some (fs, Some (take NAME_MAX (de_name e))) else readdir_loop fs d p
     } else Some (fs, None)
   }"

definition dir_readdir :: "fsys \<Rightarrow> ptr \<Rightarrow> (fsys \<times> u8 list option) option" where
  "dir_readdir fs d = do { dr \<leftarrow> dirs fs d; readdir_loop fs d (dir_inode dr) }"

section \<open>The file system\<close>

definition do_format :: "fsys \<Rightarrow> fsys option" where
  "do_format fs = do {
     fs \<leftarrow> free_map_create fs;
     (fs, ok) \<leftarrow> dir_create fs ROOT_DIR_SECTOR 16;
     if \<not> ok then None else free_map_close fs
   }"

definition filesys_init :: "fsys \<Rightarrow> bool \<Rightarrow> u32 list \<Rightarrow> fsys option" where
  "filesys_init fs format junk = do {
     b \<leftarrow> block_get_role (devs fs) BLOCK_FILESYS;
     if b = NULL then None
     else do {
       fs \<leftarrow> free_map_init (inode_init (fs\<lparr>fs_device := b\<rparr>)) junk;
       fs \<leftarrow> (if format then do_format fs else Some fs);
       free_map_open fs
     }
   }"

definition filesys_done :: "fsys \<Rightarrow> fsys option" where
  "filesys_done fs = free_map_close fs"

text \<open>
  \<open>e0\<close> is the uninitialised entry in \<^verbatim>\<open>dir_add\<close>. The variable \<^verbatim>\<open>inode_sector\<close> is 0 until a sector has been
  allocated for the inode.
\<close>

definition filesys_create :: "fsys \<Rightarrow> u8 list \<Rightarrow> int \<Rightarrow> u8 list \<Rightarrow> (fsys \<times> bool) option" where
  "filesys_create fs name initial_size e0 = do {
     (fs, d) \<leftarrow> dir_open_root fs;
     (fs, success, inode_sector) \<leftarrow>
       (if d \<noteq> NULL then do {
          (fs, r) \<leftarrow> free_map_allocate fs 1;
          case r of
            None \<Rightarrow> Some (fs, False, 0)
          | Some s \<Rightarrow> do {
              (fs, ok) \<leftarrow> inode_create fs s initial_size;
              if ok then do { (fs, ok) \<leftarrow> dir_add fs d name s e0; Some (fs, ok, s) }
              else Some (fs, False, s)
            }
        } else Some (fs, False, 0));
     fs \<leftarrow> (if \<not> success \<and> inode_sector \<noteq> 0 then free_map_release fs inode_sector 1 else Some fs);
     fs \<leftarrow> dir_close fs d;
     Some (fs, success)
   }"

definition filesys_open :: "fsys \<Rightarrow> u8 list \<Rightarrow> (fsys \<times> ptr) option" where
  "filesys_open fs name = do {
     (fs, d) \<leftarrow> dir_open_root fs;
     (fs, p) \<leftarrow> (if d \<noteq> NULL then dir_lookup fs d name else Some (fs, NULL));
     fs \<leftarrow> dir_close fs d;
     file_open fs p
   }"

definition filesys_remove :: "fsys \<Rightarrow> u8 list \<Rightarrow> (fsys \<times> bool) option" where
  "filesys_remove fs name = do {
     (fs, d) \<leftarrow> dir_open_root fs;
     (fs, success) \<leftarrow> (if d \<noteq> NULL then dir_remove fs d name else Some (fs, False));
     fs \<leftarrow> dir_close fs d;
     Some (fs, success)
   }"

section \<open>Directories as lists of slots\<close>

definition slots :: "u8 list \<Rightarrow> u8 list list" where
  "slots C = map (\<lambda>k. take 20 (drop (20 * k) C)) [0..<length C div 20]"

fun first_match :: "(u8 list \<Rightarrow> bool) \<Rightarrow> u8 list list \<Rightarrow> nat \<Rightarrow> (u8 list \<times> nat) option" where
  "first_match P [] k = None"
| "first_match P (e # es) k = (if P e then Some (e, 20 * k) else first_match P es (Suc k))"

definition entry_for :: "u8 list \<Rightarrow> u8 list \<Rightarrow> bool" where
  "entry_for name e \<longleftrightarrow> de_in_use e \<and> de_name e = name"

definition dir_map :: "u8 list \<Rightarrow> u8 list \<Rightarrow> nat option" where
  "dir_map C name = map_option (de_sector \<circ> fst) (first_match (entry_for name) (slots C) 0)"

lemma ENTRY_SIZE_20 [simp]: "ENTRY_SIZE = 20"
  by (simp add: ENTRY_SIZE_def NAME_MAX_def)

lemma length_slots [simp]: "length (slots C) = length C div 20"
  by (simp add: slots_def)

lemma nth_slots: "k < length C div 20 \<Longrightarrow> slots C ! k = take 20 (drop (20 * k) C)"
  by (simp add: slots_def)

lemma slot_inside: "k < n div 20 \<Longrightarrow> 20 * k + 20 \<le> n" for n :: nat
proof -
  assume "k < n div 20"
  then have "Suc k * 20 \<le> n" by (simp add: less_eq_div_iff_mult_less_eq [symmetric] Suc_le_eq del: mult_Suc)
  then show ?thesis by simp
qed

lemma slot_outside: "\<not> k < n div 20 \<Longrightarrow> n < 20 * k + 20" for n :: nat
proof -
  assume "\<not> k < n div 20"
  then have "n div 20 < Suc k" by simp
  then have "n < Suc k * 20" by (simp add: div_less_iff_less_mult del: mult_Suc)
  then show ?thesis by simp
qed

lemma length_slot: "e \<in> set (slots C) \<Longrightarrow> length e = 20"
  using slot_inside by (fastforce simp: slots_def)

lemma first_match_None: "first_match P es k = None \<longleftrightarrow> (\<forall>e \<in> set es. \<not> P e)"
  by (induction P es k rule: first_match.induct) auto

lemma first_match_Some:
  "first_match P es k = Some (e, ofs) \<longleftrightarrow> (\<exists>i < length es. ofs = 20 * (k + i) \<and> e = es ! i \<and> P e \<and> (\<forall>j < i. \<not> P (es ! j)))"
proof (induction P es k rule: first_match.induct)
  case (2 P x xs k)
  show ?case
  proof (cases "P x")
    case True
    then show ?thesis by (auto simp: nth_Cons' intro: exI [of _ 0])
  next
    case False
    then have "first_match P (x # xs) k = Some (e, ofs)
        \<longleftrightarrow> (\<exists>i < length xs. ofs = 20 * (Suc k + i) \<and> e = xs ! i \<and> P e \<and> (\<forall>j < i. \<not> P (xs ! j)))"
      using 2 by simp
    also have "\<dots> \<longleftrightarrow> (\<exists>i < length (x # xs). ofs = 20 * (k + i) \<and> e = (x # xs) ! i \<and> P e \<and> (\<forall>j < i. \<not> P ((x # xs) ! j)))"
      unfolding Ex_less_Suc2 length_Cons using False by (auto simp: All_less_Suc2)
    finally show ?thesis .
  qed
qed simp

text \<open>The state of a directory that can be searched and changed.\<close>

definition dir_ready :: "fsys \<Rightarrow> ptr \<Rightarrow> inode \<Rightarrow> bool" where
  "dir_ready fs p ino \<longleftrightarrow> dev_ok fs \<and> inodes fs p = Some ino \<and> ino_ok fs (i_data ino) \<and> (\<forall>k. mem_ok fs k)"

abbreviation dir_bytes :: "fsys \<Rightarrow> inode \<Rightarrow> u8 list" where
  "dir_bytes fs ino \<equiv> contents (dbyte (img fs)) (i_data ino)"

lemma dir_ready_io: "dir_ready fs p ino \<Longrightarrow> io fs fs' \<Longrightarrow> dir_ready fs' p ino"
  using io_sel [of fs fs'] by (simp add: dir_ready_def ino_ok_def)

lemma read_slot:
  assumes "dir_ready fs p ino" "20 * k \<le> nat (d_length (i_data ino))"
  shows "\<exists>fs' d. inode_read_at fs p 20 (int (20 * k)) = Some (fs', d) \<and> io fs fs' \<and> img fs' = img fs
    \<and> (if k < length (slots (dir_bytes fs ino)) then d = slots (dir_bytes fs ino) ! k \<and> length d = 20 else length d < 20)"
proof -
  let ?d = "i_data ino" and ?C = "dir_bytes fs ino"
  have L: "0 \<le> d_length ?d" "d_length ?d \<le> 2147483135" using assms(1) by (auto simp: dir_ready_def ino_ok_def)
  have ofs: "0 \<le> int (20 * k)" "int (20 * k) \<le> 2147483647" using assms(2) L by linarith+
  obtain fs' where r: "inode_read_at fs p 20 (int (20 * k)) = Some (fs', take (avail ?d 20 (int (20 * k))) (drop (20 * k) ?C))"
      "io fs fs'" "img fs' = img fs"
    using inode_read_at_ok [of fs p ino "int (20 * k)" 20] assms(1) ofs unfolding nat_int by (auto simp: dir_ready_def)
  have "if k < length (slots ?C) then avail ?d 20 (int (20 * k)) = 20 else avail ?d 20 (int (20 * k)) < 20"
    using slot_inside [of k "nat (d_length ?d)"] slot_outside [of k "nat (d_length ?d)"] L(1) unfolding avail_def by auto
  then show ?thesis using r nth_slots [of k ?C] length_slot [of "slots ?C ! k" ?C]
    by (auto split: if_splits)
qed

lemma lookup_loop_ok:
  assumes "dir_ready fs p ino" "k \<le> length (slots (dir_bytes fs ino))"
  shows "\<exists>fs'. lookup_loop fs p name (20 * k) = Some (fs', first_match (entry_for name) (drop k (slots (dir_bytes fs ino))) k)
    \<and> io fs fs' \<and> img fs' = img fs"
  using assms
proof (induction "length (slots (dir_bytes fs ino)) - k" arbitrary: fs k)
  case 0
  let ?S = "slots (dir_bytes fs ino)"
  have k: "k = length ?S" using 0 by simp
  then have "20 * k \<le> nat (d_length (i_data ino))" by simp
  from read_slot [OF 0(2) this] obtain fs' d where
    "inode_read_at fs p 20 (int (20 * k)) = Some (fs', d)" "io fs fs'" "img fs' = img fs" "length d < 20"
    using k by auto
  then show ?case using k by (subst lookup_loop.simps) simp
next
  case (Suc n)
  let ?S = "slots (dir_bytes fs ino)"
  have k: "k < length ?S" using Suc.hyps(2) by simp
  then have "20 * k \<le> nat (d_length (i_data ino))" using slot_inside [of k "nat (d_length (i_data ino))"] by simp
  from read_slot [OF Suc.prems(1) this] obtain fs1 where
    r: "inode_read_at fs p 20 (int (20 * k)) = Some (fs1, ?S ! k)" "io fs fs1" "img fs1 = img fs" "length (?S ! k) = 20"
    using k by auto
  have d: "drop k ?S = ?S ! k # drop (Suc k) ?S" using k by (simp add: Cons_nth_drop_Suc)
  show ?case
  proof (cases "entry_for name (?S ! k)")
    case True
    then show ?thesis using r d by (subst lookup_loop.simps) (simp add: entry_for_def)
  next
    case False
    have "\<exists>fs'. lookup_loop fs1 p name (20 * Suc k) = Some (fs', first_match (entry_for name) (drop (Suc k) ?S) (Suc k))
        \<and> io fs1 fs' \<and> img fs' = img fs1"
      using Suc.hyps(1) [of fs1 "Suc k"] Suc.hyps(2) dir_ready_io [OF Suc.prems(1) r(2)] k by (simp add: r(3))
    moreover have "lookup_loop fs p name (20 * k) = lookup_loop fs1 p name (20 * Suc k)"
      using r False by (subst lookup_loop.simps) (auto simp: entry_for_def add.commute)
    ultimately show ?thesis using False d io_trans [OF r(2)] r(3) by auto
  qed
qed

lemma free_slot_loop_ok:
  assumes "dir_ready fs p ino" "k \<le> length (slots (dir_bytes fs ino))" "length e = 20"
  shows "\<exists>fs' e'. free_slot_loop fs p e (20 * k) = Some (fs', e', case first_match (\<lambda>e. \<not> de_in_use e) (drop k (slots (dir_bytes fs ino))) k of
        None \<Rightarrow> 20 * length (slots (dir_bytes fs ino)) | Some (_, ofs) \<Rightarrow> ofs)
    \<and> io fs fs' \<and> img fs' = img fs \<and> length e' = 20"
  using assms
proof (induction "length (slots (dir_bytes fs ino)) - k" arbitrary: fs k e)
  case 0
  let ?S = "slots (dir_bytes fs ino)"
  have k: "k = length ?S" using 0 by simp
  then have "20 * k \<le> nat (d_length (i_data ino))" by simp
  from read_slot [OF 0(2) this] obtain fs' d where
    "inode_read_at fs p 20 (int (20 * k)) = Some (fs', d)" "io fs fs'" "img fs' = img fs" "length d < 20"
    using k by auto
  then show ?case using k 0(4) by (subst free_slot_loop.simps) (simp add: Let_def)
next
  case (Suc n)
  let ?S = "slots (dir_bytes fs ino)"
  have k: "k < length ?S" using Suc.hyps(2) by simp
  then have "20 * k \<le> nat (d_length (i_data ino))" using slot_inside [of k "nat (d_length (i_data ino))"] by simp
  from read_slot [OF Suc.prems(1) this] obtain fs1 where
    r: "inode_read_at fs p 20 (int (20 * k)) = Some (fs1, ?S ! k)" "io fs fs1" "img fs1 = img fs" "length (?S ! k) = 20"
    using k by auto
  have d: "drop k ?S = ?S ! k # drop (Suc k) ?S" using k by (simp add: Cons_nth_drop_Suc)
  have e: "?S ! k @ drop (length (?S ! k)) e = ?S ! k" using r(4) Suc.prems(3) by simp
  show ?case
  proof (cases "de_in_use (?S ! k)")
    case False
    then show ?thesis using r d e by (subst free_slot_loop.simps) (simp add: Let_def)
  next
    case True
    have "\<exists>fs' e'. free_slot_loop fs1 p (?S ! k) (20 * Suc k) = Some (fs', e', case first_match (\<lambda>e. \<not> de_in_use e) (drop (Suc k) ?S) (Suc k) of
        None \<Rightarrow> 20 * length ?S | Some (_, ofs) \<Rightarrow> ofs) \<and> io fs1 fs' \<and> img fs' = img fs1 \<and> length e' = 20"
      using Suc.hyps(1) [of fs1 "Suc k" "?S ! k"] Suc.hyps(2) dir_ready_io [OF Suc.prems(1) r(2)] k r(4) unfolding r(3) by simp
    moreover have "free_slot_loop fs p e (20 * k) = free_slot_loop fs1 p (?S ! k) (20 * Suc k)"
      using r True e by (subst free_slot_loop.simps) (simp add: Let_def add.commute)
    ultimately show ?thesis using True d io_trans [OF r(2)] r(3) by auto
  qed
qed

section \<open>Changing entries\<close>

definition new_entry :: "u8 list \<Rightarrow> u8 list \<Rightarrow> nat \<Rightarrow> u8 list" where
  "new_entry e name sec = set_sector (set_name (set_in_use e True) name) sec"

lemma takeWhile_name: "0 \<notin> set name \<Longrightarrow> takeWhile (\<lambda>c. c \<noteq> (0 :: u8)) (name @ 0 # bs) = name"
  by (induction name) auto

lemma new_entry_ok:
  assumes "length e = 20" "length name \<le> 14" "0 \<notin> set name" "sec < two32"
  shows "length (new_entry e name sec) = 20" "de_in_use (new_entry e name sec)" "de_name (new_entry e name sec) = name"
    "de_sector (new_entry e name sec) = sec"
proof -
  define e1 where "e1 = set_in_use e True"
  have e1: "length e1 = 20" "e1 ! 19 = 1" using assms(1) by (simp_all add: e1_def set_in_use_def nth_overlay)
  have n: "set_name e1 name = take 4 e1 @ name @ 0 # drop (5 + length name) e1" "length (set_name e1 name) = 20"
    using e1 assms(2) by (simp_all add: set_name_def overlay_def NAME_MAX_def)
  have eq: "new_entry e name sec = le32 (word_of_nat sec) @ name @ 0 # drop (5 + length name) e1"
    unfolding new_entry_def e1_def [symmetric] set_sector_def overlay_def using n e1 by simp
  show "length (new_entry e name sec) = 20" using eq e1 assms(2) by simp
  show "de_in_use (new_entry e name sec)"
    unfolding de_in_use_def eq using e1 assms(2) by (auto simp: nth_append nth_Cons')
  have "take 15 (name @ 0 # drop (5 + length name) e1) = name @ 0 # take (14 - length name) (drop (5 + length name) e1)"
    using assms(2) by (simp add: take_Cons')
  then show "de_name (new_entry e name sec) = name"
    unfolding de_name_def eq NAME_MAX_def using takeWhile_name [OF assms(3)] by simp
  show "de_sector (new_entry e name sec) = sec"
    unfolding de_sector_def eq using assms(4) by (simp add: take_bit_nat_eq_self unat_of_nat)
qed

lemma slots_overlay:
  assumes "k < length C div 20" "length e = 20"
  shows "slots (overlay C (20 * k) e) = (slots C)[k := e]"
proof (rule nth_equalityI)
  have l: "20 * k + 20 \<le> length C" using slot_inside [OF assms(1)] .
  then show "length (slots (overlay C (20 * k) e)) = length ((slots C)[k := e])" using assms(2) by simp
next
  fix j assume "j < length (slots (overlay C (20 * k) e))"
  moreover have l: "20 * k + 20 \<le> length C" using slot_inside [OF assms(1)] .
  ultimately have j: "j < length C div 20" using assms(2) by simp
  then have lj: "20 * j + 20 \<le> length C" by (rule slot_inside)
  have "take 20 (drop (20 * j) (overlay C (20 * k) e)) = (if j = k then e else take 20 (drop (20 * j) C))"
  proof (rule nth_equalityI)
    show "length (take 20 (drop (20 * j) (overlay C (20 * k) e))) = length (if j = k then e else take 20 (drop (20 * j) C))"
      using l lj assms(2) by simp
  next
    fix i assume "i < length (take 20 (drop (20 * j) (overlay C (20 * k) e)))"
    then have i: "i < 20" by simp
    have "(20 * k \<le> 20 * j + i \<and> 20 * j + i < 20 * k + 20) \<longleftrightarrow> j = k" using i by linarith
    then show "take 20 (drop (20 * j) (overlay C (20 * k) e)) ! i = (if j = k then e else take 20 (drop (20 * j) C)) ! i"
      using i l lj assms(2) by (simp add: nth_overlay)
  qed
  then show "slots (overlay C (20 * k) e) ! j = (slots C)[k := e] ! j"
    using j l assms(2) by (simp add: nth_slots nth_list_update)
qed

lemma slots_overlay_tail:
  assumes "20 * (length C div 20) \<le> i" "i + length bs \<le> length C"
  shows "slots (overlay C i bs) = slots C"
proof -
  have "take 20 (drop (20 * k) (overlay C i bs)) = take 20 (drop (20 * k) C)" if "k < length C div 20" for k
  proof (rule nth_equalityI)
    fix j assume "j < length (take 20 (drop (20 * k) (overlay C i bs)))"
    then have "j < 20" by simp
    moreover have "20 * k + 20 \<le> 20 * (length C div 20)" using that by simp
    ultimately show "take 20 (drop (20 * k) (overlay C i bs)) ! j = take 20 (drop (20 * k) C) ! j"
      using assms slot_inside [OF that] by (simp add: nth_overlay)
  qed (use assms in simp)
  then show ?thesis using assms(2) by (simp add: slots_def)
qed

text \<open>The map of a directory after an entry has been added or erased.\<close>

definition names_unique :: "u8 list list \<Rightarrow> bool" where
  "names_unique S \<longleftrightarrow> (\<forall>i < length S. \<forall>j < length S. de_in_use (S ! i) \<longrightarrow> de_in_use (S ! j) \<longrightarrow> de_name (S ! i) = de_name (S ! j) \<longrightarrow> i = j)"

definition slot_map :: "u8 list list \<Rightarrow> u8 list \<Rightarrow> nat option" where
  "slot_map S name = map_option (de_sector \<circ> fst) (first_match (entry_for name) S 0)"

lemma dir_map_slots: "dir_map C = slot_map (slots C)"
  by (rule ext) (simp add: dir_map_def slot_map_def)

lemma slot_map_None: "slot_map S name = None \<longleftrightarrow> (\<forall>e \<in> set S. \<not> entry_for name e)"
  by (simp add: slot_map_def first_match_None)

lemma slot_map_Some:
  assumes "names_unique S"
  shows "slot_map S name = Some sec \<longleftrightarrow> (\<exists>e \<in> set S. entry_for name e \<and> de_sector e = sec)"
proof
  assume "slot_map S name = Some sec"
  then obtain e ofs where "first_match (entry_for name) S 0 = Some (e, ofs)" "de_sector e = sec" by (auto simp: slot_map_def)
  then show "\<exists>e \<in> set S. entry_for name e \<and> de_sector e = sec" unfolding first_match_Some by auto
next
  assume "\<exists>e \<in> set S. entry_for name e \<and> de_sector e = sec"
  then obtain i where i: "i < length S" "entry_for name (S ! i)" "de_sector (S ! i) = sec" by (metis in_set_conv_nth)
  then obtain e ofs where m: "first_match (entry_for name) S 0 = Some (e, ofs)"
    using first_match_None [of "entry_for name" S 0] by (cases "first_match (entry_for name) S 0") auto
  then obtain j where "j < length S" "e = S ! j" "entry_for name e" unfolding first_match_Some by auto
  then have "j = i" using i assms unfolding names_unique_def entry_for_def by metis
  then show "slot_map S name = Some sec" using m \<open>e = S ! j\<close> i by (simp add: slot_map_def)
qed

lemma slots_add:
  assumes "names_unique S" "k < length S" "\<not> de_in_use (S ! k)" "slot_map S name = None" "entry_for name e"
  shows "names_unique (S[k := e])" "slot_map (S[k := e]) = (slot_map S)(name \<mapsto> de_sector e)"
proof -
  show u: "names_unique (S[k := e])"
  proof -
    have "\<forall>i < length S. \<not> (de_in_use (S ! i) \<and> de_name (S ! i) = name)"
      using assms(4) nth_mem unfolding slot_map_None entry_for_def by metis
    then show ?thesis using assms(1,2,3,5) unfolding names_unique_def entry_for_def
      by (auto simp: nth_list_update split: if_splits)
  qed
  have set: "set (S[k := e]) = insert e (set (take k S) \<union> set (drop (Suc k) S))" using assms(2) by (simp add: set_update_distinct upd_conv_take_nth_drop)
  have setS: "set S = insert (S ! k) (set (take k S) \<union> set (drop (Suc k) S))" using assms(2) by (metis id_take_nth_drop list.set(2) set_append Un_insert_right)
  have "slot_map (S[k := e]) n = Some sec \<longleftrightarrow> ((slot_map S)(name \<mapsto> de_sector e)) n = Some sec" for n sec
  proof (cases "n = name")
    case True
    then show ?thesis using assms(4,5) unfolding slot_map_Some [OF u] slot_map_None set by (auto simp: setS)
  next
    case False
    then have "((slot_map S)(name \<mapsto> de_sector e)) n = slot_map S n" by simp
    then show ?thesis unfolding slot_map_Some [OF u] slot_map_Some [OF assms(1)] set setS
      using False assms(3,5) by (auto simp: entry_for_def slot_map_Some [OF assms(1)] setS)
  qed
  then show "slot_map (S[k := e]) = (slot_map S)(name \<mapsto> de_sector e)" by (intro ext) (metis not_None_eq)
qed

lemma slots_erase:
  assumes "names_unique S" "k < length S" "entry_for name (S ! k)" "\<not> de_in_use e"
  shows "names_unique (S[k := e])" "slot_map (S[k := e]) = (slot_map S)(name := None)"
proof -
  show u: "names_unique (S[k := e])"
    using assms(1,2,4) unfolding names_unique_def by (auto simp: nth_list_update split: if_splits)
  have "slot_map (S[k := e]) n = Some sec \<longleftrightarrow> ((slot_map S)(name := None)) n = Some sec" for n sec
  proof -
    have "(\<exists>x \<in> set (S[k := e]). entry_for n x \<and> de_sector x = sec)
        \<longleftrightarrow> (\<exists>i < length S. entry_for n (S[k := e] ! i) \<and> de_sector (S[k := e] ! i) = sec)"
      by (metis in_set_conv_nth length_list_update)
    also have "\<dots> \<longleftrightarrow> (\<exists>i < length S. i \<noteq> k \<and> entry_for n (S ! i) \<and> de_sector (S ! i) = sec)"
      using assms(2,4) by (auto simp: nth_list_update entry_for_def)
    also have "\<dots> \<longleftrightarrow> n \<noteq> name \<and> (\<exists>i < length S. entry_for n (S ! i) \<and> de_sector (S ! i) = sec)"
      using assms(1-3) unfolding names_unique_def entry_for_def by metis
    also have "\<dots> \<longleftrightarrow> n \<noteq> name \<and> slot_map S n = Some sec"
      unfolding slot_map_Some [OF assms(1)] by (metis in_set_conv_nth)
    finally show ?thesis unfolding slot_map_Some [OF u] by simp
  qed
  then show "slot_map (S[k := e]) = (slot_map S)(name := None)" by (intro ext) (metis not_None_eq)
qed

text \<open>Writing an entry over a slot.\<close>

lemma write_slot:
  assumes "dir_ready fs p ino" "deny_write_cnt ino = 0" "k < length (slots (dir_bytes fs ino))" "length e = 20"
  shows "\<exists>fs'. inode_write_at fs p e 20 (int (20 * k)) = Some (fs', 20) \<and> io fs fs'
    \<and> dbyte (img fs') = patch (dbyte (img fs)) (base (i_data ino) + 20 * k) e
    \<and> dir_bytes fs' ino = overlay (dir_bytes fs ino) (20 * k) e"
proof -
  let ?d = "i_data ino"
  have r: "dev_ok fs" "inodes fs p = Some ino" "ino_ok fs ?d" "\<forall>k. mem_ok fs k" using assms(1) by (auto simp: dir_ready_def)
  have L: "0 \<le> d_length ?d" "d_length ?d \<le> 2147483135" using r(3) by (auto simp: ino_ok_def)
  have in': "20 * k + 20 \<le> nat (d_length ?d)" using assms(3) slot_inside [of k "nat (d_length ?d)"] by simp
  then have ofs: "int (20 * k) \<le> 2147483647" using L by linarith
  have av: "avail ?d 20 (int (20 * k)) = 20" using in' L(1) unfolding avail_def by linarith
  obtain fs' where w: "inode_write_at fs p e 20 (int (20 * k)) = Some (fs', int 20)" "io fs fs'"
      "dbyte (img fs') = patch (dbyte (img fs)) (base ?d + nat (int (20 * k))) (take 20 e)"
    using inode_write_at_ok [OF r(1-3) assms(2) _ ofs, of 20 e] assms(4) r(4) unfolding av by auto
  then show ?thesis using assms(4) in' contents_patch [of "20 * k" e ?d "dbyte (img fs)"] unfolding nat_int by auto
qed

text \<open>At the end of the directory there is no room for another entry.\<close>

lemma write_past_slots:
  assumes "dir_ready fs p ino" "deny_write_cnt ino = 0" "length e = 20"
  shows "\<exists>fs' n. inode_write_at fs p e 20 (int (20 * length (slots (dir_bytes fs ino)))) = Some (fs', int n) \<and> io fs fs' \<and> n < 20
    \<and> dbyte (img fs') = patch (dbyte (img fs)) (base (i_data ino) + 20 * length (slots (dir_bytes fs ino))) (take n e)
    \<and> 20 * length (slots (dir_bytes fs ino)) + n \<le> nat (d_length (i_data ino))
    \<and> slots (dir_bytes fs' ino) = slots (dir_bytes fs ino)"
proof -
  let ?d = "i_data ino" let ?k = "nat (d_length ?d) div 20"
  have r: "dev_ok fs" "inodes fs p = Some ino" "ino_ok fs ?d" "\<forall>k. mem_ok fs k" using assms(1) by (auto simp: dir_ready_def)
  have L: "0 \<le> d_length ?d" "d_length ?d \<le> 2147483135" using r(3) by (auto simp: ino_ok_def)
  have k: "20 * ?k \<le> nat (d_length ?d)" "nat (d_length ?d) < 20 * ?k + 20" using slot_outside [of ?k] by auto
  then have ofs: "int (20 * ?k) \<le> 2147483647" using L by linarith
  define n where "n = avail ?d 20 (int (20 * ?k))"
  have n: "n < 20" "20 * ?k + n \<le> nat (d_length ?d)" using k L(1) unfolding n_def avail_def by linarith+
  obtain fs' where w: "inode_write_at fs p e 20 (int (20 * ?k)) = Some (fs', int n)" "io fs fs'"
      "dbyte (img fs') = patch (dbyte (img fs)) (base ?d + 20 * ?k) (take n e)"
    using inode_write_at_ok [OF r(1-3) assms(2) _ ofs, of 20 e] assms(3) r(4) unfolding n_def [symmetric] nat_int by auto
  have "dir_bytes fs' ino = overlay (dir_bytes fs ino) (20 * ?k) (take n e)"
    unfolding w(3) using n assms(3) contents_patch [of "20 * ?k" "take n e" ?d "dbyte (img fs)"] by simp
  then have "slots (dir_bytes fs' ino) = slots (dir_bytes fs ino)"
    using n assms(3) slots_overlay_tail [of "dir_bytes fs ino" "20 * ?k" "take n e"] by simp
  then show ?thesis using w n by auto
qed

lemma lookup_ok:
  assumes "dir_ready fs (dir_inode dr) ino" "d \<noteq> NULL" "dirs fs d = Some dr"
  shows "\<exists>fs'. lookup fs d name = Some (fs', first_match (entry_for name) (slots (dir_bytes fs ino)) 0) \<and> io fs fs' \<and> img fs' = img fs"
  using lookup_loop_ok [OF assms(1), of 0 name] assms(2,3) by (simp add: lookup_def)

text \<open>Adding an entry: when it succeeds, and what becomes of the slots and of the rest of the disk.\<close>

lemma dir_add_ok:
  assumes "dir_ready fs (dir_inode dr) ino" "d \<noteq> NULL" "dirs fs d = Some dr" "deny_write_cnt ino = 0" "length e0 = 20"
    "0 \<notin> set name" "sec < two32"
  shows "\<exists>fs' ok. dir_add fs d name sec e0 = Some (fs', ok) \<and> io fs fs'
    \<and> (\<forall>x. x < base (i_data ino) \<or> base (i_data ino) + nat (d_length (i_data ino)) \<le> x \<longrightarrow> dbyte (img fs') x = dbyte (img fs) x)
    \<and> (if name \<noteq> [] \<and> length name \<le> 14 \<and> dir_map (dir_bytes fs ino) name = None \<and> (\<exists>e \<in> set (slots (dir_bytes fs ino)). \<not> de_in_use e)
       then ok \<and> (\<exists>k e. k < length (slots (dir_bytes fs ino)) \<and> \<not> de_in_use (slots (dir_bytes fs ino) ! k)
         \<and> entry_for name e \<and> de_sector e = sec \<and> slots (dir_bytes fs' ino) = (slots (dir_bytes fs ino))[k := e])
       else \<not> ok \<and> slots (dir_bytes fs' ino) = slots (dir_bytes fs ino))"
proof -
  let ?S = "slots (dir_bytes fs ino)"
  have dev: "dev_ok fs" using assms(1) by (simp add: dir_ready_def)
  obtain fs1 where l: "lookup fs d name = Some (fs1, first_match (entry_for name) ?S 0)" "io fs fs1" "img fs1 = img fs"
    using lookup_ok [OF assms(1-3)] by blast
  have map: "dir_map (dir_bytes fs ino) name = None \<longleftrightarrow> first_match (entry_for name) ?S 0 = None"
    by (simp add: dir_map_def)
  show ?thesis
  proof (cases "name \<noteq> [] \<and> length name \<le> 14 \<and> dir_map (dir_bytes fs ino) name = None")
    case False
    define fs' where "fs' = (if name = [] \<or> length name > 14 then fs else fs1)"
    have "dir_add fs d name sec e0 = Some (fs', False)"
      using False assms(2) l map by (auto simp: dir_add_def NAME_MAX_def fs'_def)
    moreover have "io fs fs'" "img fs' = img fs" using l(2,3) io_refl [OF dev] by (simp_all add: fs'_def)
    moreover have "\<not> (name \<noteq> [] \<and> length name \<le> 14 \<and> dir_map (dir_bytes fs ino) name = None \<and> (\<exists>e \<in> set ?S. \<not> de_in_use e))"
      using False by blast
    ultimately show ?thesis by (intro exI [of _ fs'] exI [of _ False]) (simp only: if_False simp_thms)
  next
    case True
    let ?m = "first_match (\<lambda>e. \<not> de_in_use e) ?S 0"
    have r1: "dir_ready fs1 (dir_inode dr) ino" using dir_ready_io [OF assms(1) l(2)] .
    obtain fs2 e where f: "free_slot_loop fs1 (dir_inode dr) e0 0 = Some (fs2, e, case ?m of None \<Rightarrow> 20 * length ?S | Some (_, ofs) \<Rightarrow> ofs)"
        "io fs1 fs2" "img fs2 = img fs1" "length e = 20"
      using free_slot_loop_ok [OF r1 _ assms(5), of 0] unfolding l(3) by auto
    have r2: "dir_ready fs2 (dir_inode dr) ino" using dir_ready_io [OF r1 f(2)] .
    have io2: "io fs fs2" "img fs2 = img fs" using io_trans [OF l(2) f(2)] f(3) l(3) by simp_all
    have dr1: "dirs fs1 d = Some dr" using io_sel(5) [OF l(2)] assms(3) by simp
    let ?e = "new_entry e name sec"
    have ne: "length ?e = 20" "entry_for name ?e" "de_sector ?e = sec"
      using new_entry_ok [OF f(4) _ assms(6,7)] True by (auto simp: entry_for_def)
    have run: "dir_add fs d name sec e0 = do { (fs, n) \<leftarrow> inode_write_at fs2 (dir_inode dr) ?e 20
          (int (case ?m of None \<Rightarrow> 20 * length ?S | Some (_, ofs) \<Rightarrow> ofs)); Some (fs, n = 20) }"
      using assms(2) l(1) True map dr1 f(1) by (simp add: dir_add_def NAME_MAX_def new_entry_def Let_def)
    show ?thesis
    proof (cases ?m)
      case None
      obtain fs3 n where w: "inode_write_at fs2 (dir_inode dr) ?e 20 (int (20 * length ?S)) = Some (fs3, int n)" "io fs2 fs3" "n < 20"
          "dbyte (img fs3) = patch (dbyte (img fs)) (base (i_data ino) + 20 * length ?S) (take n ?e)"
          "20 * length ?S + n \<le> nat (d_length (i_data ino))" "slots (dir_bytes fs3 ino) = ?S"
        using write_past_slots [OF r2 assms(4) ne(1)] unfolding io2(2) by blast
      have "dir_add fs d name sec e0 = Some (fs3, False)" using run None w(1,3) by simp
      moreover have "\<forall>x. x < base (i_data ino) \<or> base (i_data ino) + nat (d_length (i_data ino)) \<le> x \<longrightarrow> dbyte (img fs3) x = dbyte (img fs) x"
        unfolding w(4) using w(5) ne(1) by (auto intro!: patch_outside)
      moreover have "\<not> (\<exists>e \<in> set ?S. \<not> de_in_use e)" using None unfolding first_match_None by blast
      ultimately show ?thesis using io_trans [OF io2(1) w(2)] w(6) by auto
    next
      case (Some eo)
      then obtain k where k: "k < length ?S" "snd eo = 20 * k" "\<not> de_in_use (?S ! k)"
        by (cases eo) (auto simp: first_match_Some)
      then have kS: "k < length (slots (dir_bytes fs2 ino))" using io2(2) by simp
      obtain fs3 where w: "inode_write_at fs2 (dir_inode dr) ?e 20 (int (20 * k)) = Some (fs3, 20)" "io fs2 fs3"
          "dbyte (img fs3) = patch (dbyte (img fs)) (base (i_data ino) + 20 * k) ?e"
          "dir_bytes fs3 ino = overlay (dir_bytes fs ino) (20 * k) ?e"
        using write_slot [OF r2 assms(4) kS ne(1)] unfolding io2(2) by blast
      have "dir_add fs d name sec e0 = Some (fs3, True)" using run Some k(2) w(1) by (cases eo) simp
      moreover have "\<forall>x. x < base (i_data ino) \<or> base (i_data ino) + nat (d_length (i_data ino)) \<le> x \<longrightarrow> dbyte (img fs3) x = dbyte (img fs) x"
        unfolding w(3) using slot_inside [of k "nat (d_length (i_data ino))"] k(1) ne(1) by (auto intro!: patch_outside)
      moreover have "slots (dir_bytes fs3 ino) = ?S[k := ?e]" unfolding w(4) using slots_overlay k(1) ne(1) by simp
      moreover have "\<exists>e \<in> set ?S. \<not> de_in_use e" using k(1,3) nth_mem by blast
      ultimately show ?thesis using io_trans [OF io2(1) w(2)] True k ne by (intro exI [of _ fs3] exI [of _ True]) auto
    qed
  qed
qed

section \<open>Properties\<close>

text \<open>The directory of 65 free entries in the open inode of \<^const>\<open>small_fs\<close>.\<close>

definition dir_fs :: fsys where
  "dir_fs = small_fs\<lparr>dirs := [7 \<mapsto> \<lparr>dir_inode = 5, dir_pos = 0\<rparr>]\<rparr>"

abbreviation dir_fs_ino :: inode where
  "dir_fs_ino \<equiv> the (inodes small_fs 5)"

lemma dir_fs_zero: "dbyte (img dir_fs) = (\<lambda>x. 0)"
  by (rule ext) (simp add: dbyte_def img_def dev_sector_def dir_fs_def small_fs_def two_partitions_def extent_def a_block_def)

lemma dir_fs_free: "e \<in> set (slots (dir_bytes dir_fs dir_fs_ino)) \<Longrightarrow> \<not> de_in_use e"
  unfolding dir_fs_zero using slot_inside [of _ "nat (d_length (i_data dir_fs_ino))"]
  by (auto simp: slots_def contents_def de_in_use_def)

lemma dir_fs_ready: "dir_ready dir_fs 5 dir_fs_ino"
  using small_fs_ok by (simp add: dir_ready_def dir_fs_def small_fs_def dev_ok_def ino_ok_def dev_cap_def)

text \<open>
  C23. A directory implements a finite map from names to inode sectors: when memory is available,
  \<^verbatim>\<open>dir_add\<close> succeeds exactly if the name is valid and new and an entry is free; it then adds exactly that
  binding, and otherwise changes no binding; a following search finds exactly what the map holds.
\<close>

theorem dir_add_refines:
  assumes "dir_ready fs (dir_inode dr) ino" "d \<noteq> NULL" "dirs fs d = Some dr" "deny_write_cnt ino = 0" "length e0 = 20"
    "0 \<notin> set name" "sec < two32" "names_unique (slots (dir_bytes fs ino))"
  shows "\<exists>fs' ok fs2 r. dir_add fs d name sec e0 = Some (fs', ok)
    \<and> (ok \<longleftrightarrow> name \<noteq> [] \<and> length name \<le> 14 \<and> dir_map (dir_bytes fs ino) name = None
        \<and> (\<exists>e \<in> set (slots (dir_bytes fs ino)). \<not> de_in_use e))
    \<and> dir_map (dir_bytes fs' ino) = (if ok then (dir_map (dir_bytes fs ino))(name \<mapsto> sec) else dir_map (dir_bytes fs ino))
    \<and> names_unique (slots (dir_bytes fs' ino))
    \<and> lookup fs' d n = Some (fs2, r) \<and> map_option (de_sector \<circ> fst) r = dir_map (dir_bytes fs' ino) n"
proof -
  let ?S = "slots (dir_bytes fs ino)"
  let ?c = "name \<noteq> [] \<and> length name \<le> 14 \<and> dir_map (dir_bytes fs ino) name = None \<and> (\<exists>e \<in> set ?S. \<not> de_in_use e)"
  obtain fs' ok where a: "dir_add fs d name sec e0 = Some (fs', ok)" "io fs fs'"
      "if ?c then ok \<and> (\<exists>k e. k < length ?S \<and> \<not> de_in_use (?S ! k) \<and> entry_for name e \<and> de_sector e = sec
          \<and> slots (dir_bytes fs' ino) = ?S[k := e])
       else \<not> ok \<and> slots (dir_bytes fs' ino) = ?S"
    using dir_add_ok [OF assms(1-7)] by blast
  have c: "ok \<longleftrightarrow> ?c" using a(3) by (metis (no_types, lifting))
  have m: "dir_map (dir_bytes fs' ino) = (if ok then (dir_map (dir_bytes fs ino))(name \<mapsto> sec) else dir_map (dir_bytes fs ino))
      \<and> names_unique (slots (dir_bytes fs' ino))"
  proof (cases ?c)
    case True
    then obtain k e where "ok" "k < length ?S" "\<not> de_in_use (?S ! k)" "entry_for name e" "de_sector e = sec"
        "slots (dir_bytes fs' ino) = ?S[k := e]"
      using a(3) unfolding if_P [OF True] by blast
    then show ?thesis using slots_add [OF assms(8), of k name e] True by (simp add: dir_map_slots)
  next
    case False
    then have "\<not> ok" "slots (dir_bytes fs' ino) = ?S" using a(3) unfolding if_not_P [OF False] by blast+
    then show ?thesis using assms(8) by (simp add: dir_map_slots)
  qed
  obtain fs2 where "lookup fs' d n = Some (fs2, first_match (entry_for n) (slots (dir_bytes fs' ino)) 0)"
    using lookup_ok [OF dir_ready_io [OF assms(1) a(2)] assms(2)] io_sel(5) [OF a(2)] assms(3) by auto
  moreover have "map_option (de_sector \<circ> fst) (first_match (entry_for n) (slots (dir_bytes fs' ino)) 0) = dir_map (dir_bytes fs' ino) n"
    by (simp add: dir_map_def)
  ultimately show ?thesis using a(1) c m by blast
qed

theorem dir_add_refines_witness:
  "\<exists>fs' ok fs2 r. dir_add dir_fs 7 [97, 98] 30 (replicate 20 3) = Some (fs', ok)
    \<and> (ok \<longleftrightarrow> [97, 98] \<noteq> ([] :: u8 list) \<and> length [97, 98 :: u8] \<le> 14 \<and> dir_map (dir_bytes dir_fs dir_fs_ino) [97, 98] = None
        \<and> (\<exists>e \<in> set (slots (dir_bytes dir_fs dir_fs_ino)). \<not> de_in_use e))
    \<and> dir_map (dir_bytes fs' dir_fs_ino)
      = (if ok then (dir_map (dir_bytes dir_fs dir_fs_ino))([97, 98] \<mapsto> 30) else dir_map (dir_bytes dir_fs dir_fs_ino))
    \<and> names_unique (slots (dir_bytes fs' dir_fs_ino))
    \<and> lookup fs' 7 [97, 98] = Some (fs2, r) \<and> map_option (de_sector \<circ> fst) r = dir_map (dir_bytes fs' dir_fs_ino) [97, 98]"
proof (rule dir_add_refines [where dr = "\<lparr>dir_inode = 5, dir_pos = 0\<rparr>"])
  show "dir_ready dir_fs (dir_inode \<lparr>dir_inode = 5, dir_pos = 0\<rparr>) dir_fs_ino" using dir_fs_ready by simp
  show "names_unique (slots (dir_bytes dir_fs dir_fs_ino))"
    unfolding names_unique_def using dir_fs_free nth_mem by blast
qed (simp_all add: dir_fs_def small_fs_def)

end
