(* ===== verification/Spec2Isabelle.thy ===== *)
theory Spec2Isabelle
  imports Prelude Interfaces KList KListAlg KListSort KBitmap KHash Arithmetic Stdlib CString VAddr
    Palloc Pagedir Threads Sched Synch Monitor KernelSteps Block Inode Files Directory
begin

text \<open>
  \<^bold>\<open>Verification of the Pintos kernel.\<close> The sources are under \<^verbatim>\<open>src/pintos/src\<close>; file names below are
  relative to it.

  \<^bold>\<open>The program.\<close> Pintos is a small operating system kernel for 32-bit PCs. \<^verbatim>\<open>lib/\<close> holds the C library and
  the kernel's data structures. \<^verbatim>\<open>threads/\<close> holds the scheduler, synchronization, interrupts and memory
  allocation. \<^verbatim>\<open>devices/\<close> holds the drivers, \<^verbatim>\<open>filesys/\<close> the file system on top of the block devices, and
  \<^verbatim>\<open>userprog/\<close> processes, system calls and page directories.

  \<^bold>\<open>Conventions.\<close> An operation that can panic has its result in an option type: \<^const>\<open>None\<close> is a failed
  \<^verbatim>\<open>ASSERT\<close>, a \<^verbatim>\<open>PANIC\<close>, undefined behaviour of C, or a loop that does not end. Every theorem that an
  operation works therefore states that it returns \<^const>\<open>Some\<close>. Loops whose termination is not obvious are
  partial functions in the option monad, so that their termination is part of what is proved; no fuel
  is used. Pointers and \<^verbatim>\<open>size_t\<close> are natural numbers with explicit wrap-around at \<open>2 ^ 32\<close>; fixed-width
  words are used where bits matter; \<^verbatim>\<open>int\<close> and \<^verbatim>\<open>off_t\<close> are integers with overflow treated as undefined.
  What hardware, the compiler's run-time environment or a failing \<^verbatim>\<open>malloc\<close> may do is an argument of the
  operation.

  \<^bold>\<open>Library.\<close>
  \<^item> Prelude: machine types, \<^verbatim>\<open>lib/debug.h\<close>, \<^verbatim>\<open>lib/round.h\<close>, little-endian words.
  \<^item> Interfaces: the contracts between components as locales: queues, allocators of contiguous units,
    tables of elements, sector stores.
  \<^item> KList, KListAlg, KListSort: \<^verbatim>\<open>lib/kernel/list.c\<close> at the level of links. Every operation refines its
    counterpart on HOL lists; \<^verbatim>\<open>list_sort\<close> is a stable sort; \<^verbatim>\<open>list_insert_ordered\<close> and \<^verbatim>\<open>list_unique\<close> are
    correct. Other components represent a kernel list by a HOL list on the strength of this.
  \<^item> KBitmap: \<^verbatim>\<open>lib/kernel/bitmap.c\<close>. First-fit search and the allocator contract.
  \<^item> KHash: \<^verbatim>\<open>lib/kernel/hash.c\<close>. The table contract, the load bound of rehashing, completeness of iteration.
  \<^item> Arithmetic, Stdlib, CString: \<^verbatim>\<open>lib/arithmetic.c\<close>, \<^verbatim>\<open>lib/stdlib.c\<close>, \<^verbatim>\<open>lib/string.c\<close>.

  \<^bold>\<open>Threads.\<close>
  \<^item> Threads: the state of the kernel and \<^verbatim>\<open>threads/thread.c\<close>, with interrupt levels and the external path of
    \<^verbatim>\<open>threads/interrupt.c\<close>. A thread that is switched out keeps the rest of its kernel call as a stack of frames.
  \<^item> Sched: the scheduler invariant and its preservation.
  \<^item> Synch: \<^verbatim>\<open>threads/synch.c\<close>, and that its operations refine steps on a view without scheduler.
  \<^item> Monitor: the abstract machine on views and the invariant of semaphores and locks.
  \<^item> KernelSteps: the kernel as a transition system with arbitrary interleavings of calls and interrupts: no
    panic, mutual exclusion, no lost wake-up, a fair run queue, refinement of the abstract machine; and the
    race in \<^verbatim>\<open>process_wait\<close>.

  \<^bold>\<open>Devices and file system.\<close>
  \<^item> Block: \<^verbatim>\<open>devices/block.c\<close> and \<^verbatim>\<open>devices/partition.c\<close>. Devices obey the sector store contract, partitions are
    isolated; scanning a partition table; the endless recursion on extended partitions.
  \<^item> Inode: the state of the file system and reading and writing file data (\<^verbatim>\<open>filesys/inode.c\<close>).
  \<^item> Files, Directory: descriptors of open inodes and files, the free map and its file, directories as finite
    maps from names to sectors, and the operations of \<^verbatim>\<open>filesys/filesys.c\<close>.

  \<^bold>\<open>Memory.\<close>
  \<^item> VAddr: addresses, page table entries (\<^verbatim>\<open>threads/vaddr.h\<close>, \<^verbatim>\<open>threads/pte.h\<close>).
  \<^item> Palloc: the page allocator (\<^verbatim>\<open>threads/palloc.c\<close>): what it hands out was free, what is given back is free again.
  \<^item> Pagedir: \<^verbatim>\<open>userprog/pagedir.c\<close> on that memory, with the lookaside buffer of the processor: address spaces
    stay isolated and the buffer coherent under all interleavings; mapping and destroying directories.

  \<^bold>\<open>Not modelled.\<close>
  \<^item> Code that only moves data between memory and ports or display memory: the disk, keyboard, serial, display, timer
    chip and clock drivers, console output, and the assembly files. A disk is the read and write operation of
    its device, a context switch the change of the running thread.
  \<^item> \<^verbatim>\<open>threads/malloc.c\<close>: whether an allocation succeeds is an argument of the operations that allocate.
  \<^item> \<^verbatim>\<open>userprog/syscall.c\<close> and the loading of executables in \<^verbatim>\<open>userprog/process.c\<close>: they read user memory through
    pointers that may fault. Of processes the wait, exit and activation are modelled.
  \<^item> Kernel start, command line, statistics, debug output, random numbers, archives, and everything that runs outside
    the kernel: user library, examples, tests, build utilities.
\<close>

end
